(* ===== verification/FL_Prelude.thy ===== *)
theory FL_Prelude
  imports Main "HOL-Library.Word" "HOL-Library.Multiset" "HOL-Library.Monad_Syntax"
begin

text \<open>
  Shared ground of the development: the C types of the Flinstone sources, array accesses
  whose out-of-bounds case is the value \<open>None\<close>, little-endian byte sequences, ring
  buffer contents and doubly linked lists threaded through index arrays.

  Conventions used by every component theory:
  \<^item> a C function that may touch memory out of bounds returns an \<open>option\<close>; \<open>None\<close> is
    undefined behaviour (an access outside the array), never an error code of the program;
  \<^item> error codes (\<open>-1\<close>, \<open>NULL\<close>) are ordinary values of the result;
  \<^item> pointers are \<open>64 word\<close> values with \<open>0\<close> for \<open>NULL\<close>; a function that is handed
    an object takes that object, so its test for a \<open>NULL\<close> object is not repeated;
  \<^item> \<open>uintN_t\<close> is \<open>N word\<close>; an \<open>int\<close> or a \<open>size_t\<close> that is only an index or a
    counter is \<open>int\<close> or \<open>nat\<close>, with the wrap-around written out where the code can
    reach it.
\<close>

unbundle bit_operations_syntax

named_theorems arr \<open>in-bounds array accesses\<close>
named_theorems ringbuf \<open>contents of ring buffers\<close>

type_synonym u8 = "8 word"
type_synonym u16 = "16 word"
type_synonym u32 = "32 word"
type_synonym u64 = "64 word"
type_synonym ptr = "64 word"

abbreviation NULL :: ptr where
  "NULL \<equiv> 0"

text \<open>An operation returns, or its thread never gets on: it waits for another one or halts.\<close>

datatype 'a outcome = Ret 'a | Block

definition obind :: "'a outcome option \<Rightarrow> ('a \<Rightarrow> 'b outcome option) \<Rightarrow> 'b outcome option" where
  "obind x f = (case x of None \<Rightarrow> None | Some Block \<Rightarrow> Some Block | Some (Ret a) \<Rightarrow> f a)"

lemma obind_simps [simp]: "obind None f = None" "obind (Some Block) f = Some Block" "obind (Some (Ret a)) f = f a"
  by (simp_all add: obind_def)

lemma obind_Ret_iff: "obind x f = Some (Ret b) \<longleftrightarrow> (\<exists>a. x = Some (Ret a) \<and> f a = Some (Ret b))"
  by (auto simp: obind_def split: option.splits outcome.splits)

section \<open>Array accesses\<close>

definition aget :: "'a list \<Rightarrow> int \<Rightarrow> 'a option" where
  "aget xs i = (if 0 \<le> i \<and> nat i < length xs then Some (xs ! nat i) else None)"

definition aset :: "'a list \<Rightarrow> int \<Rightarrow> 'a \<Rightarrow> 'a list option" where
  "aset xs i v = (if 0 \<le> i \<and> nat i < length xs then Some (xs[nat i := v]) else None)"

lemma aget_int [arr, simp]: "i < length xs \<Longrightarrow> aget xs (int i) = Some (xs ! i)"
  by (simp add: aget_def)

lemma aset_int [arr, simp]: "i < length xs \<Longrightarrow> aset xs (int i) v = Some (xs[i := v])"
  by (simp add: aset_def)

lemma aget_uint [arr, simp]: "unat i < length xs \<Longrightarrow> aget xs (uint i) = Some (xs ! unat i)"
  by (simp add: aget_def)

lemma aset_uint [arr, simp]: "unat i < length xs \<Longrightarrow> aset xs (uint i) v = Some (xs[unat i := v])"
  by (simp add: aset_def)

lemma aget_nat [arr]: "0 \<le> i \<Longrightarrow> nat i < length xs \<Longrightarrow> aget xs i = Some (xs ! nat i)"
  by (simp add: aget_def)

lemma aset_nat [arr]: "0 \<le> i \<Longrightarrow> nat i < length xs \<Longrightarrow> aset xs i v = Some (xs[nat i := v])"
  by (simp add: aset_def)

lemma aget_Some_iff: "aget xs i = Some v \<longleftrightarrow> 0 \<le> i \<and> nat i < length xs \<and> xs ! nat i = v"
  by (auto simp: aget_def)

lemma aset_Some_iff: "aset xs i v = Some ys \<longleftrightarrow> 0 \<le> i \<and> nat i < length xs \<and> ys = xs[nat i := v]"
  by (auto simp: aset_def)

lemma aset_length: "aset xs i v = Some ys \<Longrightarrow> length ys = length xs"
  by (auto simp: aset_def split: if_splits)

section \<open>Words\<close>

lemma of_nat_unat_id [simp]: "of_nat (unat (k :: 'a::len word)) = k"
  by transfer simp

lemma unat_inj: "unat k = unat h \<longleftrightarrow> k = (h :: 'a::len word)"
  by (metis of_nat_unat_id)

section \<open>Lowest set bit\<close>

text \<open>\<open>__builtin_ctzll\<close>: the index of the lowest set bit (undefined for \<open>0\<close>, which the
  callers exclude).\<close>

definition ctzll :: "u64 \<Rightarrow> int" where
  "ctzll w = int (length (takeWhile (\<lambda>i. \<not> bit w i) [0..<64]))"

lemma length_takeWhile_upt:
  assumes "P l" and "l < n" and "\<And>k. k < l \<Longrightarrow> \<not> P k"
  shows "length (takeWhile (\<lambda>i. \<not> P i) [0..<n]) = l"
proof -
  have "[0..<n] = [0..<l] @ l # [Suc l..<n]"
    using assms(2) by (metis le_add_same_cancel1 less_imp_add_positive upt_add_eq_append upt_conv_Cons zero_le)
  moreover have "takeWhile (\<lambda>i. \<not> P i) ([0..<l] @ l # [Suc l..<n]) = [0..<l]"
    using assms(1,3) by (subst takeWhile_append2) auto
  ultimately show ?thesis by simp
qed

lemma ctzll_least:
  assumes "w \<noteq> 0"
  obtains l where "ctzll w = int l" and "bit w l" and "\<And>k. k < l \<Longrightarrow> \<not> bit w k"
proof -
  from assms obtain i where "bit w i" by (metis bit_0_eq bit_eq_iff bot_apply bot_bool_def)
  then obtain l where l: "bit w l" "\<And>k. k < l \<Longrightarrow> \<not> bit w k"
    using exists_least_iff [of "bit w"] by blast
  moreover from l(1) have "l < 64" using bit_imp_le_length [of w l] by simp
  ultimately show thesis
    by (intro that [of l]) (simp_all add: ctzll_def length_takeWhile_upt [of "bit w"])
qed

section \<open>Lists of lists\<close>

lemma mset_concat_update:
  "l < length ls \<Longrightarrow> mset (concat (ls[l := ys])) + mset (ls ! l) = mset (concat ls) + mset ys"
proof (induction ls arbitrary: l)
  case (Cons x ls)
  then show ?case
    by (cases l) (auto simp: ac_simps)
qed simp

lemma mset_concat_insert:
  assumes "l < length ls" and "mset ys = add_mset s (mset (ls ! l))"
  shows "mset (concat (ls[l := ys])) = add_mset s (mset (concat ls))"
  using mset_concat_update [OF assms(1), of ys] assms(2) by simp

lemma mset_concat_delete:
  assumes "l < length ls" and "mset (ls ! l) = add_mset s (mset ys)"
  shows "add_mset s (mset (concat (ls[l := ys]))) = mset (concat ls)"
  using mset_concat_update [OF assms(1), of ys] assms(2) by simp

lemma in_concat_nth: "l < length ls \<Longrightarrow> s \<in> set (ls ! l) \<Longrightarrow> s \<in> set (concat ls)"
  by auto

lemma in_concat_split:
  assumes "s \<in> set (concat ls)"
  obtains l xs ys where "l < length ls" and "ls ! l = xs @ s # ys"
  using assms by (auto simp: in_set_conv_nth dest: split_list) (metis in_set_conv_decomp nth_mem)

lemma map_concat_cong: "(\<And>s. s \<in> set (concat ls) \<Longrightarrow> f s = g s) \<Longrightarrow> map (map f) ls = map (map g) ls"
  by auto

lemma distinct_concat_nth: "distinct (concat ls) \<Longrightarrow> l < length ls \<Longrightarrow> distinct (ls ! l)"
  by (simp add: distinct_concat_iff)

lemma distinct_concat_disjoint:
  assumes "distinct (concat ls)" and "l < length ls" and "k < length ls" and "l \<noteq> k"
  shows "set (ls ! l) \<inter> set (ls ! k) = {}"
  using assms
proof (induction ls arbitrary: l k)
  case (Cons x ls)
  then show ?case
    by (cases l; cases k) (fastforce dest: in_concat_nth)+
qed simp

lemma distinct_concat_delete:
  assumes "distinct (concat ls)" and "l < length ls" and "ls ! l = xs @ s # ys"
  shows "distinct (s # concat (ls[l := xs @ ys]))"
proof -
  have "mset (s # concat (ls[l := xs @ ys])) = mset (concat ls)"
    using mset_concat_delete [OF assms(2), of s "xs @ ys"] assms(3) by simp
  then show ?thesis using assms(1) mset_eq_imp_distinct_iff by blast
qed

section \<open>Doubly linked lists in index arrays\<close>

text \<open>
  \<open>dls nx pv p xs q h t\<close>: following the index array \<open>nx\<close> from \<open>h\<close> visits exactly the
  slots \<open>xs\<close> and ends at \<open>q\<close>; \<open>pv\<close> holds the reverse links, \<open>p\<close> precedes the first
  slot and \<open>t\<close> is the last slot (or \<open>p\<close> when there is none).
\<close>

fun dls :: "int list \<Rightarrow> int list \<Rightarrow> int \<Rightarrow> nat list \<Rightarrow> int \<Rightarrow> int \<Rightarrow> int \<Rightarrow> bool" where
  "dls nx pv p [] q h t \<longleftrightarrow> h = q \<and> t = p"
| "dls nx pv p (x # xs) q h t \<longleftrightarrow>
     h = int x \<and> pv ! x = p \<and> dls nx pv (int x) xs q (nx ! x) t"

lemma dls_append:
  "dls nx pv p (xs @ ys) q h t \<longleftrightarrow> (\<exists>m k. dls nx pv p xs m h k \<and> dls nx pv k ys q m t)"
  by (induction xs arbitrary: p h) auto

lemma dls_frame_next [simp]: "s \<notin> set xs \<Longrightarrow> dls (nx[s := v]) pv p xs q h t = dls nx pv p xs q h t"
  by (induction xs arbitrary: p h) auto

lemma dls_frame_prev [simp]: "s \<notin> set xs \<Longrightarrow> dls nx (pv[s := v]) p xs q h t = dls nx pv p xs q h t"
  by (induction xs arbitrary: p h) auto

lemma dls_head: "dls nx pv p xs q h t \<Longrightarrow> xs \<noteq> [] \<Longrightarrow> h = int (hd xs)"
  by (cases xs) auto

lemma dls_last: "dls nx pv p xs q h t \<Longrightarrow> xs \<noteq> [] \<Longrightarrow> t = int (last xs)"
  by (induction xs arbitrary: p h) (auto split: if_splits)

lemma dls_tail_neg: "dls nx pv (- 1) xs q h t \<Longrightarrow> t < 0 \<longleftrightarrow> xs = []"
  by (cases "xs = []") (auto dest: dls_last)

lemma dls_head_neg: "dls nx pv p xs (- 1) h t \<Longrightarrow> h < 0 \<longleftrightarrow> xs = []"
  by (cases "xs = []") (auto dest: dls_head)

text \<open>Replacing the successor of a segment's last slot, and the predecessor of its first.\<close>

lemma dls_set_last:
  assumes "dls nx pv p xs q h (int k)" and "xs \<noteq> []" and "distinct xs" and "k < length nx"
  shows "dls (nx[k := q']) pv p xs q' h (int k)"
proof -
  from assms(1,2) have k: "k = last xs" using dls_last by fastforce
  define ys where "ys = butlast xs"
  have xs: "xs = ys @ [k]" using assms(2) k by (simp add: ys_def)
  with assms(3) have "k \<notin> set ys" by auto
  with assms(1,4) show ?thesis by (auto simp: xs dls_append)
qed

lemma dls_set_first:
  assumes "dls nx pv p (k # xs) q h t" and "k \<notin> set xs" and "k < length pv"
  shows "dls nx (pv[k := p']) p' (k # xs) q h t"
  using assms by simp

text \<open>Unlinking the slot between two segments, and appending a slot at the end.\<close>

lemma dls_at:
  assumes "dls nx pv (- 1) (xs @ s # ys) (- 1) h t"
  shows "pv ! s = (if xs = [] then - 1 else int (last xs))"
    and "nx ! s = (if ys = [] then - 1 else int (hd ys))"
  using assms by (auto simp: dls_append dest: dls_last dls_head)

lemma dls_unlink:
  assumes "dls nx pv (- 1) (xs @ s # ys) (- 1) h t" and "distinct (xs @ s # ys)"
    and "\<forall>x \<in> set (xs @ s # ys). x < length nx \<and> x < length pv"
  shows "dls (if xs = [] then nx else nx[last xs := nx ! s])
             (if ys = [] then pv else pv[hd ys := pv ! s]) (- 1) (xs @ ys) (- 1)
             (if xs = [] then nx ! s else h) (if ys = [] then pv ! s else t)"
proof -
  let ?nx = "if xs = [] then nx else nx[last xs := nx ! s]"
  let ?pv = "if ys = [] then pv else pv[hd ys := pv ! s]"
  obtain k where 1: "dls nx pv (- 1) xs (int s) h k" and k: "k = pv ! s"
    and 2: "dls nx pv (int s) ys (- 1) (nx ! s) t"
    using assms(1) by (auto simp: dls_append)
  have "dls ?nx pv (- 1) xs (nx ! s) (if xs = [] then nx ! s else h) k"
    using 1 assms(2,3) dls_last [OF 1] by (cases "xs = []") (auto intro!: dls_set_last)
  moreover have "hd ys \<notin> set xs" if "ys \<noteq> []"
    using assms(2) that by (cases ys) auto
  ultimately have 1: "dls ?nx ?pv (- 1) xs (nx ! s) (if xs = [] then nx ! s else h) k"
    by auto
  have "dls nx ?pv k ys (- 1) (nx ! s) (if ys = [] then k else t)"
    using 2 assms(2,3) k by (cases ys) auto
  moreover have "last xs \<notin> set ys" if "xs \<noteq> []"
    using assms(2) that by (auto dest: last_in_set)
  ultimately have "dls ?nx ?pv k ys (- 1) (nx ! s) (if ys = [] then k else t)"
    by auto
  with 1 k show ?thesis unfolding dls_append by metis
qed

lemma dls_snoc:
  assumes "dls nx pv (- 1) xs (- 1) h t" and "distinct xs" and "s \<notin> set xs"
    and "\<forall>x \<in> set xs. x < length nx" and "s < length nx" and "s < length pv"
  shows "dls (if xs = [] then nx[s := - 1] else nx[s := - 1, last xs := int s]) (pv[s := t])
             (- 1) (xs @ [s]) (- 1) (if xs = [] then int s else h) (int s)"
proof (cases "xs = []")
  case True
  with assms show ?thesis by simp
next
  case False
  with assms(1) have t: "t = int (last xs)" by (rule dls_last)
  have "dls (nx[s := - 1]) (pv[s := t]) (- 1) xs (- 1) h (int (last xs))"
    using assms(1,3) t by simp
  then have "dls ((nx[s := - 1])[last xs := int s]) (pv[s := t]) (- 1) xs (int s) h (int (last xs))"
    by (rule dls_set_last) (use False assms in auto)
  moreover have "last xs \<noteq> s" using False assms(3) last_in_set by blast
  ultimately show ?thesis using False assms(5,6) t by (auto simp: dls_append)
qed

section \<open>Ring buffers\<close>

text \<open>
  The \<open>len\<close> elements of a circular buffer of \<open>cap\<close> slots, oldest first, starting at index
  \<open>head\<close>.
\<close>

definition ring_contents :: "'a list \<Rightarrow> nat \<Rightarrow> nat \<Rightarrow> nat \<Rightarrow> 'a list" where
  "ring_contents buf cap head len = map (\<lambda>i. buf ! ((head + i) mod cap)) [0..<len]"

lemma length_ring_contents [ringbuf, simp]: "length (ring_contents buf cap head len) = len"
  by (simp add: ring_contents_def)

lemma ring_contents_0 [ringbuf, simp]: "ring_contents buf cap head 0 = []"
  by (simp add: ring_contents_def)

lemma ring_index_neq:
  fixes i :: nat
  assumes "i < len" and "len < cap"
  shows "(head + i) mod cap \<noteq> (head + len) mod cap"
proof
  assume "(head + i) mod cap = (head + len) mod cap"
  then have "cap dvd (head + len) - (head + i)"
    using assms(1) mod_eq_dvd_iff_nat [of "head + i" "head + len" cap] by simp
  then show False
    using assms by (auto dest: dvd_imp_le)
qed

lemma ring_push [ringbuf]:
  assumes "len < cap" and "cap \<le> length buf" and "tail = (head + len) mod cap"
  shows "ring_contents (buf[tail := v]) cap head (Suc len) = ring_contents buf cap head len @ [v]"
proof -
  have "tail < length buf" using assms by (meson less_le_trans mod_less_divisor order_le_less_trans zero_le)
  moreover have "\<And>i. i < len \<Longrightarrow> tail \<noteq> (head + i) mod cap"
    using assms ring_index_neq by metis
  ultimately show ?thesis
    using assms(3) by (auto simp: ring_contents_def)
qed

lemma ring_pop [ringbuf]:
  assumes "0 < len"
  shows "ring_contents buf cap head len
         = buf ! (head mod cap) # ring_contents buf cap (Suc head mod cap) (len - 1)"
proof -
  obtain k where k: "len = Suc k" using assms by (cases len) auto
  have "\<And>i. (Suc head mod cap + i) mod cap = (head + Suc i) mod cap"
    by (metis add_Suc_right add_Suc mod_add_left_eq)
  then show ?thesis
    unfolding ring_contents_def k
    by (simp add: upt_conv_Cons map_Suc_upt [symmetric] del: upt_Suc)
qed

end
