(* ===== verification/Sched_PQ.thy ===== *)
theory Sched_PQ
  imports FL_Prelude
begin

text \<open>
  The multi-level priority queue of \<open>kernel/core/sched/priority_queue.c\<close>: four layers of
  tasks threaded as doubly linked lists through index arrays, a stack of free slots, a
  bitmap of the non-empty layers and per-slot generation numbers that make handles safe.

  The first section is the code. The second states what the arrays represent
  (\<open>pq_rep\<close>: the slots of every layer and the free slots) and shows for each operation
  that it stays inside its arrays and keeps that representation; the third gives the
  abstract queue (a list of four task lists) and the refinement.
\<close>

section \<open>The code\<close>

abbreviation PQ_NUM_PRIORITIES :: nat where
  "PQ_NUM_PRIORITIES \<equiv> 4"

abbreviation PQ_MAX_ITEMS :: nat where
  "PQ_MAX_ITEMS \<equiv> 128"

record pq_task =
  fn :: ptr
  arg :: ptr
  priority :: int
  seq :: u32
  quantum :: u32
  runtime :: u32

record priority_queue =
  slots :: "pq_task list"
  layer_head :: "int list"
  layer_tail :: "int list"
  slot_next :: "int list"
  slot_prev :: "int list"
  free_stack :: "int list"
  free_top :: int
  nonempty_mask :: u64
  gen :: "u16 list"
  next_gen :: u16
  pq_size :: int
  next_seq :: u32

definition zero_task :: pq_task where
  "zero_task = \<lparr>fn = NULL, arg = NULL, priority = 0, seq = 0, quantum = 0, runtime = 0\<rparr>"

text \<open>Handles are C \<open>int\<close>s; the macros work on the \<open>unsigned\<close> image of them.\<close>

definition PQ_HANDLE_SLOT :: "int \<Rightarrow> int" where
  "PQ_HANDLE_SLOT h = sint ((word_of_int h :: u32) AND 0xFF)"

definition PQ_HANDLE_GEN :: "int \<Rightarrow> u16" where
  "PQ_HANDLE_GEN h = ucast (drop_bit 16 (word_of_int h :: u32))"

definition PQ_MAKE_HANDLE :: "u16 \<Rightarrow> int \<Rightarrow> int" where
  "PQ_MAKE_HANDLE g slot = sint (push_bit 16 (ucast g :: u32) OR ((word_of_int slot :: u32) AND 0xFF))"

definition handle_valid :: "priority_queue \<Rightarrow> int \<Rightarrow> bool option" where
  "handle_valid pq h =
     (if h < 0 then Some False
      else do {
        let slot = PQ_HANDLE_SLOT h;
        if slot \<ge> int PQ_MAX_ITEMS then Some False
        else do {
          t \<leftarrow> aget (slots pq) slot;
          if fn t = NULL then Some False
          else do {
            g \<leftarrow> aget (gen pq) slot;
            Some (g = PQ_HANDLE_GEN h)
          }
        }
      })"

definition set_layer_nonempty :: "priority_queue \<Rightarrow> int \<Rightarrow> bool \<Rightarrow> priority_queue" where
  "set_layer_nonempty pq layer nonempty =
     (if nonempty
      then pq\<lparr>nonempty_mask := nonempty_mask pq OR push_bit (nat layer) 1\<rparr>
      else pq\<lparr>nonempty_mask := nonempty_mask pq AND NOT (push_bit (nat layer) 1)\<rparr>)"

definition unlink_slot :: "priority_queue \<Rightarrow> int \<Rightarrow> priority_queue option" where
  "unlink_slot pq slot = do {
     p \<leftarrow> aget (slot_prev pq) slot;
     n \<leftarrow> aget (slot_next pq) slot;
     t \<leftarrow> aget (slots pq) slot;
     let layer = priority t;
     pq \<leftarrow> (if p \<ge> 0
       then do { nx \<leftarrow> aset (slot_next pq) p n; Some (pq\<lparr>slot_next := nx\<rparr>) }
       else do { lh \<leftarrow> aset (layer_head pq) layer n; Some (pq\<lparr>layer_head := lh\<rparr>) });
     pq \<leftarrow> (if n \<ge> 0
       then do { pv \<leftarrow> aset (slot_prev pq) n p; Some (pq\<lparr>slot_prev := pv\<rparr>) }
       else do { lt \<leftarrow> aset (layer_tail pq) layer p; Some (pq\<lparr>layer_tail := lt\<rparr>) });
     h \<leftarrow> aget (layer_head pq) layer;
     Some (if h < 0 then set_layer_nonempty pq layer False else pq)
   }"

definition append_to_layer :: "priority_queue \<Rightarrow> int \<Rightarrow> int \<Rightarrow> priority_queue option" where
  "append_to_layer pq slot layer = do {
     t \<leftarrow> aget (slots pq) slot;
     ss \<leftarrow> aset (slots pq) slot (t\<lparr>priority := layer\<rparr>);
     let pq = pq\<lparr>slots := ss\<rparr>;
     t \<leftarrow> aget (layer_tail pq) layer;
     pv \<leftarrow> aset (slot_prev pq) slot t;
     nx \<leftarrow> aset (slot_next pq) slot (- 1);
     let pq = pq\<lparr>slot_prev := pv, slot_next := nx\<rparr>;
     pq \<leftarrow> (if t \<ge> 0
       then do { nx \<leftarrow> aset (slot_next pq) t slot; Some (pq\<lparr>slot_next := nx\<rparr>) }
       else do { lh \<leftarrow> aset (layer_head pq) layer slot; Some (pq\<lparr>layer_head := lh\<rparr>) });
     lt \<leftarrow> aset (layer_tail pq) layer slot;
     Some (set_layer_nonempty (pq\<lparr>layer_tail := lt\<rparr>) layer True)
   }"

definition free_slot :: "priority_queue \<Rightarrow> int \<Rightarrow> priority_queue option" where
  "free_slot pq slot = do {
     ss \<leftarrow> aset (slots pq) slot zero_task;
     fs \<leftarrow> aset (free_stack pq) (free_top pq) slot;
     Some (pq\<lparr>slots := ss, free_stack := fs, free_top := free_top pq + 1\<rparr>)
   }"

definition pq_init :: priority_queue where
  "pq_init = \<lparr>
     slots = replicate PQ_MAX_ITEMS zero_task,
     layer_head = replicate PQ_NUM_PRIORITIES (- 1),
     layer_tail = replicate PQ_NUM_PRIORITIES (- 1),
     slot_next = replicate PQ_MAX_ITEMS 0,
     slot_prev = replicate PQ_MAX_ITEMS 0,
     free_stack = map int [0..<PQ_MAX_ITEMS],
     free_top = int PQ_MAX_ITEMS,
     nonempty_mask = 0,
     gen = replicate PQ_MAX_ITEMS 0,
     next_gen = 0,
     pq_size = 0,
     next_seq = 0\<rparr>"

text \<open>\<open>pq_push\<close> returns the handle, \<open>-1\<close> when it refuses the task.\<close>

definition pq_push :: "priority_queue \<Rightarrow> int \<Rightarrow> ptr \<Rightarrow> ptr \<Rightarrow> (int \<times> priority_queue) option" where
  "pq_push pq prio f a =
     (if prio < 0 \<or> prio \<ge> int PQ_NUM_PRIORITIES \<or> free_top pq \<le> 0 then Some (- 1, pq)
      else do {
        slot \<leftarrow> aget (free_stack pq) (free_top pq - 1);
        t \<leftarrow> aget (slots pq) slot;
        ss \<leftarrow> aset (slots pq) slot
                (t\<lparr>fn := f, arg := a, seq := next_seq pq, quantum := 0, runtime := 0\<rparr>);
        gs \<leftarrow> aset (gen pq) slot (next_gen pq);
        let pq = pq\<lparr>free_top := free_top pq - 1, slots := ss, next_seq := next_seq pq + 1,
                    gen := gs, next_gen := next_gen pq + 1\<rparr>;
        pq \<leftarrow> append_to_layer pq slot prio;
        let pq = pq\<lparr>pq_size := pq_size pq + 1\<rparr>;
        g \<leftarrow> aget (gen pq) slot;
        Some (PQ_MAKE_HANDLE g slot, pq)
      })"

text \<open>The popping operations return the task, or \<open>None\<close> for the result \<open>-1\<close>.\<close>

definition pop_layer_head :: "priority_queue \<Rightarrow> int \<Rightarrow> (pq_task option \<times> priority_queue) option" where
  "pop_layer_head pq layer = do {
     slot \<leftarrow> aget (layer_head pq) layer;
     if slot < 0 then Some (None, pq)
     else do {
       t \<leftarrow> aget (slots pq) slot;
       pq \<leftarrow> unlink_slot pq slot;
       pq \<leftarrow> free_slot pq slot;
       Some (Some t, pq\<lparr>pq_size := pq_size pq - 1\<rparr>)
     }
   }"

definition pq_pop :: "priority_queue \<Rightarrow> (pq_task option \<times> priority_queue) option" where
  "pq_pop pq =
     (if pq_size pq = 0 then Some (None, pq)
      else if nonempty_mask pq = 0 then Some (None, pq)
      else pop_layer_head pq (ctzll (nonempty_mask pq)))"

definition pq_pop_from_layer ::
  "priority_queue \<Rightarrow> int \<Rightarrow> (pq_task option \<times> priority_queue) option" where
  "pq_pop_from_layer pq layer =
     (if layer < 0 \<or> layer \<ge> int PQ_NUM_PRIORITIES then Some (None, pq)
      else if nonempty_mask pq AND push_bit (nat layer) 1 = 0 then Some (None, pq)
      else pop_layer_head pq layer)"

definition pq_has_layer :: "priority_queue \<Rightarrow> int \<Rightarrow> bool" where
  "pq_has_layer pq layer =
     (if layer < 0 \<or> layer \<ge> int PQ_NUM_PRIORITIES then False
      else nonempty_mask pq AND push_bit (nat layer) 1 \<noteq> 0)"

definition pq_update :: "priority_queue \<Rightarrow> int \<Rightarrow> int \<Rightarrow> (int \<times> priority_queue) option" where
  "pq_update pq h new_priority =
     (if new_priority < 0 \<or> new_priority \<ge> int PQ_NUM_PRIORITIES then Some (- 1, pq)
      else do {
        v \<leftarrow> handle_valid pq h;
        if \<not> v then Some (- 1, pq)
        else do {
          let slot = PQ_HANDLE_SLOT h;
          t \<leftarrow> aget (slots pq) slot;
          if priority t = new_priority then Some (0, pq)
          else do {
            pq \<leftarrow> unlink_slot pq slot;
            pq \<leftarrow> append_to_layer pq slot new_priority;
            Some (0, pq)
          }
        }
      })"

definition pq_remove :: "priority_queue \<Rightarrow> int \<Rightarrow> (int \<times> priority_queue) option" where
  "pq_remove pq h = do {
     v \<leftarrow> handle_valid pq h;
     if \<not> v then Some (- 1, pq)
     else do {
       let slot = PQ_HANDLE_SLOT h;
       pq \<leftarrow> unlink_slot pq slot;
       pq \<leftarrow> free_slot pq slot;
       Some (0, pq\<lparr>pq_size := pq_size pq - 1\<rparr>)
     }
   }"

definition pq_set_quantum :: "priority_queue \<Rightarrow> int \<Rightarrow> u32 \<Rightarrow> priority_queue option" where
  "pq_set_quantum pq h q = do {
     v \<leftarrow> handle_valid pq h;
     if \<not> v then Some pq
     else do {
       let slot = PQ_HANDLE_SLOT h;
       t \<leftarrow> aget (slots pq) slot;
       ss \<leftarrow> aset (slots pq) slot (t\<lparr>quantum := q\<rparr>);
       Some (pq\<lparr>slots := ss\<rparr>)
     }
   }"

definition pq_is_empty :: "priority_queue \<Rightarrow> bool" where
  "pq_is_empty pq \<longleftrightarrow> pq_size pq = 0"

definition pq_count :: "priority_queue \<Rightarrow> int" where
  "pq_count pq = pq_size pq"

text \<open>The counting loop follows the links of one layer; \<open>None\<close> also stands for a loop that
  does not end.\<close>

partial_function (option) count_links :: "int list \<Rightarrow> int \<Rightarrow> int \<Rightarrow> int option" where
  "count_links nx s n =
     (if s \<ge> 0 then do { s' \<leftarrow> aget nx s; count_links nx s' (n + 1) } else Some n)"

definition pq_count_layer :: "priority_queue \<Rightarrow> int \<Rightarrow> int option" where
  "pq_count_layer pq layer =
     (if layer < 0 \<or> layer \<ge> int PQ_NUM_PRIORITIES then Some 0
      else do { h \<leftarrow> aget (layer_head pq) layer; count_links (slot_next pq) h 0 })"

section \<open>What the arrays represent\<close>

definition pq_links :: "priority_queue \<Rightarrow> nat list list \<Rightarrow> bool" where
  "pq_links q ls \<longleftrightarrow>
     length (slots q) = PQ_MAX_ITEMS \<and> length (slot_next q) = PQ_MAX_ITEMS \<and>
     length (slot_prev q) = PQ_MAX_ITEMS \<and> length (layer_head q) = PQ_NUM_PRIORITIES \<and>
     length (layer_tail q) = PQ_NUM_PRIORITIES \<and> length ls = PQ_NUM_PRIORITIES \<and>
     (\<forall>l < PQ_NUM_PRIORITIES.
        dls (slot_next q) (slot_prev q) (- 1) (ls ! l) (- 1) (layer_head q ! l) (layer_tail q ! l)) \<and>
     (\<forall>l < PQ_NUM_PRIORITIES. \<forall>s \<in> set (ls ! l). priority (slots q ! s) = int l) \<and>
     (\<forall>l. bit (nonempty_mask q) l \<longleftrightarrow> l < PQ_NUM_PRIORITIES \<and> ls ! l \<noteq> [])"

text \<open>
  \<open>pq_rep q ls fs\<close>: layer \<open>l\<close> holds the slots \<open>ls ! l\<close> in queue order and the free stack
  holds \<open>fs\<close>; together they are the 128 slots, each exactly once.
\<close>

definition pq_rep :: "priority_queue \<Rightarrow> nat list list \<Rightarrow> nat list \<Rightarrow> bool" where
  "pq_rep q ls fs \<longleftrightarrow>
     pq_links q ls \<and> length (free_stack q) = PQ_MAX_ITEMS \<and> length (gen q) = PQ_MAX_ITEMS \<and>
     mset (concat ls) + mset fs = mset [0..<PQ_MAX_ITEMS] \<and>
     free_top q = int (length fs) \<and> take (length fs) (free_stack q) = map int fs \<and>
     (\<forall>s \<in> set fs. slots q ! s = zero_task) \<and>
     pq_size q = int (length (concat ls))"

text \<open>The fields the link operations leave alone.\<close>

definition pq_frame :: "priority_queue \<Rightarrow> priority_queue \<Rightarrow> bool" where
  "pq_frame q q' \<longleftrightarrow>
     free_stack q' = free_stack q \<and> free_top q' = free_top q \<and> gen q' = gen q \<and>
     next_gen q' = next_gen q \<and> pq_size q' = pq_size q \<and> next_seq q' = next_seq q"

lemmas pq_linksD = pq_links_def [THEN iffD1]

lemma pq_rep_slots:
  assumes "pq_rep q ls fs"
  shows "distinct (concat ls)" and "distinct fs" and "set (concat ls) \<inter> set fs = {}"
    and "set (concat ls) \<union> set fs = {..<PQ_MAX_ITEMS}"
proof -
  have m: "mset (concat ls @ fs) = mset [0..<PQ_MAX_ITEMS]"
    using assms by (simp add: pq_rep_def)
  have "distinct (concat ls @ fs)"
    using mset_eq_imp_distinct_iff [OF m] by simp
  then show "distinct (concat ls)" and "distinct fs" and "set (concat ls) \<inter> set fs = {}"
    by simp_all
  show "set (concat ls) \<union> set fs = {..<PQ_MAX_ITEMS}"
    using mset_eq_setD [OF m] by auto
qed

lemma pq_rep_slot_bound: "pq_rep q ls fs \<Longrightarrow> s \<in> set (concat ls) \<Longrightarrow> s < PQ_MAX_ITEMS"
  using pq_rep_slots(4) by blast

lemma pq_rep_length: "pq_rep q ls fs \<Longrightarrow> length (concat ls) + length fs = PQ_MAX_ITEMS"
proof -
  assume "pq_rep q ls fs"
  then have "size (mset (concat ls) + mset fs) = size (mset [0..<PQ_MAX_ITEMS])"
    by (simp add: pq_rep_def)
  then show ?thesis by simp
qed

lemma concat_replicate_Nil: "concat (replicate n []) = []"
  by (induction n) auto

lemma pq_init_rep: "pq_rep pq_init (replicate PQ_NUM_PRIORITIES []) [0..<PQ_MAX_ITEMS]"
  by (simp add: pq_rep_def pq_links_def pq_init_def concat_replicate_Nil del: upt.simps)

lemma bit_set_mask: "bit (m OR 2 ^ l :: u64) k \<longleftrightarrow> bit m k \<or> k = l \<and> k < 64"
  by (auto simp: bit_simps)

lemma bit_clear_mask: "l < 64 \<Longrightarrow> bit (m AND NOT (2 ^ l) :: u64) k \<longleftrightarrow> bit m k \<and> k \<noteq> l"
  by (auto simp: bit_simps dest: bit_imp_le_length)

lemma mask_test: "l < 64 \<Longrightarrow> (m AND 2 ^ l = (0 :: u64)) \<longleftrightarrow> \<not> bit m l"
proof -
  assume l: "l < 64"
  show ?thesis
  proof
    assume "m AND 2 ^ l = 0"
    then have "\<not> bit (m AND 2 ^ l) l" by simp
    with l show "\<not> bit m l" by (simp add: bit_simps)
  next
    assume "\<not> bit m l"
    then show "m AND 2 ^ l = 0"
      by (intro bit_word_eqI) (auto simp: bit_simps)
  qed
qed

lemma unlink_slot_links:
  assumes q: "pq_links q ls" and l: "l < PQ_NUM_PRIORITIES" and ls: "ls ! l = xs @ s # ys"
    and d: "distinct (concat ls)" and b: "\<forall>x \<in> set (concat ls). x < PQ_MAX_ITEMS"
  obtains q' where "unlink_slot q (int s) = Some q'" and "pq_links q' (ls[l := xs @ ys])"
    and "slots q' = slots q" and "pq_frame q q'"
proof -
  have len: "length ls = 4" using q by (simp add: pq_links_def)
  have dl: "dls (slot_next q) (slot_prev q) (- 1) (xs @ s # ys) (- 1) (layer_head q ! l) (layer_tail q ! l)"
    using q l ls by (auto simp: pq_links_def)
  have bl: "\<forall>x \<in> set (xs @ s # ys). x < 128"
    using b l len ls by (metis in_concat_nth)
  have dis: "distinct (xs @ s # ys)"
    using distinct_concat_nth [OF d, of l] l len ls by simp
  note at = dls_at [OF dl]
  have pr: "priority (slots q ! s) = int l"
    using q l ls by (auto simp: pq_links_def)
  let ?nx = "if xs = [] then slot_next q else (slot_next q)[last xs := slot_next q ! s]"
  let ?pv = "if ys = [] then slot_prev q else (slot_prev q)[hd ys := slot_prev q ! s]"
  let ?lh = "if xs = [] then (layer_head q)[l := slot_next q ! s] else layer_head q"
  let ?lt = "if ys = [] then (layer_tail q)[l := slot_prev q ! s] else layer_tail q"
  let ?m = "if xs @ ys = [] then nonempty_mask q AND NOT (push_bit l 1) else nonempty_mask q"
  let ?q = "q\<lparr>slot_next := ?nx, slot_prev := ?pv, layer_head := ?lh, layer_tail := ?lt, nonempty_mask := ?m\<rparr>"
  have new: "dls ?nx ?pv (- 1) (xs @ ys) (- 1) (?lh ! l) (?lt ! l)"
    using dls_unlink [OF dl dis] bl q l by (simp add: pq_links_def if_distrib [of "\<lambda>zs. zs ! l"] cong: if_cong)
  have ends: "last xs < 128" if "xs \<noteq> []" using bl that by simp
  have ends': "hd ys < 128" if "ys \<noteq> []" using bl that by simp
  have hd: "layer_head q ! l = int (hd (xs @ [s]))"
    using dls_head [OF dl] by (cases xs) auto
  note lens = q [THEN pq_linksD]
  have "unlink_slot q (int s) = Some ?q"
    using lens at pr l bl ends ends' hd
    by (cases "xs = []"; cases "ys = []") (simp_all add: unlink_slot_def set_layer_nonempty_def)
  moreover have "pq_links ?q (ls[l := xs @ ys])"
    unfolding pq_links_def
  proof (intro conjI allI impI)
    fix k :: nat
    assume k: "k < 4"
    have dj: "x \<notin> set (ls ! k)" if "k \<noteq> l" "x \<in> set (xs @ s # ys)" for x
      using distinct_concat_disjoint [OF d, of l k] that l k len ls by auto
    have "last xs \<notin> set (ls ! k)" if "k \<noteq> l" "xs \<noteq> []"
      using dj [of "last xs"] that by simp
    moreover have "hd ys \<notin> set (ls ! k)" if "k \<noteq> l" "ys \<noteq> []"
      using dj [of "hd ys"] that by simp
    ultimately show "dls (slot_next ?q) (slot_prev ?q) (- 1) (ls[l := xs @ ys] ! k) (- 1)
                         (layer_head ?q ! k) (layer_tail ?q ! k)"
      using new lens k by (cases "k = l") auto
  next
    fix k :: nat
    show "bit (nonempty_mask ?q) k \<longleftrightarrow> k < 4 \<and> ls[l := xs @ ys] ! k \<noteq> []"
      using lens l ls by (cases "k = l") (auto simp: bit_clear_mask)
  next
    fix k :: nat
    assume "k < 4"
    then show "\<forall>x \<in> set (ls[l := xs @ ys] ! k). priority (slots ?q ! x) = int k"
      using lens l ls by (cases "k = l") auto
  qed (use lens in auto)
  ultimately show thesis
    by (rule that) (simp_all add: pq_frame_def)
qed

lemma append_to_layer_links:
  assumes q: "pq_links q ls" and l: "l < PQ_NUM_PRIORITIES" and s: "s < PQ_MAX_ITEMS"
    and n: "s \<notin> set (concat ls)" and d: "distinct (concat ls)"
    and b: "\<forall>x \<in> set (concat ls). x < PQ_MAX_ITEMS"
  obtains q' where "append_to_layer q (int s) (int l) = Some q'"
    and "pq_links q' (ls[l := ls ! l @ [s]])"
    and "slots q' = (slots q)[s := (slots q ! s)\<lparr>priority := int l\<rparr>]" and "pq_frame q q'"
proof -
  note lens = q [THEN pq_linksD]
  let ?xs = "ls ! l"
  have len: "length ls = 4" using q by (simp add: pq_links_def)
  have dl: "dls (slot_next q) (slot_prev q) (- 1) ?xs (- 1) (layer_head q ! l) (layer_tail q ! l)"
    using lens l by auto
  have bl: "\<forall>x \<in> set ?xs. x < 128" and ns: "s \<notin> set ?xs"
    using b n l len by (metis in_concat_nth)+
  have dis: "distinct ?xs"
    using distinct_concat_nth [OF d, of l] l len by simp
  let ?nx = "if ?xs = [] then (slot_next q)[s := - 1] else (slot_next q)[s := - 1, last ?xs := int s]"
  let ?pv = "(slot_prev q)[s := layer_tail q ! l]"
  let ?lh = "if ?xs = [] then (layer_head q)[l := int s] else layer_head q"
  let ?q = "q\<lparr>slots := (slots q)[s := (slots q ! s)\<lparr>priority := int l\<rparr>],
              slot_next := ?nx, slot_prev := ?pv, layer_head := ?lh,
              layer_tail := (layer_tail q)[l := int s],
              nonempty_mask := nonempty_mask q OR push_bit l 1\<rparr>"
  have new: "dls ?nx ?pv (- 1) (?xs @ [s]) (- 1) (?lh ! l) (int s)"
    using dls_snoc [OF dl dis ns] bl lens l s
    by (simp add: if_distrib [of "\<lambda>zs. zs ! l"] cong: if_cong)
  have tl: "layer_tail q ! l = (if ?xs = [] then - 1 else int (last ?xs))"
    using dl dls_last [OF dl] by (cases "?xs = []") auto
  have "last ?xs < 128" if "?xs \<noteq> []" using bl that by simp
  then have "append_to_layer q (int s) (int l) = Some ?q"
    using lens l s tl
    by (cases "?xs = []") (simp_all add: append_to_layer_def set_layer_nonempty_def)
  moreover have "pq_links ?q (ls[l := ?xs @ [s]])"
    unfolding pq_links_def
  proof (intro conjI allI impI)
    fix k :: nat
    assume k: "k < 4"
    have "last ?xs \<notin> set (ls ! k)" if "k \<noteq> l" "?xs \<noteq> []"
      using distinct_concat_disjoint [OF d, of l k] that l k len last_in_set [of ?xs] by fastforce
    moreover have "s \<notin> set (ls ! k)"
      using n k len by (metis in_concat_nth)
    ultimately show "dls (slot_next ?q) (slot_prev ?q) (- 1) (ls[l := ?xs @ [s]] ! k) (- 1)
                         (layer_head ?q ! k) (layer_tail ?q ! k)"
      using new lens k by (cases "k = l") auto
  next
    fix k :: nat
    show "bit (nonempty_mask ?q) k \<longleftrightarrow> k < 4 \<and> ls[l := ?xs @ [s]] ! k \<noteq> []"
      using lens l by (cases "k = l") (auto simp: bit_set_mask)
  next
    fix k :: nat
    assume k: "k < 4"
    have "s \<notin> set (ls ! k)"
      using n k len by (metis in_concat_nth)
    with k show "\<forall>x \<in> set (ls[l := ?xs @ [s]] ! k). priority (slots ?q ! x) = int k"
      using lens l s by (cases "k = l") (auto simp: nth_list_update)
  qed (use lens in auto)
  ultimately show thesis
    by (rule that) (simp_all add: pq_frame_def)
qed

text \<open>Taking a slot out of its layer, as \<open>pop_layer_head\<close> and \<open>pq_remove\<close> both do, and
  the effect of the operations on the representation.\<close>

definition release :: "priority_queue \<Rightarrow> int \<Rightarrow> priority_queue option" where
  "release pq slot = do {
     pq \<leftarrow> unlink_slot pq slot;
     pq \<leftarrow> free_slot pq slot;
     Some (pq\<lparr>pq_size := pq_size pq - 1\<rparr>)
   }"

definition pq_gens :: "priority_queue \<Rightarrow> priority_queue \<Rightarrow> bool" where
  "pq_gens q q' \<longleftrightarrow> gen q' = gen q \<and> next_gen q' = next_gen q \<and> next_seq q' = next_seq q"

lemma release_rep:
  assumes q: "pq_rep q ls fs" and l: "l < PQ_NUM_PRIORITIES" and ls: "ls ! l = xs @ s # ys"
  obtains q' where "release q (int s) = Some q'" and "pq_rep q' (ls[l := xs @ ys]) (fs @ [s])"
    and "slots q' = (slots q)[s := zero_task]" and "pq_gens q q'"
proof -
  have len: "length ls = 4" and q1: "pq_links q ls" using q by (auto simp: pq_rep_def pq_links_def)
  obtain q' where q': "unlink_slot q (int s) = Some q'" "pq_links q' (ls[l := xs @ ys])"
      "slots q' = slots q" "pq_frame q q'"
    using unlink_slot_links [OF q1 l ls] pq_rep_slots [OF q] by blast
  have s: "s \<in> set (concat ls)" using ls l len by (metis in_concat_nth in_set_conv_decomp)
  then have s128: "s < 128" using pq_rep_slots [OF q] by blast
  have m: "add_mset s (mset (concat (ls[l := xs @ ys]))) = mset (concat ls)"
    by (rule mset_concat_delete) (use ls l len in auto)
  have ml: "length (concat ls) = Suc (length (concat (ls[l := xs @ ys])))"
    using arg_cong [OF m, of size] by simp
  have fl: "length fs < 128"
    using pq_rep_length [OF q] ml by simp
  let ?q = "q'\<lparr>slots := (slots q)[s := zero_task], free_stack := (free_stack q)[length fs := int s],
               free_top := int (length fs) + 1, pq_size := pq_size q - 1\<rparr>"
  have "release q (int s) = Some ?q"
    using q' q s128 fl by (simp add: release_def free_slot_def pq_rep_def pq_links_def pq_frame_def)
  moreover have "pq_links ?q (ls[l := xs @ ys])"
  proof -
    have "s \<notin> set (concat (ls[l := xs @ ys]))"
      using distinct_concat_delete [OF pq_rep_slots(1) [OF q] _ ls] l len by simp
    then have "s \<notin> set (ls[l := xs @ ys] ! k)" if "k < 4" for k
      using that len by (metis in_concat_nth length_list_update)
    with q'(2) q'(3) show ?thesis by (auto simp: pq_links_def) (metis nth_list_update_neq)
  qed
  moreover have "take (Suc (length fs)) ((free_stack q)[length fs := int s]) = map int (fs @ [s])"
    using q fl by (simp add: pq_rep_def take_Suc_conv_app_nth)
  moreover have "mset (concat (ls[l := xs @ ys])) + mset (fs @ [s]) = mset [0..<128]"
    using q unfolding pq_rep_def m [symmetric] by simp
  moreover have "length (slots q) = 128" using q1 by (simp add: pq_links_def)
  ultimately show thesis
    using q q'(4) ml s128
    by (intro that [of ?q]) (auto simp: pq_rep_def pq_frame_def pq_gens_def nth_list_update)
qed

lemma pq_push_rep:
  assumes q: "pq_rep q ls (fs @ [s])" and l: "l < PQ_NUM_PRIORITIES"
  obtains q' where "pq_push q (int l) f a = Some (PQ_MAKE_HANDLE (next_gen q) (int s), q')"
    and "pq_rep q' (ls[l := ls ! l @ [s]]) fs"
    and "slots q' = (slots q)[s := \<lparr>fn = f, arg = a, priority = int l, seq = next_seq q,
                                    quantum = 0, runtime = 0\<rparr>]"
    and "gen q' = (gen q)[s := next_gen q]" and "next_gen q' = next_gen q + 1"
    and "next_seq q' = next_seq q + 1"
proof -
  let ?t = "(slots q ! s)\<lparr>fn := f, arg := a, seq := next_seq q, quantum := 0, runtime := 0\<rparr>"
  let ?q1 = "q\<lparr>free_top := int (length fs), slots := (slots q)[s := ?t], next_seq := next_seq q + 1,
               gen := (gen q)[s := next_gen q], next_gen := next_gen q + 1\<rparr>"
  note sl = pq_rep_slots [OF q]
  have len: "length ls = 4" using q by (simp add: pq_rep_def pq_links_def)
  have s: "s < 128" and n: "s \<notin> set (concat ls)" using sl by auto
  then have nl: "s \<notin> set (ls ! k)" if "k < 4" for k using that len by (metis in_concat_nth)
  have "pq_links ?q1 ls"
    using q nl by (auto simp: pq_rep_def pq_links_def) (metis nth_list_update_neq)
  then obtain q2 where q2: "append_to_layer ?q1 (int s) (int l) = Some q2"
      "pq_links q2 (ls[l := ls ! l @ [s]])"
      "slots q2 = (slots ?q1)[s := (slots ?q1 ! s)\<lparr>priority := int l\<rparr>]" "pq_frame ?q1 q2"
    using append_to_layer_links [of ?q1 ls l s] l s n sl by blast
  let ?q = "q2\<lparr>pq_size := pq_size q2 + 1\<rparr>"
  have lens: "length (slots q) = 128" "length (gen q) = 128" "length (free_stack q) = 128"
      "length fs < 128"
    using q pq_rep_length [OF q] by (auto simp: pq_rep_def pq_links_def)
  have top: "take (Suc (length fs)) (free_stack q) = map int fs @ [int s]" "free_top q = 1 + int (length fs)"
    using q by (simp_all add: pq_rep_def)
  then have fsl: "take (length fs) (free_stack q) = map int fs" "free_stack q ! length fs = int s"
    using lens by (simp_all add: take_Suc_conv_app_nth)
  have "pq_push q (int l) f a = Some (PQ_MAKE_HANDLE (next_gen q) (int s), ?q)"
    using q2(1,4) lens top fsl l s by (simp add: pq_push_def pq_frame_def)
  moreover have m: "mset (concat (ls[l := ls ! l @ [s]])) = add_mset s (mset (concat ls))"
    by (rule mset_concat_insert) (use l len in auto)
  moreover have "length (concat (ls[l := ls ! l @ [s]])) = Suc (length (concat ls))"
    using arg_cong [OF m, of size] by simp
  moreover have "\<forall>x \<in> set fs. x \<noteq> s" using sl(2) by auto
  moreover have "pq_links ?q (ls[l := ls ! l @ [s]])"
    using q2(2) by (simp add: pq_links_def)
  ultimately show thesis
    using q q2(3,4) lens fsl s
    by (intro that [of ?q]) (auto simp: pq_rep_def pq_frame_def zero_task_def)
qed

lemma pq_update_links:
  assumes q: "pq_rep q ls fs" and l: "l < PQ_NUM_PRIORITIES" and ls: "ls ! l = xs @ s # ys"
    and k: "k < PQ_NUM_PRIORITIES" "k \<noteq> l"
  obtains q1 q' where "unlink_slot q (int s) = Some q1" and "append_to_layer q1 (int s) (int k) = Some q'"
    and "pq_rep q' (ls[l := xs @ ys, k := ls ! k @ [s]]) fs"
    and "slots q' = (slots q)[s := (slots q ! s)\<lparr>priority := int k\<rparr>]" and "pq_gens q q'"
proof -
  have len: "length ls = 4" and q1: "pq_links q ls" using q by (auto simp: pq_rep_def pq_links_def)
  note sl = pq_rep_slots [OF q]
  obtain q1 where q1: "unlink_slot q (int s) = Some q1" "pq_links q1 (ls[l := xs @ ys])"
      "slots q1 = slots q" "pq_frame q q1"
    using unlink_slot_links [OF q1 l ls] sl by blast
  have m: "add_mset s (mset (concat (ls[l := xs @ ys]))) = mset (concat ls)"
    by (rule mset_concat_delete) (use ls l len in auto)
  have st: "set (concat ls) = insert s (set (concat (ls[l := xs @ ys])))"
    using arg_cong [OF m, of set_mset] by simp
  have d: "distinct (s # concat (ls[l := xs @ ys]))"
    by (rule distinct_concat_delete [OF sl(1) _ ls]) (use l len in simp)
  then obtain q2 where q2: "append_to_layer q1 (int s) (int k) = Some q2"
      "pq_links q2 (ls[l := xs @ ys, k := ls[l := xs @ ys] ! k @ [s]])"
      "slots q2 = (slots q1)[s := (slots q1 ! s)\<lparr>priority := int k\<rparr>]" "pq_frame q1 q2"
    using append_to_layer_links [OF q1(2) k(1), of s] sl st by auto
  have m2: "mset (concat (ls[l := xs @ ys, k := ls[l := xs @ ys] ! k @ [s]]))
      = add_mset s (mset (concat (ls[l := xs @ ys])))"
    by (rule mset_concat_insert) (use k len in auto)
  have "length (concat (ls[l := xs @ ys, k := ls ! k @ [s]])) = length (concat ls)"
    using arg_cong [OF m, of size] arg_cong [OF m2, of size] k by simp
  moreover have "\<forall>x \<in> set fs. x \<noteq> s" using sl(3) st by auto
  ultimately show thesis
    using q q1 q2 m m2 k
    by (intro that [of q1 q2]) (auto simp: pq_rep_def pq_frame_def pq_gens_def)
qed

end
