(* ===== verification/Sched_MLQ.thy ===== *)
theory Sched_MLQ
  imports Sched_PQ
begin

text \<open>
  What the priority queue of \<open>Sched_PQ\<close> promises: the abstract multi-level queue is a list
  of four lists of (handle, task) pairs. Every operation of
  \<open>kernel/core/sched/priority_queue.c\<close> refines the obvious operation on these lists and stays
  inside its arrays. The interface that the clients (thread pool, VM run loop) rely on is
  the locale \<open>multi_level_queue\<close>, interpreted on the code's definitions.
\<close>

section \<open>The abstract queue\<close>

definition entry :: "priority_queue \<Rightarrow> nat \<Rightarrow> int \<times> pq_task" where
  "entry q s = (PQ_MAKE_HANDLE (gen q ! s) (int s), slots q ! s)"

definition pq_abs :: "priority_queue \<Rightarrow> (int \<times> pq_task) list list \<Rightarrow> bool" where
  "pq_abs q m \<longleftrightarrow> (\<exists>ls fs. pq_rep q ls fs \<and> m = map (map (entry q)) ls)"

definition mlq_push :: "'a list list \<Rightarrow> nat \<Rightarrow> 'a \<Rightarrow> 'a list list" where
  "mlq_push m l x = m[l := m ! l @ [x]]"

definition mlq_pop_layer :: "'a list list \<Rightarrow> nat \<Rightarrow> 'a option \<times> 'a list list" where
  "mlq_pop_layer m l = (case m ! l of [] \<Rightarrow> (None, m) | x # xs \<Rightarrow> (Some x, m[l := xs]))"

fun mlq_pop :: "'a list list \<Rightarrow> 'a option \<times> 'a list list" where
  "mlq_pop [] = (None, [])"
| "mlq_pop ([] # ls) = (let (r, ls') = mlq_pop ls in (r, [] # ls'))"
| "mlq_pop ((x # xs) # ls) = (Some x, xs # ls)"

text \<open>Two handles name the same task when they agree on slot and generation; bits 8 to 15 of
  a handle are ignored by the code.\<close>

definition same_handle :: "int \<Rightarrow> int \<Rightarrow> bool" where
  "same_handle h h' \<longleftrightarrow> PQ_HANDLE_SLOT h = PQ_HANDLE_SLOT h' \<and> PQ_HANDLE_GEN h = PQ_HANDLE_GEN h'"

text \<open>The handle \<open>h\<close> is one that the operations accept: it is not negative, and some queued task that
  has a function was given a handle with the same slot and generation. So neither the negative
  handles that the queue itself gives out once the generation reaches \<open>0x8000\<close> nor the handle
  of a task pushed without a function are accepted, although their tasks are queued.\<close>

definition mlq_valid :: "(int \<times> pq_task) list list \<Rightarrow> int \<Rightarrow> bool" where
  "mlq_valid m h \<longleftrightarrow> 0 \<le> h \<and> (\<exists>e \<in> set (concat m). same_handle h (fst e) \<and> fn (snd e) \<noteq> NULL)"

definition mlq_remove :: "(int \<times> pq_task) list list \<Rightarrow> int \<Rightarrow> (int \<times> pq_task) list list" where
  "mlq_remove m h = map (filter (\<lambda>e. \<not> same_handle h (fst e))) m"

definition mlq_find :: "(int \<times> pq_task) list list \<Rightarrow> int \<Rightarrow> (int \<times> pq_task) option" where
  "mlq_find m h = find (\<lambda>e. same_handle h (fst e)) (concat m)"

text \<open>Moving a task to another layer puts it at the end of that layer.\<close>

definition mlq_update :: "(int \<times> pq_task) list list \<Rightarrow> int \<Rightarrow> nat \<Rightarrow> (int \<times> pq_task) list list" where
  "mlq_update m h l =
     (case mlq_find m h of
        None \<Rightarrow> m
      | Some (h', t) \<Rightarrow>
          if priority t = int l then m
          else mlq_push (mlq_remove m h) l (h', t\<lparr>priority := int l\<rparr>))"

definition mlq_set_quantum ::
  "(int \<times> pq_task) list list \<Rightarrow> int \<Rightarrow> u32 \<Rightarrow> (int \<times> pq_task) list list" where
  "mlq_set_quantum m h n =
     map (map (\<lambda>(h', t). (h', if same_handle h h' then t\<lparr>quantum := n\<rparr> else t))) m"

section \<open>Handles\<close>

lemma and_FF: "w AND 0xFF = take_bit 8 (w :: u32)"
  by (simp add: take_bit_eq_mask mask_eq_exp_minus_1)

lemma PQ_HANDLE_SLOT_eq: "PQ_HANDLE_SLOT h = take_bit 8 h"
  unfolding PQ_HANDLE_SLOT_def and_FF by (rule bit_eqI) (auto simp: bit_simps)

lemma PQ_HANDLE_SLOT_bounds [simp]: "0 \<le> PQ_HANDLE_SLOT h" "PQ_HANDLE_SLOT h < 256"
  using take_bit_int_less_exp [of 8 h] by (simp_all add: PQ_HANDLE_SLOT_eq)

lemma handle_slot_make: "s < 256 \<Longrightarrow> PQ_HANDLE_SLOT (PQ_MAKE_HANDLE g (int s)) = int s"
proof -
  assume "s < 256"
  then have "int s = take_bit 8 (int s)" by (simp add: take_bit_int_eq_self)
  also have "\<dots> = PQ_HANDLE_SLOT (PQ_MAKE_HANDLE g (int s))"
    unfolding PQ_HANDLE_SLOT_eq PQ_MAKE_HANDLE_def and_FF by (rule bit_eqI) (auto simp: bit_simps)
  finally show ?thesis by simp
qed

lemma handle_gen_make: "PQ_HANDLE_GEN (PQ_MAKE_HANDLE g s) = g"
  unfolding PQ_HANDLE_GEN_def PQ_MAKE_HANDLE_def and_FF
  by (rule bit_word_eqI) (auto simp: bit_simps)

lemma bit_15_iff: "bit (g :: u16) 15 \<longleftrightarrow> 0x8000 \<le> uint g"
proof -
  have "uint g < 2 ^ 16" using unsigned_less [of g] by simp
  then have "uint g div 0x8000 = (if 0x8000 \<le> uint g then 1 else 0)"
    by (auto intro!: int_div_pos_eq [of _ _ 1 "uint g - 0x8000"])
  then have "odd (uint g div 0x8000) \<longleftrightarrow> 0x8000 \<le> uint g" by simp
  moreover have "bit g 15 \<longleftrightarrow> bit (uint g) 15" by (simp add: bit_uint_iff)
  ultimately show ?thesis unfolding bit_iff_odd [of "uint g"] by simp
qed

lemma handle_nonneg: "0 \<le> PQ_MAKE_HANDLE g s \<longleftrightarrow> uint g < 0x8000"
proof -
  have "0 \<le> PQ_MAKE_HANDLE g s \<longleftrightarrow> \<not> bit g 15"
    unfolding PQ_MAKE_HANDLE_def and_FF
    by (simp add: bit_simps flip: not_less bit_last_iff)
  then show ?thesis by (simp add: bit_15_iff not_le)
qed

lemma mlq_pop_layer_first:
  assumes "l < length m" and "m ! l \<noteq> []" and "\<And>k. k < l \<Longrightarrow> m ! k = []"
  shows "mlq_pop m = mlq_pop_layer m l"
  using assms
proof (induction m arbitrary: l rule: mlq_pop.induct)
  case (2 ls)
  then obtain k where l: "l = Suc k" by (cases l) auto
  have "mlq_pop ls = mlq_pop_layer ls k"
    using 2(2,3) 2(4) [of "Suc _"] by (intro "2.IH") (simp_all add: l)
  then show ?case by (auto simp: l mlq_pop_layer_def split: list.splits)
next
  case (3 x xs ls)
  then have "l = 0" by (metis list.distinct(1) not_gr0 nth_Cons_0)
  then show ?case by (simp add: mlq_pop_layer_def)
qed simp

lemma mlq_pop_empty: "(\<forall>xs \<in> set m. xs = []) \<Longrightarrow> mlq_pop m = (None, m)"
  by (induction m rule: mlq_pop.induct) auto

lemma mlq_pop_fst: "fst (mlq_pop m) = (if concat m = [] then None else Some (hd (concat m)))"
  by (induction m rule: mlq_pop.induct) (simp_all add: case_prod_beta del: concat_eq_Nil_conv)

lemma mlq_pop_snd: "concat (snd (mlq_pop m)) = tl (concat m)"
  by (induction m rule: mlq_pop.induct) (simp_all add: case_prod_beta)

section \<open>Refinement\<close>

lemma pq_abs_length: "pq_abs q m \<Longrightarrow> length m = PQ_NUM_PRIORITIES"
  by (auto simp: pq_abs_def pq_rep_def pq_links_def)

lemma pq_abs_size: "pq_abs q m \<Longrightarrow> pq_size q = int (length (concat m))"
  by (auto simp: pq_abs_def pq_rep_def length_concat comp_def)

lemma pq_abs_bound: "pq_abs q m \<Longrightarrow> length (concat m) \<le> PQ_MAX_ITEMS"
  by (auto simp: pq_abs_def length_concat comp_def dest!: pq_rep_length)

lemma pq_abs_mask:
  assumes "pq_abs q m"
  shows "bit (nonempty_mask q) l \<longleftrightarrow> l < PQ_NUM_PRIORITIES \<and> m ! l \<noteq> []"
  using assms by (auto simp: pq_abs_def pq_rep_def pq_links_def)

lemma pq_init_abs: "pq_abs pq_init [[], [], [], []]"
proof -
  have "replicate 4 [] = [[], [], [], [] :: nat list]" by (simp add: numeral_eq_Suc)
  with pq_init_rep have "pq_rep pq_init [[], [], [], []] [0..<PQ_MAX_ITEMS]"
    by (simp only:)
  then show ?thesis unfolding pq_abs_def by (intro exI conjI) (assumption, simp)
qed

lemma pq_push_full: "prio < 0 \<or> prio \<ge> int PQ_NUM_PRIORITIES \<Longrightarrow> pq_push q prio f a = Some (- 1, q)"
  by (auto simp: pq_push_def)

lemma pq_push_abs:
  assumes q: "pq_abs q m" and l: "l < PQ_NUM_PRIORITIES" and n: "length (concat m) < PQ_MAX_ITEMS"
  obtains h q' where "pq_push q (int l) f a = Some (h, q')"
    and "pq_abs q' (mlq_push m l (h, \<lparr>fn = f, arg = a, priority = int l, seq = next_seq q,
                                     quantum = 0, runtime = 0\<rparr>))"
    and "PQ_HANDLE_GEN h = next_gen q" and "0 \<le> h \<longleftrightarrow> uint (next_gen q) < 0x8000"
    and "next_gen q' = next_gen q + 1" and "next_seq q' = next_seq q + 1"
proof -
  obtain ls gs where r: "pq_rep q ls gs" and m: "m = map (map (entry q)) ls"
    using q by (auto simp: pq_abs_def)
  have "gs \<noteq> []" using n pq_rep_length [OF r] by (auto simp: m length_concat comp_def)
  then obtain fs s where gs: "gs = fs @ [s]" by (cases gs rule: rev_cases) auto
  note sl = pq_rep_slots [OF r [unfolded gs]]
  have s: "s < 128" and n: "s \<notin> set (concat ls)" using sl by auto
  have lens: "length (slots q) = 128" "length (gen q) = 128" "length ls = 4"
    using r by (auto simp: pq_rep_def pq_links_def)
  let ?t = "\<lparr>fn = f, arg = a, priority = int l, seq = next_seq q, quantum = 0, runtime = 0\<rparr>"
  let ?h = "PQ_MAKE_HANDLE (next_gen q) (int s)"
  obtain q' where q': "pq_push q (int l) f a = Some (?h, q')" "pq_rep q' (ls[l := ls ! l @ [s]]) fs"
      "slots q' = (slots q)[s := ?t]" "gen q' = (gen q)[s := next_gen q]"
      "next_gen q' = next_gen q + 1" "next_seq q' = next_seq q + 1"
    by (rule pq_push_rep [OF r [unfolded gs] l, of f a])
  have e: "entry q' x = (if x = s then (?h, ?t) else entry q x)" for x
    using s lens q' by (simp add: entry_def)
  have eq: "map (map (entry q')) ls = m"
    unfolding m by (intro map_concat_cong) (use n e in auto)
  then have "map (entry q') (ls ! l) = m ! l" using l lens by auto
  then have "map (map (entry q')) (ls[l := ls ! l @ [s]]) = mlq_push m l (?h, ?t)"
    using e [of s] by (simp add: mlq_push_def map_update eq)
  with q'(2) have "pq_abs q' (mlq_push m l (?h, ?t))" unfolding pq_abs_def by metis
  then show thesis
    by (rule that [OF q'(1) _ _ _ q'(5,6)]) (simp_all add: handle_gen_make handle_nonneg)
qed

lemma pq_push_overflow:
  assumes "pq_abs q m" and "length (concat m) = PQ_MAX_ITEMS"
  shows "pq_push q prio f a = Some (- 1, q)"
proof -
  obtain ls fs where r: "pq_rep q ls fs" and m: "m = map (map (entry q)) ls"
    using assms by (auto simp: pq_abs_def)
  have "fs = []" using assms pq_rep_length [OF r] by (auto simp: m length_concat comp_def)
  then have "free_top q = 0" using r by (simp add: pq_rep_def)
  then show ?thesis by (simp add: pq_push_def)
qed

text \<open>Both ways of taking a task out release its slot; what is left is the queue without it.\<close>

lemma release_abs:
  assumes r: "pq_rep q ls fs" and l: "l < PQ_NUM_PRIORITIES" and ls: "ls ! l = xs @ s # ys"
  obtains q' where "release q (int s) = Some q'" and "pq_gens q q'"
    and "pq_abs q' ((map (map (entry q)) ls)[l := map (entry q) (xs @ ys)])"
proof -
  obtain q' where q': "release q (int s) = Some q'" "pq_rep q' (ls[l := xs @ ys]) (fs @ [s])"
      "slots q' = (slots q)[s := zero_task]" "pq_gens q q'"
    by (rule release_rep [OF r l ls])
  have "s \<notin> set (concat (ls[l := xs @ ys]))"
    using pq_rep_slots(3) [OF q'(2)] by auto
  then have "entry q' x = entry q x" if "x \<in> set (concat (ls[l := xs @ ys]))" for x
    using that q'(3,4) by (cases "x = s") (simp_all add: entry_def pq_gens_def)
  then have "map (map (entry q')) (ls[l := xs @ ys]) = (map (map (entry q)) ls)[l := map (entry q) (xs @ ys)]"
    unfolding map_update [symmetric] by (rule map_concat_cong)
  with q'(2) have "pq_abs q' ((map (map (entry q)) ls)[l := map (entry q) (xs @ ys)])"
    unfolding pq_abs_def by (intro exI conjI) (assumption, rule sym)
  then show thesis by (rule that [OF q'(1,4)])
qed

lemma release_Some:
  assumes "release q s = Some q'"
  shows "\<exists>q1 q2. unlink_slot q s = Some q1 \<and> free_slot q1 s = Some q2 \<and>
           q' = q2\<lparr>pq_size := pq_size q2 - 1\<rparr>"
  using assms by (auto simp: release_def bind_eq_Some_conv)

lemma pop_layer_head_abs:
  assumes q: "pq_abs q m" and l: "l < PQ_NUM_PRIORITIES"
  obtains q' where "pop_layer_head q (int l) = Some (map_option snd (fst (mlq_pop_layer m l)), q')"
    and "pq_abs q' (snd (mlq_pop_layer m l))" and "pq_gens q q'"
proof -
  obtain ls fs where r: "pq_rep q ls fs" and m: "m = map (map (entry q)) ls"
    using q by (auto simp: pq_abs_def)
  have k: "pq_links q ls" and len: "length ls = 4" "length (layer_head q) = 4" "length (slots q) = 128"
    using r by (simp_all add: pq_rep_def pq_links_def)
  have dl: "dls (slot_next q) (slot_prev q) (- 1) (ls ! l) (- 1) (layer_head q ! l) (layer_tail q ! l)"
    using k l by (simp add: pq_links_def)
  show thesis
  proof (cases "ls ! l")
    case Nil
    then have "mlq_pop_layer m l = (None, m)" using l len by (simp add: m mlq_pop_layer_def)
    moreover have "layer_head q ! l < 0" using dl Nil by simp
    ultimately show thesis
      using q l len by (intro that [of q]) (simp_all add: pop_layer_head_def pq_gens_def)
  next
    case (Cons s ys)
    have s: "s < 128" "layer_head q ! l = int s"
      using pq_rep_slot_bound [OF r in_concat_nth, of l] l len dl Cons by simp_all
    obtain q' where q': "release q (int s) = Some q'" "pq_gens q q'"
        "pq_abs q' ((map (map (entry q)) ls)[l := map (entry q) ([] @ ys)])"
      by (rule release_abs [OF r l, of "[]" s ys]) (simp_all add: Cons)
    have "pop_layer_head q (int l) = Some (Some (slots q ! s), q')"
      using q'(1) s l len by (auto simp: pop_layer_head_def dest!: release_Some)
    with q' show thesis
      using Cons l len by (intro that [of q']) (simp_all add: m mlq_pop_layer_def entry_def)
  qed
qed

lemma pq_pop_from_layer_abs:
  assumes q: "pq_abs q m" and l: "l < PQ_NUM_PRIORITIES"
  obtains q' where "pq_pop_from_layer q (int l) = Some (map_option snd (fst (mlq_pop_layer m l)), q')"
    and "pq_abs q' (snd (mlq_pop_layer m l))" and "pq_gens q q'"
proof (cases "m ! l = []")
  case True
  then have "pq_pop_from_layer q (int l) = Some (None, q)" "mlq_pop_layer m l = (None, m)"
    using pq_abs_mask [OF q, of l] l by (simp_all add: pq_pop_from_layer_def mask_test mlq_pop_layer_def)
  with q show thesis by (intro that [of q]) (simp_all add: pq_gens_def)
next
  case False
  then have eq: "pq_pop_from_layer q (int l) = pop_layer_head q (int l)"
    using pq_abs_mask [OF q, of l] l by (simp add: pq_pop_from_layer_def mask_test)
  show thesis
    by (rule pop_layer_head_abs [OF q l]) (rule that [unfolded eq])
qed

lemma pq_pop_abs:
  assumes q: "pq_abs q m"
  obtains q' where "pq_pop q = Some (map_option snd (fst (mlq_pop m)), q')"
    and "pq_abs q' (snd (mlq_pop m))" and "pq_gens q q'"
proof (cases "concat m = []")
  case True
  then have "mlq_pop m = (None, m)" by (intro mlq_pop_empty) auto
  moreover have "pq_pop q = Some (None, q)" using True pq_abs_size [OF q] by (simp add: pq_pop_def)
  ultimately show thesis using q by (intro that [of q]) (simp_all add: pq_gens_def)
next
  case False
  then obtain l where "l < length m" "m ! l \<noteq> []" by (auto simp: in_set_conv_nth)
  then have "nonempty_mask q \<noteq> 0" using pq_abs_mask [OF q, of l] pq_abs_length [OF q] by auto
  then obtain k where k: "ctzll (nonempty_mask q) = int k" "bit (nonempty_mask q) k"
      "\<And>j. j < k \<Longrightarrow> \<not> bit (nonempty_mask q) j"
    by (rule ctzll_least) blast
  have k4: "k < 4" "m ! k \<noteq> []" using k(2) by (simp_all add: pq_abs_mask [OF q])
  have "m ! j = []" if "j < k" for j
    using k(3) [OF that] k4 that by (simp add: pq_abs_mask [OF q])
  then have eq: "mlq_pop m = mlq_pop_layer m k"
    using k4 pq_abs_length [OF q] by (intro mlq_pop_layer_first) auto
  have eq': "pq_pop q = pop_layer_head q (int k)"
    using k(1) False pq_abs_size [OF q] \<open>nonempty_mask q \<noteq> 0\<close> by (auto simp: pq_pop_def)
  show thesis
    by (rule pop_layer_head_abs [OF q k4(1)]) (rule that [unfolded eq eq'])
qed

lemma same_handle_entry:
  "s < PQ_MAX_ITEMS \<Longrightarrow>
   same_handle h (fst (entry q s)) \<longleftrightarrow> PQ_HANDLE_SLOT h = int s \<and> PQ_HANDLE_GEN h = gen q ! s"
  by (simp add: same_handle_def entry_def handle_slot_make handle_gen_make)

lemma handle_valid_rep:
  assumes r: "pq_rep q ls fs"
  shows "handle_valid q h = Some (mlq_valid (map (map (entry q)) ls) h)"
proof -
  obtain s where s: "PQ_HANDLE_SLOT h = int s" using PQ_HANDLE_SLOT_bounds(1) zero_le_imp_eq_int by blast
  have lens: "length (slots q) = 128" "length (gen q) = 128"
    using r by (simp_all add: pq_rep_def pq_links_def)
  have "mlq_valid (map (map (entry q)) ls) h \<longleftrightarrow>
          0 \<le> h \<and> (\<exists>x \<in> set (concat ls). same_handle h (fst (entry q x)) \<and> fn (slots q ! x) \<noteq> NULL)"
    by (auto simp: mlq_valid_def entry_def)
  also have "\<dots> \<longleftrightarrow> 0 \<le> h \<and> s \<in> set (concat ls) \<and> PQ_HANDLE_GEN h = gen q ! s \<and> fn (slots q ! s) \<noteq> NULL"
    using pq_rep_slot_bound [OF r] s by (auto simp: same_handle_entry simp del: set_concat)
  finally have v: "mlq_valid (map (map (entry q)) ls) h \<longleftrightarrow>
      0 \<le> h \<and> s \<in> set (concat ls) \<and> PQ_HANDLE_GEN h = gen q ! s \<and> fn (slots q ! s) \<noteq> NULL" .
  have "s \<in> set (concat ls)" if "s < 128" "fn (slots q ! s) \<noteq> NULL"
  proof (rule ccontr)
    assume "s \<notin> set (concat ls)"
    then have "s \<in> set fs" using that(1) pq_rep_slots(4) [OF r] by blast
    then show False using r that(2) by (simp add: pq_rep_def zero_task_def)
  qed
  moreover have "s < 128" if "s \<in> set (concat ls)" using that by (rule pq_rep_slot_bound [OF r])
  ultimately show ?thesis unfolding v using lens s by (cases "s < 128") (auto simp: handle_valid_def Let_def simp del: set_concat)
qed

lemma handle_valid_abs: "pq_abs q m \<Longrightarrow> handle_valid q h = Some (mlq_valid m h)"
  by (auto simp: pq_abs_def handle_valid_rep)

lemma mlq_valid_slot:
  assumes r: "pq_rep q ls fs" and v: "mlq_valid (map (map (entry q)) ls) h"
  obtains l xs s ys where "l < PQ_NUM_PRIORITIES" and "ls ! l = xs @ s # ys" and "s < PQ_MAX_ITEMS"
    and "PQ_HANDLE_SLOT h = int s" and "PQ_HANDLE_GEN h = gen q ! s"
    and "\<forall>x \<in> set (concat ls). same_handle h (fst (entry q x)) \<longleftrightarrow> x = s"
proof -
  obtain s where s: "s \<in> set (concat ls)" "same_handle h (fst (entry q s))"
    using v by (auto simp: mlq_valid_def)
  have b: "s < 128" using s(1) by (rule pq_rep_slot_bound [OF r])
  have hs: "PQ_HANDLE_SLOT h = int s" "PQ_HANDLE_GEN h = gen q ! s"
    using s(2) b by (simp_all add: same_handle_entry)
  obtain l xs ys where l: "l < length ls" "ls ! l = xs @ s # ys"
    using s(1) by (rule in_concat_split)
  moreover have "length ls = 4" using r by (simp add: pq_rep_def pq_links_def)
  moreover have "same_handle h (fst (entry q x)) \<longleftrightarrow> x = s" if "x \<in> set (concat ls)" for x
    using pq_rep_slot_bound [OF r that] hs by (auto simp: same_handle_entry)
  ultimately show thesis by (intro that [OF _ l(2) b hs]) simp_all
qed

text \<open>Dropping the only slot a predicate holds of.\<close>

lemma filter_concat_update:
  assumes d: "distinct (concat ls)" and l: "l < length ls" and ls: "ls ! l = xs @ s # ys"
    and P: "\<And>x. x \<in> set (concat ls) \<Longrightarrow> P (f x) \<longleftrightarrow> x = s"
  shows "map (filter (\<lambda>e. \<not> P e)) (map (map f) ls) = (map (map f) ls)[l := map f (xs @ ys)]"
proof (rule nth_equalityI)
  fix k
  assume "k < length (map (filter (\<lambda>e. \<not> P e)) (map (map f) ls))"
  then have k: "k < length ls" by simp
  have Pk: "P (f x) \<longleftrightarrow> x = s" if "x \<in> set (ls ! k)" for x
    by (rule P [OF in_concat_nth [OF k that]])
  have "filter (\<lambda>e. \<not> P e) (map f (ls ! k)) = map f (if k = l then xs @ ys else ls ! k)"
  proof (cases "k = l")
    case True
    have "distinct (xs @ s # ys)" using distinct_concat_nth [OF d l] ls by simp
    then have "\<And>x. x \<in> set (xs @ ys) \<Longrightarrow> \<not> P (f x)" "P (f s)" using Pk True ls by auto
    then show ?thesis using True ls by (auto simp: filter_map filter_id_conv)
  next
    case False
    have "s \<in> set (ls ! l)" using ls by simp
    then have "s \<notin> set (ls ! k)"
      using distinct_concat_disjoint [OF d l k] False by blast
    then have "\<And>x. x \<in> set (ls ! k) \<Longrightarrow> \<not> P (f x)" using Pk by metis
    then show ?thesis using False by (simp add: filter_id_conv)
  qed
  then show "map (filter (\<lambda>e. \<not> P e)) (map (map f) ls) ! k = (map (map f) ls)[l := map f (xs @ ys)] ! k"
    using k by (simp add: nth_list_update)
qed simp

lemma mlq_remove_update:
  assumes r: "pq_rep q ls fs" and l: "l < PQ_NUM_PRIORITIES" "ls ! l = xs @ s # ys"
    and s: "\<forall>x \<in> set (concat ls). same_handle h (fst (entry q x)) \<longleftrightarrow> x = s"
  shows "mlq_remove (map (map (entry q)) ls) h = (map (map (entry q)) ls)[l := map (entry q) (xs @ ys)]"
proof -
  have len: "length ls = 4" using r by (simp add: pq_rep_def pq_links_def)
  show ?thesis unfolding mlq_remove_def
    by (rule filter_concat_update [OF pq_rep_slots(1) [OF r]]) (use l len s in auto)
qed

text \<open>A handle that names a task names no other.\<close>

lemma mlq_remove_length:
  assumes q: "pq_abs q m" and v: "mlq_valid m h"
  shows "length (concat (mlq_remove m h)) + 1 = length (concat m)"
proof -
  obtain ls fs where r: "pq_rep q ls fs" and m: "m = map (map (entry q)) ls" using q by (auto simp: pq_abs_def)
  obtain l xs s ys where l: "l < 4" "ls ! l = xs @ s # ys"
      "\<forall>x \<in> set (concat ls). same_handle h (fst (entry q x)) \<longleftrightarrow> x = s"
    by (rule mlq_valid_slot [OF r v [unfolded m]])
  have len: "length ls = 4" using r by (simp add: pq_rep_def pq_links_def)
  have "length (ls ! l) \<le> sum_list (map length ls)" using l(1) len by (intro member_le_sum_list) auto
  then show ?thesis
    unfolding m mlq_remove_update [OF r l] using l(1,2) len
    by (simp add: length_concat map_update sum_list_update comp_def)
qed

lemma pq_remove_abs:
  assumes q: "pq_abs q m"
  obtains q' where "pq_remove q h = Some (if mlq_valid m h then 0 else - 1, q')"
    and "pq_abs q' (if mlq_valid m h then mlq_remove m h else m)" and "pq_gens q q'"
proof (cases "mlq_valid m h")
  case False
  then have "pq_remove q h = Some (- 1, q)" using handle_valid_abs [OF q] by (simp add: pq_remove_def)
  with False q show thesis by (intro that [of q]) (simp_all add: pq_gens_def)
next
  case True
  obtain ls fs where r: "pq_rep q ls fs" and m: "m = map (map (entry q)) ls"
    using q by (auto simp: pq_abs_def)
  obtain l xs s ys where l: "l < 4" "ls ! l = xs @ s # ys" "s < 128" and s: "PQ_HANDLE_SLOT h = int s"
      "PQ_HANDLE_GEN h = gen q ! s"
      "\<forall>x \<in> set (concat ls). same_handle h (fst (entry q x)) \<longleftrightarrow> x = s"
    by (rule mlq_valid_slot [OF r True [unfolded m]])
  have len: "length ls = 4" using r by (simp add: pq_rep_def pq_links_def)
  obtain q' where q': "release q (int s) = Some q'" "pq_gens q q'"
      "pq_abs q' ((map (map (entry q)) ls)[l := map (entry q) (xs @ ys)])"
    by (rule release_abs [OF r l(1,2)])
  have "mlq_remove m h = (map (map (entry q)) ls)[l := map (entry q) (xs @ ys)]"
    unfolding m by (rule mlq_remove_update [OF r l(1,2) s(3)])
  moreover have "pq_remove q h = Some (0, q')"
    using q'(1) True s(1) handle_valid_abs [OF q] by (auto simp: pq_remove_def dest!: release_Some)
  ultimately show thesis using q' True by (intro that [of q']) simp_all
qed

lemma find_unique:
  assumes "x \<in> set xs" and "P x" and "\<And>y. y \<in> set xs \<Longrightarrow> P y \<Longrightarrow> y = x"
  shows "find P xs = Some x"
proof (cases "find P xs")
  case None
  with assms(1,2) show ?thesis by (auto simp: find_None_iff)
next
  case (Some y)
  then have "y \<in> set xs" "P y" by (auto simp: find_Some_iff)
  with assms(3) Some show ?thesis by blast
qed

lemma pq_abs_priority:
  "pq_abs q m \<Longrightarrow> l < PQ_NUM_PRIORITIES \<Longrightarrow> e \<in> set (m ! l) \<Longrightarrow> priority (snd e) = int l"
  by (auto simp: pq_abs_def pq_rep_def pq_links_def entry_def)

lemma pq_update_move:
  assumes r: "pq_rep q ls fs" and l: "l < PQ_NUM_PRIORITIES" "ls ! l = xs @ s # ys" "s < PQ_MAX_ITEMS"
    and k: "k < PQ_NUM_PRIORITIES" "k \<noteq> l"
  obtains q1 q' where "unlink_slot q (int s) = Some q1" and "append_to_layer q1 (int s) (int k) = Some q'"
    and "pq_abs q' (mlq_push ((map (map (entry q)) ls)[l := map (entry q) (xs @ ys)]) k
                     (fst (entry q s), (slots q ! s)\<lparr>priority := int k\<rparr>))"
    and "pq_gens q q'"
proof -
  let ?e = "(fst (entry q s), (slots q ! s)\<lparr>priority := int k\<rparr>)"
  let ?ls = "ls[l := xs @ ys]"
  have lens: "length ls = 4" "length (slots q) = 128" using r by (simp_all add: pq_rep_def pq_links_def)
  obtain q1 q' where q': "unlink_slot q (int s) = Some q1" "append_to_layer q1 (int s) (int k) = Some q'"
      "pq_rep q' (?ls[k := ls ! k @ [s]]) fs"
      "slots q' = (slots q)[s := (slots q ! s)\<lparr>priority := int k\<rparr>]" "pq_gens q q'"
    by (rule pq_update_links [OF r l(1,2) k])
  have s: "entry q' s = ?e" using q'(4,5) l lens by (simp add: entry_def pq_gens_def)
  have "distinct (s # concat ?ls)"
    by (rule distinct_concat_delete [OF pq_rep_slots(1) [OF r] _ l(2)]) (use l lens in simp)
  then have "entry q' x = entry q x" if "x \<in> set (concat ?ls)" for x
    using that q'(4,5) by (cases "x = s") (simp_all add: entry_def pq_gens_def)
  then have eq: "map (map (entry q')) ?ls = (map (map (entry q)) ls)[l := map (entry q) (xs @ ys)]" (is "_ = ?m")
    unfolding map_update [symmetric] by (rule map_concat_cong)
  have "?ls ! k = ls ! k" using k by simp
  then have "map (entry q') (ls ! k) = ?m ! k"
    unfolding eq [symmetric] using k lens by simp
  then have "map (map (entry q')) (?ls[k := ls ! k @ [s]]) = mlq_push ?m k ?e"
    unfolding mlq_push_def map_update [of _ ?ls] eq by (simp add: s)
  with q'(3) have "pq_abs q' (mlq_push ?m k ?e)"
    unfolding pq_abs_def by (intro exI conjI) (assumption, rule sym)
  then show thesis by (rule that [OF q'(1,2) _ q'(5)])
qed

lemma mlq_find_entry:
  assumes "\<forall>x \<in> set (concat ls). same_handle h (fst (entry q x)) \<longleftrightarrow> x = s" and "s \<in> set (concat ls)"
  shows "mlq_find (map (map (entry q)) ls) h = Some (entry q s)"
proof -
  have "find (\<lambda>e. same_handle h (fst e)) (map (entry q) (concat ls)) = Some (entry q s)"
    by (rule find_unique) (use assms in auto)
  then show ?thesis by (simp add: mlq_find_def map_concat)
qed

lemma pq_update_abs:
  assumes q: "pq_abs q m" and k: "k < PQ_NUM_PRIORITIES"
  obtains q' where "pq_update q h (int k) = Some (if mlq_valid m h then 0 else - 1, q')"
    and "pq_abs q' (if mlq_valid m h then mlq_update m h k else m)" and "pq_gens q q'"
proof (cases "mlq_valid m h")
  case False
  then have "pq_update q h (int k) = Some (- 1, q)"
    using handle_valid_abs [OF q] k by (simp add: pq_update_def)
  with False q show thesis by (intro that [of q]) (simp_all add: pq_gens_def)
next
  case True
  obtain ls fs where r: "pq_rep q ls fs" and m: "m = map (map (entry q)) ls"
    using q by (auto simp: pq_abs_def)
  obtain l xs s ys where l: "l < 4" "ls ! l = xs @ s # ys" "s < 128" and s: "PQ_HANDLE_SLOT h = int s"
      "PQ_HANDLE_GEN h = gen q ! s"
      "\<forall>x \<in> set (concat ls). same_handle h (fst (entry q x)) \<longleftrightarrow> x = s"
    by (rule mlq_valid_slot [OF r True [unfolded m]])
  have lens: "length ls = 4" "length (slots q) = 128" using r by (simp_all add: pq_rep_def pq_links_def)
  have p: "priority (slots q ! s) = int l" using r l by (simp add: pq_rep_def pq_links_def)
  have f: "mlq_find m h = Some (entry q s)" unfolding m
    by (rule mlq_find_entry [OF s(3) in_concat_nth, of l]) (use l lens in simp_all)
  show thesis
  proof (cases "k = l")
    case True': True
    then have "pq_update q h (int k) = Some (0, q)"
      using True handle_valid_abs [OF q] k s(1) l lens p by (simp add: pq_update_def)
    moreover have "mlq_update m h k = m" using True' p by (simp add: mlq_update_def f entry_def)
    ultimately show thesis using q True by (intro that [of q]) (simp_all add: pq_gens_def)
  next
    case False
    obtain q1 q' where q': "unlink_slot q (int s) = Some q1" "append_to_layer q1 (int s) (int k) = Some q'"
      "pq_abs q' (mlq_push ((map (map (entry q)) ls)[l := map (entry q) (xs @ ys)]) k
                     (fst (entry q s), (slots q ! s)\<lparr>priority := int k\<rparr>))" "pq_gens q q'"
      by (rule pq_update_move [OF r l k False])
    have "pq_update q h (int k) = Some (0, q')"
      using True q'(1,2) handle_valid_abs [OF q] k s(1) l lens p False by (simp add: pq_update_def)
    moreover have "mlq_remove m h = (map (map (entry q)) ls)[l := map (entry q) (xs @ ys)]"
      unfolding m mlq_remove_def
      by (rule filter_concat_update [OF pq_rep_slots(1) [OF r]]) (use l lens s(3) in auto)
    ultimately show thesis
      using q'(3,4) True False p by (intro that [of q']) (simp_all add: mlq_update_def f entry_def)
  qed
qed

lemma pq_set_quantum_abs:
  assumes q: "pq_abs q m"
  obtains q' where "pq_set_quantum q h n = Some q'"
    and "pq_abs q' (if mlq_valid m h then mlq_set_quantum m h n else m)" and "pq_gens q q'"
proof (cases "mlq_valid m h")
  case False
  then have "pq_set_quantum q h n = Some q" using handle_valid_abs [OF q] by (simp add: pq_set_quantum_def)
  with False q show thesis by (intro that [of q]) (simp_all add: pq_gens_def)
next
  case True
  obtain ls fs where r: "pq_rep q ls fs" and m: "m = map (map (entry q)) ls"
    using q by (auto simp: pq_abs_def)
  obtain l xs s ys where l: "l < 4" "ls ! l = xs @ s # ys" "s < 128" and s: "PQ_HANDLE_SLOT h = int s"
      "PQ_HANDLE_GEN h = gen q ! s"
      "\<forall>x \<in> set (concat ls). same_handle h (fst (entry q x)) \<longleftrightarrow> x = s"
    by (rule mlq_valid_slot [OF r True [unfolded m]])
  let ?q = "q\<lparr>slots := (slots q)[s := (slots q ! s)\<lparr>quantum := n\<rparr>]\<rparr>"
  have lens: "length (slots q) = 128" "length ls = 4" using r by (simp_all add: pq_rep_def pq_links_def)
  have "s \<in> set (concat ls)" using l lens by (intro in_concat_nth [of l]) simp_all
  then have nf: "s \<notin> set fs" using pq_rep_slots(3) [OF r] by blast
  have "pq_links ?q ls" using r lens l by (auto simp: pq_rep_def pq_links_def nth_list_update)
  then have "pq_rep ?q ls fs" using r nf by (simp add: pq_rep_def) (metis nth_list_update_neq)
  moreover have "entry ?q x = (case entry q x of (h', t) \<Rightarrow> (h', if same_handle h h' then t\<lparr>quantum := n\<rparr> else t))"
    if "x \<in> set (concat ls)" for x
    using s(3) that l lens by (cases "x = s") (auto simp: entry_def)
  then have "map (map (entry ?q)) ls
      = map (map (\<lambda>x. case entry q x of (h', t) \<Rightarrow> (h', if same_handle h h' then t\<lparr>quantum := n\<rparr> else t))) ls"
    by (rule map_concat_cong)
  then have "mlq_set_quantum m h n = map (map (entry ?q)) ls"
    by (simp add: m mlq_set_quantum_def comp_def)
  ultimately have "pq_abs ?q (mlq_set_quantum m h n)" by (auto simp: pq_abs_def)
  moreover have "pq_set_quantum q h n = Some ?q"
    using True handle_valid_abs [OF q] s l lens by (simp add: pq_set_quantum_def)
  ultimately show thesis using True by (intro that [of ?q]) (simp_all add: pq_gens_def)
qed

lemma pq_has_layer_abs:
  assumes "pq_abs q m"
  shows "pq_has_layer q l \<longleftrightarrow> 0 \<le> l \<and> l < int PQ_NUM_PRIORITIES \<and> m ! nat l \<noteq> []"
  using pq_abs_mask [OF assms, of "nat l"]
  by (cases "0 \<le> l \<and> l < 4") (auto simp: pq_has_layer_def mask_test)

lemma pq_is_empty_abs: "pq_abs q m \<Longrightarrow> pq_is_empty q \<longleftrightarrow> concat m = []"
  using pq_abs_size by (auto simp: pq_is_empty_def)

lemma count_links_dls:
  "dls nx pv p xs (- 1) h t \<Longrightarrow> \<forall>x \<in> set xs. x < length nx \<Longrightarrow>
   count_links nx h n = Some (n + int (length xs))"
proof (induction xs arbitrary: p h n)
  case Nil
  then show ?case by (simp add: count_links.simps)
next
  case (Cons x xs)
  then have "count_links nx (nx ! x) (n + 1) = Some ((n + 1) + int (length xs))"
    by (intro Cons.IH [of "int x"]) simp_all
  with Cons.prems show ?case by (subst count_links.simps) simp
qed

lemma pq_count_layer_abs:
  assumes q: "pq_abs q m" and l: "l < PQ_NUM_PRIORITIES"
  shows "pq_count_layer q (int l) = Some (int (length (m ! l)))"
proof -
  obtain ls fs where r: "pq_rep q ls fs" and m: "m = map (map (entry q)) ls"
    using q by (auto simp: pq_abs_def)
  have len: "length ls = 4" "length (layer_head q) = 4" "length (slot_next q) = 128"
    and dl: "dls (slot_next q) (slot_prev q) (- 1) (ls ! l) (- 1) (layer_head q ! l) (layer_tail q ! l)"
    using r l by (simp_all add: pq_rep_def pq_links_def)
  have "\<forall>x \<in> set (ls ! l). x < length (slot_next q)"
    using pq_rep_slot_bound [OF r in_concat_nth, of l] l len by simp
  then show ?thesis using count_links_dls [OF dl] l len m by (simp add: pq_count_layer_def)
qed

section \<open>The interface of the clients\<close>

text \<open>Popping until the queue is empty, and one round of popping from each layer in turn.\<close>

fun drain :: "('q \<Rightarrow> ('t option \<times> 'q) option) \<Rightarrow> nat \<Rightarrow> 'q \<Rightarrow> 't list option" where
  "drain pop 0 q = Some []"
| "drain pop (Suc n) q = do {
     (r, q') \<leftarrow> pop q;
     case r of None \<Rightarrow> Some [] | Some t \<Rightarrow> map_option ((#) t) (drain pop n q')
   }"

fun scan_layers ::
  "('q \<Rightarrow> int \<Rightarrow> ('t option \<times> 'q) option) \<Rightarrow> nat list \<Rightarrow> 'q \<Rightarrow> ('t list \<times> 'q) option" where
  "scan_layers pop_layer [] q = Some ([], q)"
| "scan_layers pop_layer (l # ls) q = do {
     (r, q') \<leftarrow> pop_layer q (int l);
     (ts, q'') \<leftarrow> scan_layers pop_layer ls q';
     Some ((case r of None \<Rightarrow> ts | Some t \<Rightarrow> t # ts), q'')
   }"

locale multi_level_queue =
  fixes repr :: "'q \<Rightarrow> ('h \<times> 't) list list \<Rightarrow> bool"
    and layers :: nat
    and pop :: "'q \<Rightarrow> ('t option \<times> 'q) option"
    and pop_layer :: "'q \<Rightarrow> int \<Rightarrow> ('t option \<times> 'q) option"
    and empty :: "'q \<Rightarrow> bool"
  assumes repr_layers: "repr q m \<Longrightarrow> length m = layers"
    and repr_pop: "repr q m \<Longrightarrow>
      \<exists>q'. pop q = Some (map_option snd (fst (mlq_pop m)), q') \<and> repr q' (snd (mlq_pop m))"
    and repr_pop_layer: "repr q m \<Longrightarrow> l < layers \<Longrightarrow>
      \<exists>q'. pop_layer q (int l) = Some (map_option snd (fst (mlq_pop_layer m l)), q') \<and>
           repr q' (snd (mlq_pop_layer m l))"
    and repr_empty: "repr q m \<Longrightarrow> empty q \<longleftrightarrow> concat m = []"
begin

lemma drain_all: "repr q m \<Longrightarrow> length (concat m) \<le> n \<Longrightarrow> drain pop n q = Some (map snd (concat m))"
proof (induction n arbitrary: q m)
  case (Suc n)
  obtain q' where q': "pop q = Some (map_option snd (fst (mlq_pop m)), q')" "repr q' (snd (mlq_pop m))"
    using repr_pop [OF Suc.prems(1)] by blast
  show ?case
  proof (cases "concat m")
    case Nil
    then have "fst (mlq_pop m) = None" by (simp add: mlq_pop_fst del: concat_eq_Nil_conv)
    then show ?thesis using q' Nil by simp
  next
    case (Cons x xs)
    then have *: "fst (mlq_pop m) = Some x" "concat (snd (mlq_pop m)) = xs"
      by (simp_all add: mlq_pop_fst mlq_pop_snd del: concat_eq_Nil_conv)
    then have "drain pop n q' = Some (map snd xs)"
      using Suc.IH [OF q'(2)] Suc.prems(2) Cons by simp
    then show ?thesis using q' * Cons by simp
  qed
qed simp

lemma scan_round:
  assumes "repr q m" and "k \<le> layers"
  shows "\<exists>q'. scan_layers pop_layer [k..<layers] q
           = Some (map (snd \<circ> hd) (filter (\<lambda>xs. xs \<noteq> []) (drop k m)), q') \<and>
         repr q' (take k m @ map tl (drop k m))"
  using assms(2,1)
proof (induction k arbitrary: q m rule: inc_induct)
  case base
  then show ?case by (simp add: repr_layers)
next
  case (step k)
  let ?m = "snd (mlq_pop_layer m k)"
  have len: "length m = layers" using step.prems by (rule repr_layers)
  have m: "?m = m[k := tl (m ! k)]"
    using list_update_id [of m k] by (cases "m ! k") (simp_all add: mlq_pop_layer_def)
  obtain q1 where q1: "pop_layer q (int k) = Some (map_option snd (fst (mlq_pop_layer m k)), q1)" "repr q1 ?m"
    using repr_pop_layer [OF step.prems step.hyps(2)] by blast
  obtain q' where q': "scan_layers pop_layer [Suc k..<layers] q1
       = Some (map (snd \<circ> hd) (filter (\<lambda>xs. xs \<noteq> []) (drop (Suc k) ?m)), q')"
      "repr q' (take (Suc k) ?m @ map tl (drop (Suc k) ?m))"
    using step.IH [OF q1(2)] by blast
  have d: "drop k m = m ! k # drop (Suc k) m" using step.hyps(2) len by (simp add: Cons_nth_drop_Suc)
  have u: "[k..<layers] = k # [Suc k..<layers]" using step.hyps(2) by (rule upt_conv_Cons)
  have "take (Suc k) ?m @ map tl (drop (Suc k) ?m) = take k m @ map tl (drop k m)"
    using step.hyps(2) len by (simp add: m d take_Suc_conv_app_nth)
  then show ?case
    using q1(1) q' by (cases "m ! k") (simp_all add: u d m mlq_pop_layer_def)
qed

end

interpretation mlq: multi_level_queue pq_abs PQ_NUM_PRIORITIES pq_pop pq_pop_from_layer pq_is_empty
proof unfold_locales
  fix q m l
  assume q: "pq_abs q m"
  show "length m = PQ_NUM_PRIORITIES" using q by (rule pq_abs_length)
  show "\<exists>q'. pq_pop q = Some (map_option snd (fst (mlq_pop m)), q') \<and> pq_abs q' (snd (mlq_pop m))"
    using pq_pop_abs [OF q] by blast
  show "pq_is_empty q \<longleftrightarrow> concat m = []" using q by (rule pq_is_empty_abs)
  assume l: "l < PQ_NUM_PRIORITIES"
  show "\<exists>q'. pq_pop_from_layer q (int l) = Some (map_option snd (fst (mlq_pop_layer m l)), q') \<and>
             pq_abs q' (snd (mlq_pop_layer m l))"
    using pq_pop_from_layer_abs [OF q l] by blast
qed

end
