(* ===== verification/Sched_Calls.thy ===== *)
theory Sched_Calls
  imports Sched_MLQ
begin

text \<open>
  Arbitrary sequences of calls on one priority queue, and the properties of
  \<open>kernel/core/sched/priority_queue.c\<close> that hold for all of them: memory safety for any
  arguments, the refinement of every call, the order tasks come out in, and how long a
  handle stays unusable after its task has left the queue.
\<close>

section \<open>Calls\<close>

datatype pq_call =
    Push int ptr ptr
  | Pop
  | Pop_layer int
  | Update int int
  | Remove int
  | Set_quantum int u32

primrec pq_step :: "pq_call \<Rightarrow> priority_queue \<Rightarrow> priority_queue option" where
  "pq_step (Push prio f a) q = map_option snd (pq_push q prio f a)"
| "pq_step Pop q = map_option snd (pq_pop q)"
| "pq_step (Pop_layer l) q = map_option snd (pq_pop_from_layer q l)"
| "pq_step (Update h p) q = map_option snd (pq_update q h p)"
| "pq_step (Remove h) q = map_option snd (pq_remove q h)"
| "pq_step (Set_quantum h n) q = pq_set_quantum q h n"

fun pq_run :: "pq_call list \<Rightarrow> priority_queue \<Rightarrow> priority_queue option" where
  "pq_run [] q = Some q"
| "pq_run (c # cs) q = do { q' \<leftarrow> pq_step c q; pq_run cs q' }"

text \<open>The abstract counterpart; a push adds the handle and task it is given.\<close>

primrec mlq_step :: "pq_call \<Rightarrow> u32 \<Rightarrow> int \<Rightarrow> (int \<times> pq_task) list list \<Rightarrow> (int \<times> pq_task) list list" where
  "mlq_step (Push prio f a) sq h m =
     (if 0 \<le> prio \<and> prio < int PQ_NUM_PRIORITIES \<and> length (concat m) < PQ_MAX_ITEMS
      then mlq_push m (nat prio) (h, \<lparr>fn = f, arg = a, priority = prio, seq = sq, quantum = 0, runtime = 0\<rparr>)
      else m)"
| "mlq_step Pop sq h m = snd (mlq_pop m)"
| "mlq_step (Pop_layer l) sq h m =
     (if 0 \<le> l \<and> l < int PQ_NUM_PRIORITIES then snd (mlq_pop_layer m (nat l)) else m)"
| "mlq_step (Update h' p) sq h m =
     (if 0 \<le> p \<and> p < int PQ_NUM_PRIORITIES \<and> mlq_valid m h' then mlq_update m h' (nat p) else m)"
| "mlq_step (Remove h') sq h m = (if mlq_valid m h' then mlq_remove m h' else m)"
| "mlq_step (Set_quantum h' n) sq h m = (if mlq_valid m h' then mlq_set_quantum m h' n else m)"

fun is_push :: "pq_call \<Rightarrow> bool" where
  "is_push (Push prio f a) = True"
| "is_push c = False"

definition push_count :: "pq_call list \<Rightarrow> nat" where
  "push_count cs = length (filter is_push cs)"

section \<open>Every call refines its abstract step\<close>

text \<open>The generation a call leaves behind: a push may use up one, nothing else does.\<close>

lemma pq_push_cases:
  assumes q: "pq_abs q m"
  obtains h q' where "pq_push q prio f a = Some (h, q')" and "pq_abs q' (mlq_step (Push prio f a) (next_seq q) h m)"
    and "if 0 \<le> prio \<and> prio < int PQ_NUM_PRIORITIES \<and> length (concat m) < PQ_MAX_ITEMS
         then PQ_HANDLE_GEN h = next_gen q \<and> (0 \<le> h \<longleftrightarrow> uint (next_gen q) < 0x8000) \<and>
              next_gen q' = next_gen q + 1 \<and> next_seq q' = next_seq q + 1
         else h = - 1 \<and> q' = q"
proof (cases "0 \<le> prio \<and> prio < int PQ_NUM_PRIORITIES \<and> length (concat m) < PQ_MAX_ITEMS")
  case True
  then obtain l where l: "prio = int l" "l < 4" using zero_le_imp_eq_int by fastforce
  obtain h q' where q': "pq_push q (int l) f a = Some (h, q')"
      "pq_abs q' (mlq_push m l (h, \<lparr>fn = f, arg = a, priority = int l, seq = next_seq q,
                                     quantum = 0, runtime = 0\<rparr>))"
      "PQ_HANDLE_GEN h = next_gen q" "0 \<le> h \<longleftrightarrow> uint (next_gen q) < 0x8000"
      "next_gen q' = next_gen q + 1" "next_seq q' = next_seq q + 1"
    by (rule pq_push_abs [OF q l(2)]) (use True in simp)
  with True l show thesis by (intro that [of h q']) simp_all
next
  case False
  have "pq_push q prio f a = Some (- 1, q)"
  proof (cases "length (concat m) < PQ_MAX_ITEMS")
    case True
    with False show ?thesis by (intro pq_push_full) auto
  next
    case False
    with pq_abs_bound [OF q] show ?thesis by (intro pq_push_overflow [OF q]) simp
  qed
  then show thesis using False q by (intro that [of "- 1" q]) auto
qed

definition gen_step :: "pq_call \<Rightarrow> priority_queue \<Rightarrow> priority_queue \<Rightarrow> bool" where
  "gen_step c q q' \<longleftrightarrow>
     next_gen q' = next_gen q \<and> next_seq q' = next_seq q \<or>
     is_push c \<and> next_gen q' = next_gen q + 1 \<and> next_seq q' = next_seq q + 1"

lemma pq_step_abs:
  assumes q: "pq_abs q m"
  shows "\<exists>q' h. pq_step c q = Some q' \<and> pq_abs q' (mlq_step c (next_seq q) h m) \<and> gen_step c q q' \<and>
           (is_push c \<longrightarrow> mlq_step c (next_seq q) h m = m \<or> PQ_HANDLE_GEN h = next_gen q)"
proof (cases c)
  case (Push prio f a)
  show ?thesis
    by (rule pq_push_cases [OF q, of prio f a]) (auto simp: Push gen_step_def split: if_splits)
next
  case Pop
  show ?thesis by (rule pq_pop_abs [OF q]) (auto simp: Pop gen_step_def pq_gens_def)
next
  case (Pop_layer l)
  show ?thesis
  proof (cases "0 \<le> l \<and> l < int PQ_NUM_PRIORITIES")
    case True
    then obtain k where k: "l = int k" "k < 4" using zero_le_imp_eq_int by fastforce
    show ?thesis by (rule pq_pop_from_layer_abs [OF q k(2)]) (auto simp: Pop_layer k gen_step_def pq_gens_def)
  next
    case False
    with q show ?thesis by (auto simp: Pop_layer pq_pop_from_layer_def gen_step_def)
  qed
next
  case (Update h p)
  show ?thesis
  proof (cases "0 \<le> p \<and> p < int PQ_NUM_PRIORITIES")
    case True
    then obtain k where k: "p = int k" "k < 4" using zero_le_imp_eq_int by fastforce
    show ?thesis
      by (rule pq_update_abs [OF q k(2), of h]) (auto simp: Update k gen_step_def pq_gens_def split: if_splits)
  next
    case False
    with q show ?thesis by (auto simp: Update pq_update_def gen_step_def)
  qed
next
  case (Remove h)
  show ?thesis
    by (rule pq_remove_abs [OF q, of h]) (auto simp: Remove gen_step_def pq_gens_def split: if_splits)
next
  case (Set_quantum h n)
  show ?thesis
    by (rule pq_set_quantum_abs [OF q, of h n]) (auto simp: Set_quantum gen_step_def pq_gens_def split: if_splits)
qed

lemma pq_run_abs: "pq_abs q m \<Longrightarrow> \<exists>q' m'. pq_run cs q = Some q' \<and> pq_abs q' m'"
proof (induction cs arbitrary: q m)
  case (Cons c cs)
  then show ?case using pq_step_abs [OF Cons.prems, of c] by fastforce
qed auto

section \<open>Handles of tasks that left the queue\<close>

lemma mlq_valid_mono:
  assumes "mlq_valid m' h"
    and "\<And>e. e \<in> set (concat m') \<Longrightarrow> same_handle h (fst e) \<Longrightarrow>
           \<exists>e' \<in> set (concat m). fst e' = fst e \<and> fn (snd e') = fn (snd e)"
  shows "mlq_valid m h"
  using assms unfolding mlq_valid_def by metis

lemma set_concat_update_subset:
  "set xs \<subseteq> set (m ! l) \<Longrightarrow> set (concat (m[l := xs])) \<subseteq> set (concat m)"
proof (cases "l < length m")
  case True
  assume "set xs \<subseteq> set (m ! l)"
  then show ?thesis using set_update_subset_insert [of m l xs] nth_mem [OF True] by fastforce
qed (simp add: list_update_beyond)

lemma mlq_pop_layer_subset: "set (concat (snd (mlq_pop_layer m l))) \<subseteq> set (concat m)"
proof (cases "m ! l")
  case (Cons x xs)
  then have "set (concat (m[l := xs])) \<subseteq> set (concat m)" by (intro set_concat_update_subset) auto
  with Cons show ?thesis by (simp add: mlq_pop_layer_def)
qed (simp add: mlq_pop_layer_def)

lemma mlq_pop_subset: "set (concat (snd (mlq_pop m))) \<subseteq> set (concat m)"
  unfolding mlq_pop_snd by (cases "concat m") (simp_all del: set_concat concat_eq_Nil_conv, blast)

lemma mlq_remove_subset: "set (concat (mlq_remove m h)) \<subseteq> set (concat m)"
  by (auto simp: mlq_remove_def)

lemma set_concat_mlq_push: "set (concat (mlq_push m l e)) \<subseteq> insert e (set (concat m))"
proof (cases "l < length m")
  case True
  then have "mset (concat (mlq_push m l e)) = add_mset e (mset (concat m))"
    unfolding mlq_push_def by (intro mset_concat_insert) auto
  then have "set_mset (mset (concat (mlq_push m l e))) = set_mset (add_mset e (mset (concat m)))" by simp
  then show ?thesis by simp
qed (auto simp: mlq_push_def list_update_beyond)

lemma mlq_set_quantum_entry:
  assumes "e \<in> set (concat (mlq_set_quantum m h n))"
  shows "\<exists>e' \<in> set (concat m). fst e' = fst e \<and> fn (snd e') = fn (snd e)"
proof -
  obtain e' where "e' \<in> set (concat m)"
      "e = (case e' of (h', t) \<Rightarrow> (h', if same_handle h h' then t\<lparr>quantum := n\<rparr> else t))"
    using assms by (auto simp: mlq_set_quantum_def map_concat [symmetric] simp del: set_concat)
  then show ?thesis by (intro bexI [of _ e']) (auto split: prod.splits)
qed

lemma mlq_step_valid:
  assumes v: "mlq_valid (mlq_step c sq h' m) h" and n: "is_push c \<longrightarrow> PQ_HANDLE_GEN h' \<noteq> PQ_HANDLE_GEN h"
  shows "mlq_valid m h"
proof (rule mlq_valid_mono [OF v])
  fix e
  assume e: "e \<in> set (concat (mlq_step c sq h' m))" and sh: "same_handle h (fst e)"
  show "\<exists>e' \<in> set (concat m). fst e' = fst e \<and> fn (snd e') = fn (snd e)"
  proof (cases c)
    case (Push prio f a)
    then have "PQ_HANDLE_GEN h \<noteq> PQ_HANDLE_GEN h'" using n by auto
    then have "fst e \<noteq> h'" using sh by (auto simp: same_handle_def)
    then have "e \<in> set (concat m)"
      using e set_concat_mlq_push [of m "nat prio"]
      by (fastforce simp: Push simp del: set_concat split: if_splits)
    then show ?thesis by blast
  next
    case Pop
    then show ?thesis using e mlq_pop_subset [of m] by (auto simp del: set_concat)
  next
    case (Pop_layer l)
    then show ?thesis
      using e mlq_pop_layer_subset [of m "nat l"] by (auto simp del: set_concat split: if_splits)
  next
    case (Update h'' p)
    show ?thesis
    proof (cases "e \<in> set (concat m)")
      case False
      then obtain t where t: "mlq_find m h'' = Some (fst e, t)" "snd e = t\<lparr>priority := int (nat p)\<rparr>"
        using e set_concat_mlq_push [of "mlq_remove m h''" "nat p"] mlq_remove_subset [of m h'']
        by (fastforce simp: Update mlq_update_def simp del: set_concat split: if_splits option.splits)
      then have "(fst e, t) \<in> set (concat m)"
        by (auto simp: mlq_find_def find_Some_iff in_set_conv_nth simp del: set_concat)
      with t(2) show ?thesis by (intro bexI [of _ "(fst e, t)"]) simp_all
    qed blast
  next
    case (Remove h'')
    then show ?thesis using e mlq_remove_subset [of m h''] by (auto simp del: set_concat split: if_splits)
  next
    case (Set_quantum h'' k)
    then show ?thesis using e mlq_set_quantum_entry [of e m h'' k] by (auto simp del: set_concat split: if_splits)
  qed
qed

lemma stale_step:
  assumes q: "pq_abs q m" and v: "\<not> mlq_valid m h" and n: "is_push c \<longrightarrow> PQ_HANDLE_GEN h \<noteq> next_gen q"
  obtains q' m' where "pq_step c q = Some q'" and "pq_abs q' m'" and "\<not> mlq_valid m' h" and "gen_step c q q'"
proof -
  obtain q' h' where q': "pq_step c q = Some q'" "pq_abs q' (mlq_step c (next_seq q) h' m)" "gen_step c q q'"
      "is_push c \<longrightarrow> mlq_step c (next_seq q) h' m = m \<or> PQ_HANDLE_GEN h' = next_gen q"
    using pq_step_abs [OF q, of c] by blast
  moreover have "\<not> mlq_valid (mlq_step c (next_seq q) h' m) h"
    using v n q'(4) mlq_step_valid [of c "next_seq q" h' m h] by fastforce
  ultimately show thesis by (intro that) auto
qed

lemma stale_run:
  assumes "pq_abs q m" and "\<not> mlq_valid m h" and "push_count cs \<le> unat (PQ_HANDLE_GEN h - next_gen q)"
  shows "\<exists>q' m'. pq_run cs q = Some q' \<and> pq_abs q' m' \<and> \<not> mlq_valid m' h"
  using assms
proof (induction cs arbitrary: q m)
  case (Cons c cs)
  let ?d = "PQ_HANDLE_GEN h - next_gen q"
  have pc: "push_count (c # cs) = (if is_push c then Suc (push_count cs) else push_count cs)"
    by (simp add: push_count_def)
  have nz: "is_push c \<longrightarrow> ?d \<noteq> 0" using Cons.prems(3) pc by auto
  obtain q' m' where q': "pq_step c q = Some q'" "pq_abs q' m'" "\<not> mlq_valid m' h" "gen_step c q q'"
    by (rule stale_step [OF Cons.prems(1,2), of c]) (use nz in auto)
  have "push_count cs \<le> unat (PQ_HANDLE_GEN h - next_gen q')"
  proof (cases "next_gen q' = next_gen q")
    case True
    then show ?thesis using Cons.prems(3) pc by (auto split: if_splits)
  next
    case False
    then have "is_push c" "PQ_HANDLE_GEN h - next_gen q' = ?d - 1"
      using q'(4) by (auto simp: gen_step_def)
    moreover have "unat (?d - 1) = unat ?d - 1" using nz \<open>is_push c\<close> by (intro unat_minus_one) simp
    ultimately show ?thesis using Cons.prems(3) pc by (simp only: if_True)
  qed
  then show ?case using Cons.IH [OF q'(2,3)] q'(1) by simp
qed auto

section \<open>Properties of the queue\<close>

text \<open>C1: Memory safety of the priority queue: every sequence of calls on a freshly initialised
  queue, with any priorities, layers and handles (forged ones included), runs without an
  access outside the queue's arrays and ends in a queue that represents four task lists.\<close>

theorem pq_calls_safe: "\<exists>q m. pq_run cs pq_init = Some q \<and> pq_abs q m"
  using pq_run_abs [OF pq_init_abs] by blast

lemma pq_one:
  "\<exists>h q. pq_push pq_init 1 7 9 = Some (h, q) \<and> 0 \<le> h \<and>
     pq_abs q [[], [(h, \<lparr>fn = 7, arg = 9, priority = 1, seq = 0, quantum = 0, runtime = 0\<rparr>)], [], []]"
proof -
  have i: "next_gen pq_init = 0" "next_seq pq_init = 0" by (simp_all add: pq_init_def)
  show ?thesis
    by (rule pq_push_cases [OF pq_init_abs, of 1 7 9]) (auto simp: i mlq_push_def)
qed

text \<open>C3: \<open>pq_push\<close> on every branch: a valid priority and a free slot append the task, with
  its handle, to the end of its layer and use up one generation and one sequence number;
  otherwise the result is \<open>-1\<close> and the queue is unchanged. A handle is non-negative exactly
  while the generation counter is below \<open>0x8000\<close>.\<close>

theorem pq_push_refines:
  assumes "pq_abs q m"
  shows "\<exists>h q'. pq_push q prio f a = Some (h, q') \<and>
    (if 0 \<le> prio \<and> prio < int PQ_NUM_PRIORITIES \<and> length (concat m) < PQ_MAX_ITEMS
     then pq_abs q' (mlq_push m (nat prio) (h, \<lparr>fn = f, arg = a, priority = prio, seq = next_seq q,
                                              quantum = 0, runtime = 0\<rparr>)) \<and>
          PQ_HANDLE_GEN h = next_gen q \<and> (0 \<le> h \<longleftrightarrow> uint (next_gen q) < 0x8000) \<and>
          next_gen q' = next_gen q + 1 \<and> next_seq q' = next_seq q + 1
     else h = - 1 \<and> q' = q)"
  by (rule pq_push_cases [OF assms, of prio f a]) (auto split: if_splits)

theorem pq_push_refines_witness:
  "\<exists>h q. pq_push pq_init 3 1 2 = Some (h, q) \<and>
     pq_abs q [[], [], [], [(h, \<lparr>fn = 1, arg = 2, priority = 3, seq = next_seq pq_init,
                                quantum = 0, runtime = 0\<rparr>)]]"
  using pq_push_refines [OF pq_init_abs, of 3 1 2] by (auto simp: mlq_push_def numeral_3_eq_3)

text \<open>C2: Order of service: popping until the queue is empty returns exactly the queued tasks,
  the layers in priority order and every layer first in, first out.\<close>

theorem pq_drain_order:
  assumes "pq_abs q m"
  shows "drain pq_pop PQ_MAX_ITEMS q = Some (map snd (concat m))"
  by (rule mlq.drain_all [OF assms pq_abs_bound [OF assms]])

theorem pq_drain_order_witness:
  "\<exists>h q. pq_push pq_init 1 7 9 = Some (h, q) \<and>
     drain pq_pop PQ_MAX_ITEMS q = Some [\<lparr>fn = 7, arg = 9, priority = 1, seq = 0, quantum = 0, runtime = 0\<rparr>]"
  using pq_one pq_drain_order by fastforce



text \<open>\<open>pq_update\<close> on every branch: an invalid priority or handle gives \<open>-1\<close> and changes
  nothing; otherwise the task moves to the end of the new layer, or stays in place when the
  layer does not change.\<close>

lemma pq_update_refines:
  assumes "pq_abs q m"
  shows "\<exists>q'. pq_update q h p
           = Some (if 0 \<le> p \<and> p < int PQ_NUM_PRIORITIES \<and> mlq_valid m h then 0 else - 1, q') \<and>
         pq_abs q' (if 0 \<le> p \<and> p < int PQ_NUM_PRIORITIES \<and> mlq_valid m h then mlq_update m h (nat p) else m)"
proof (cases "0 \<le> p \<and> p < int PQ_NUM_PRIORITIES")
  case True
  then obtain k where k: "p = int k" "k < 4" using zero_le_imp_eq_int by fastforce
  show ?thesis by (rule pq_update_abs [OF assms k(2), of h]) (auto simp: k)
next
  case False
  with assms show ?thesis by (auto simp: pq_update_def)
qed

text \<open>C5: Stale handles: a handle that is not valid stays refused, whatever calls follow, until
  the generation counter has come round to its generation again. A handle whose task was
  the last one pushed is safe for the next 65535 pushes.\<close>

theorem pq_stale_handle:
  assumes "pq_abs q m" and "handle_valid q h = Some False"
    and "push_count cs \<le> unat (PQ_HANDLE_GEN h - next_gen q)"
  shows "\<exists>q'. pq_run cs q = Some q' \<and> handle_valid q' h = Some False"
proof -
  have "\<not> mlq_valid m h" using assms(1,2) handle_valid_abs by fastforce
  then show ?thesis using stale_run [OF assms(1) _ assms(3)] handle_valid_abs by fastforce
qed

theorem pq_stale_handle_witness:
  "\<exists>q'. pq_run [Push 0 5 5, Push 1 6 6, Pop] pq_init = Some q' \<and> handle_valid q' 0x70000 = Some False"
proof (rule pq_stale_handle [OF pq_init_abs])
  show "handle_valid pq_init 0x70000 = Some False"
    using handle_valid_abs [OF pq_init_abs] by (simp add: mlq_valid_def)
  have "PQ_HANDLE_GEN 0x70000 = 7" by (simp add: PQ_HANDLE_GEN_def)
  then show "push_count [Push 0 5 5, Push 1 6 6, Pop] \<le> unat (PQ_HANDLE_GEN 0x70000 - next_gen pq_init)"
    by (simp add: push_count_def pq_init_def)
qed

text \<open>C9: The sign of handles: once the generation counter has reached \<open>0x8000\<close>, an accepted
  push returns a negative handle, which \<open>pq_remove\<close> and \<open>pq_update\<close> refuse although its
  task is in the queue.\<close>

theorem pq_negative_handle:
  assumes "pq_abs q m" and "0 \<le> prio" and "prio < int PQ_NUM_PRIORITIES"
    and "length (concat m) < PQ_MAX_ITEMS" and "0x8000 \<le> uint (next_gen q)"
  shows "\<exists>h q' t. pq_push q prio f a = Some (h, q') \<and> h < 0 \<and>
           pq_abs q' (mlq_push m (nat prio) (h, t)) \<and>
           pq_remove q' h = Some (- 1, q') \<and> pq_update q' h p = Some (- 1, q')"
  by (rule pq_push_cases [OF assms(1), of prio f a])
    (use assms in \<open>auto simp: pq_remove_def pq_update_def handle_valid_def\<close>)

theorem pq_negative_handle_witness:
  "\<exists>h q' t. pq_push (pq_init\<lparr>next_gen := 0x8000\<rparr>) 2 1 1 = Some (h, q') \<and> h < 0 \<and>
     pq_abs q' (mlq_push [[], [], [], []] (nat 2) (h, t)) \<and>
     pq_remove q' h = Some (- 1, q') \<and> pq_update q' h 0 = Some (- 1, q')"
proof (rule pq_negative_handle)
  have "pq_rep (pq_init\<lparr>next_gen := 0x8000\<rparr>) (replicate 4 []) [0..<128]"
    using pq_init_rep by (simp add: pq_rep_def pq_links_def del: upt.simps)
  moreover have "map (map (entry (pq_init\<lparr>next_gen := 0x8000\<rparr>))) (replicate 4 []) = [[], [], [], []]"
    by (simp add: numeral_eq_Suc)
  ultimately show "pq_abs (pq_init\<lparr>next_gen := 0x8000\<rparr>) [[], [], [], []]"
    unfolding pq_abs_def by metis
qed simp_all

end
