(* ===== verification/Sched_Pool.thy ===== *)
theory Sched_Pool
  imports Sched_Calls
begin

text \<open>
  The thread pool of \<open>kernel/core/sched/threadpool.c\<close> and its front end
  \<open>kernel/core/sched/task_manager.c\<close>: submitters put jobs into the pool's priority queue
  and wait for them, workers scan the layers and run what they pop. Every section of the
  code between two lock operations is one atomic step; the interleavings of submitters,
  workers and the shutdown are the step relation \<open>pool_step\<close>.

  Shown: no step touches a freed job or leaves the queue's arrays, every accepted job is in
  exactly one place until it is done, and a job the queue refused is never finished.
\<close>

section \<open>The code\<close>

abbreviation PRIORITY_IMMEDIATE :: int where
  "PRIORITY_IMMEDIATE \<equiv> 0"

abbreviation PRIORITY_BACKGROUND :: int where
  "PRIORITY_BACKGROUND \<equiv> 2"

text \<open>The mutex and the condition variable of a job are the atomicity of the steps below.\<close>

record job_node =
  command_str :: string
  job_done :: bool
  job_priority :: int
  enqueue_time :: u64
  pq_handle :: int

text \<open>
  Where a worker thread is: before its lock at the top of the loop, running a popped task
  with the lock released, about to take the lock again with the layers that are left of the
  round, or returned.
\<close>

datatype worker = Top | Running pq_task "nat list" | Relock "nat list" | Exited

record thread_pool =
  workers :: "worker list"
  pq :: priority_queue
  shutting_down :: bool
  jobs :: "ptr \<rightharpoonup> job_node"

text \<open>The address of \<open>run_job_task\<close>, the only task function the pool queues.\<close>

abbreviation RUN_JOB_TASK :: ptr where
  "RUN_JOB_TASK \<equiv> 1"

text \<open>\<open>g_pool\<close> after the start-up code of the shell: \<open>n\<close> workers on an empty queue.\<close>

definition pool_init :: "nat \<Rightarrow> thread_pool" where
  "pool_init n = \<lparr>workers = replicate n Top, pq = pq_init, shutting_down = False, jobs = Map.empty\<rparr>"

definition run_job_task :: "ptr \<Rightarrow> thread_pool \<Rightarrow> thread_pool option" where
  "run_job_task p s = do {
     job \<leftarrow> jobs s p;
     Some (s\<lparr>jobs := (jobs s)(p \<mapsto> job\<lparr>job_done := True\<rparr>)\<rparr>)
   }"

definition create_job :: "string \<Rightarrow> u64 \<Rightarrow> job_node" where
  "create_job line now = \<lparr>command_str = line, job_done = False, job_priority = PRIORITY_IMMEDIATE,
                          enqueue_time = now, pq_handle = 0\<rparr>"

definition free_job :: "ptr \<Rightarrow> thread_pool \<Rightarrow> thread_pool" where
  "free_job p s = s\<lparr>jobs := (jobs s)(p := None)\<rparr>"

definition queue_job_priority :: "ptr \<Rightarrow> int \<Rightarrow> u64 \<Rightarrow> thread_pool \<Rightarrow> thread_pool option" where
  "queue_job_priority p prio now s = do {
     job \<leftarrow> jobs s p;
     let s = s\<lparr>jobs := (jobs s)(p \<mapsto> job\<lparr>job_priority := prio, enqueue_time := now, pq_handle := - 1\<rparr>)\<rparr>;
     if pq_count (pq s) \<ge> int PQ_MAX_ITEMS then Some s
     else do {
       (h, q) \<leftarrow> pq_push (pq s) prio RUN_JOB_TASK p;
       let s = s\<lparr>pq := q\<rparr>;
       if h \<ge> 0
       then do {
         job \<leftarrow> jobs s p;
         let s = s\<lparr>jobs := (jobs s)(p \<mapsto> job\<lparr>pq_handle := h\<rparr>)\<rparr>;
         q \<leftarrow> (if prio = PRIORITY_BACKGROUND then pq_set_quantum (pq s) h 100 else Some (pq s));
         Some (s\<lparr>pq := q\<rparr>)
       }
       else Some s
     }
   }"

definition queue_job :: "ptr \<Rightarrow> u64 \<Rightarrow> thread_pool \<Rightarrow> thread_pool option" where
  "queue_job p now s = queue_job_priority p PRIORITY_IMMEDIATE now s"

text \<open>The first half of \<open>submit_single_command_priority\<close>, up to the wait; \<open>p\<close> is the address
  the allocator returns for the new job. The second half, the wait for \<open>done\<close> followed by
  \<open>free_job\<close>, is the step \<open>reap\<close> below.\<close>

definition submit_single_command_priority ::
  "ptr \<Rightarrow> string \<Rightarrow> int \<Rightarrow> u64 \<Rightarrow> thread_pool \<Rightarrow> thread_pool option" where
  "submit_single_command_priority p line prio now s =
     (if p = NULL then Some s
      else queue_job_priority p prio now (s\<lparr>jobs := (jobs s)(p \<mapsto> create_job line now)\<rparr>))"

definition submit_single_command :: "ptr \<Rightarrow> string \<Rightarrow> u64 \<Rightarrow> thread_pool \<Rightarrow> thread_pool option" where
  "submit_single_command p line now s =
     submit_single_command_priority p line PRIORITY_IMMEDIATE now s"

definition task_manager_submit :: "ptr \<Rightarrow> int \<Rightarrow> string \<Rightarrow> u64 \<Rightarrow> thread_pool \<Rightarrow> thread_pool option" where
  "task_manager_submit p prio command now s =
     (let prio = (if prio < 0 then 0 else prio);
          prio = (if prio \<ge> int PQ_NUM_PRIORITIES then int PQ_NUM_PRIORITIES - 1 else prio)
      in submit_single_command_priority p command prio now s)"

text \<open>The worker: the rest of a round under the lock, up to the next popped task or the end of
  the round, then the whole loop by program point.\<close>

fun worker_scan :: "nat list \<Rightarrow> priority_queue \<Rightarrow> (worker \<times> priority_queue) option" where
  "worker_scan [] q = Some (Top, q)"
| "worker_scan (l # ls) q = do {
     (r, q') \<leftarrow> pq_pop_from_layer q (int l);
     case r of None \<Rightarrow> worker_scan ls q' | Some t \<Rightarrow> Some (Running t ls, q')
   }"

definition worker_thread :: "nat \<Rightarrow> thread_pool \<Rightarrow> thread_pool option" where
  "worker_thread i s =
     (case workers s ! i of
        Top \<Rightarrow>
          if shutting_down s then Some (s\<lparr>workers := (workers s)[i := Exited]\<rparr>)
          else if pq_is_empty (pq s) then Some s
          else do {
            (w, q) \<leftarrow> worker_scan [0..<PQ_NUM_PRIORITIES] (pq s);
            Some (s\<lparr>workers := (workers s)[i := w], pq := q\<rparr>)
          }
      | Running t ls \<Rightarrow> do {
          s \<leftarrow> (if fn t \<noteq> NULL \<and> arg t \<noteq> NULL then run_job_task (arg t) s else Some s);
          Some (s\<lparr>workers := (workers s)[i := Relock ls]\<rparr>)
        }
      | Relock ls \<Rightarrow> do {
          (w, q) \<leftarrow> worker_scan ls (pq s);
          Some (s\<lparr>workers := (workers s)[i := w], pq := q\<rparr>)
        }
      | Exited \<Rightarrow> Some s)"

text \<open>The step relation. A submission of a job at \<open>p\<close> records whether the queue refused it:
  the pool then still has the same number of tasks.\<close>

inductive pool_step :: "thread_pool \<times> ptr set \<Rightarrow> thread_pool \<times> ptr set \<Rightarrow> bool" where
  submit: "jobs s p = None \<Longrightarrow> p \<noteq> NULL \<Longrightarrow>
     submit_single_command_priority p line prio now s = Some s' \<Longrightarrow>
     pool_step (s, R) (s', if pq_count (pq s') = pq_count (pq s) then insert p R else R)"
| work: "i < length (workers s) \<Longrightarrow> worker_thread i s = Some s' \<Longrightarrow> pool_step (s, R) (s', R)"
| reap: "jobs s p = Some job \<Longrightarrow> job_done job \<Longrightarrow> pool_step (s, R) (free_job p s, R)"
| shutdown: "pool_step (s, R) (s\<lparr>shutting_down := True\<rparr>, R)"

inductive pool_reach :: "nat \<Rightarrow> thread_pool \<times> ptr set \<Rightarrow> bool" for n where
  init: "pool_reach n (pool_init n, {})"
| step: "pool_reach n x \<Longrightarrow> pool_step x y \<Longrightarrow> pool_reach n y"

inductive_cases pool_stepE: "pool_step (s, R) y"

section \<open>Where a job is\<close>

definition pending :: "thread_pool \<Rightarrow> ptr \<Rightarrow> bool" where
  "pending s p \<longleftrightarrow> (\<exists>job. jobs s p = Some job \<and> \<not> job_done job)"

fun running_args :: "worker \<Rightarrow> ptr multiset" where
  "running_args (Running t ls) = {#arg t#}"
| "running_args w = {#}"

fun worker_ok :: "worker \<Rightarrow> bool" where
  "worker_ok (Running t ls) \<longleftrightarrow> fn t = RUN_JOB_TASK \<and> set ls \<subseteq> {..<PQ_NUM_PRIORITIES}"
| "worker_ok (Relock ls) \<longleftrightarrow> set ls \<subseteq> {..<PQ_NUM_PRIORITIES}"
| "worker_ok w \<longleftrightarrow> True"

definition queued_args :: "(int \<times> pq_task) list list \<Rightarrow> ptr multiset" where
  "queued_args m = image_mset (arg \<circ> snd) (mset (concat m))"

definition busy_args :: "worker list \<Rightarrow> ptr multiset" where
  "busy_args ws = sum_list (map running_args ws)"

text \<open>The invariant: the jobs in the queue and in the hands of the workers are exactly the
  pending jobs that were not refused, each once.\<close>

definition pool_ok :: "thread_pool \<Rightarrow> ptr set \<Rightarrow> (int \<times> pq_task) list list \<Rightarrow> bool" where
  "pool_ok s R m \<longleftrightarrow> pq_abs (pq s) m \<and>
     (\<forall>p. count (queued_args m + busy_args (workers s)) p = of_bool (pending s p \<and> p \<notin> R)) \<and>
     (\<forall>p \<in> R. pending s p) \<and> jobs s NULL = None \<and>
     (\<forall>e \<in> set (concat m). fn (snd e) = RUN_JOB_TASK) \<and> (\<forall>w \<in> set (workers s). worker_ok w)"

definition pool_inv :: "thread_pool \<times> ptr set \<Rightarrow> bool" where
  "pool_inv x \<longleftrightarrow> (\<exists>m. pool_ok (fst x) (snd x) m)"

lemma pool_invI: "pool_ok s R m \<Longrightarrow> pool_inv (s, R)"
  by (auto simp: pool_inv_def)

lemma pool_okD:
  assumes "pool_ok s R m"
  shows "pq_abs (pq s) m"
    and "count (queued_args m + busy_args (workers s)) p = of_bool (pending s p \<and> p \<notin> R)"
    and "p \<in> R \<Longrightarrow> pending s p" and "jobs s NULL = None"
    and "e \<in> set (concat m) \<Longrightarrow> fn (snd e) = RUN_JOB_TASK" and "w \<in> set (workers s) \<Longrightarrow> worker_ok w"
  using assms by (simp_all add: pool_ok_def del: set_concat)

lemma queued_args_pop: "mset (concat m) = add_mset e (mset (concat m')) \<Longrightarrow> queued_args m = add_mset (arg (snd e)) (queued_args m')"
  by (simp add: queued_args_def)

lemma queued_args_push:
  assumes "l < length m"
  shows "queued_args (mlq_push m l e) = add_mset (arg (snd e)) (queued_args m)"
proof (rule queued_args_pop)
  show "mset (concat (mlq_push m l e)) = add_mset e (mset (concat m))"
    unfolding mlq_push_def using assms by (intro mset_concat_insert) simp_all
qed

lemma mlq_set_quantum_concat:
  "concat (mlq_set_quantum m h n) = map (\<lambda>(h', t). (h', if same_handle h h' then t\<lparr>quantum := n\<rparr> else t)) (concat m)"
  by (simp add: mlq_set_quantum_def map_concat)

lemma queued_args_set_quantum: "queued_args (mlq_set_quantum m h n) = queued_args m"
  unfolding queued_args_def mlq_set_quantum_concat
  by (auto simp: image_mset.compositionality intro!: image_mset_cong)

lemma busy_args_update:
  assumes "i < length ws"
  shows "busy_args (ws[i := w]) + running_args (ws ! i) = busy_args ws + running_args w"
  using assms
proof (induction ws arbitrary: i)
  case (Cons v ws)
  then show ?case by (cases i) (auto simp: busy_args_def ac_simps)
qed simp

lemma mlq_pop_layer_mset:
  assumes "l < length m"
  shows "case fst (mlq_pop_layer m l) of
           None \<Rightarrow> snd (mlq_pop_layer m l) = m
         | Some e \<Rightarrow> mset (concat m) = add_mset e (mset (concat (snd (mlq_pop_layer m l))))"
proof (cases "m ! l")
  case (Cons e xs)
  then have "add_mset e (mset (concat (m[l := xs]))) = mset (concat m)"
    by (intro mset_concat_delete [OF assms]) simp
  with Cons show ?thesis by (simp add: mlq_pop_layer_def)
qed (simp add: mlq_pop_layer_def)

lemma worker_scan_abs:
  assumes "pq_abs q m" and "set ls \<subseteq> {..<PQ_NUM_PRIORITIES}"
  shows "\<exists>w q' m'. worker_scan ls q = Some (w, q') \<and> pq_abs q' m' \<and>
           (w = Top \<and> m' = m \<or>
            (\<exists>e ls'. w = Running (snd e) ls' \<and> set ls' \<subseteq> {..<PQ_NUM_PRIORITIES} \<and>
                     mset (concat m) = add_mset e (mset (concat m'))))"
  using assms
proof (induction ls arbitrary: q)
  case (Cons l ls)
  then have l: "l < 4" by simp
  obtain q' where q': "pq_pop_from_layer q (int l) = Some (map_option snd (fst (mlq_pop_layer m l)), q')"
      "pq_abs q' (snd (mlq_pop_layer m l))"
    using mlq.repr_pop_layer [OF Cons.prems(1) l] by blast
  note pm = mlq_pop_layer_mset [of l m]
  show ?case
  proof (cases "fst (mlq_pop_layer m l)")
    case None
    then have "pq_abs q' m" using q'(2) pm l pq_abs_length [OF Cons.prems(1)] by simp
    then show ?thesis using Cons.IH [of q'] Cons.prems(2) q'(1) None by simp
  next
    case (Some e)
    then show ?thesis
      using q' pm l pq_abs_length [OF Cons.prems(1)] Cons.prems(2)
      by (intro exI [of _ "Running (snd e) ls"] exI [of _ q'] exI [of _ "snd (mlq_pop_layer m l)"])
        (auto simp del: split_paired_Ex)
  qed
qed simp

section \<open>The invariant is kept\<close>

lemma pool_ok_scan:
  assumes m: "pool_ok s R m" and i: "i < length (workers s)" "running_args (workers s ! i) = {#}"
    and ls: "set ls \<subseteq> {..<PQ_NUM_PRIORITIES}"
  shows "\<exists>w q. worker_scan ls (pq s) = Some (w, q) \<and> pool_inv (s\<lparr>workers := (workers s)[i := w], pq := q\<rparr>, R)"
proof -
  obtain w q m' where w: "worker_scan ls (pq s) = Some (w, q)" "pq_abs q m'"
      "w = Top \<and> m' = m \<or> (\<exists>e ls'. w = Running (snd e) ls' \<and> set ls' \<subseteq> {..<PQ_NUM_PRIORITIES} \<and>
         mset (concat m) = add_mset e (mset (concat m')))"
    using worker_scan_abs [OF pool_okD(1) [OF m] ls] by blast
  have b: "busy_args ((workers s)[i := w]) = busy_args (workers s) + running_args w"
    using busy_args_update [OF i(1), of w] i(2) by simp
  have st: "set (concat m') \<subseteq> set (concat m)"
    using w(3) by (metis insertCI set_mset_add_mset_insert set_mset_mset subsetI)
  have "queued_args m' + running_args w = queued_args m"
    using w(3) queued_args_pop by auto
  then have q: "queued_args m' + busy_args ((workers s)[i := w]) = queued_args m + busy_args (workers s)"
    unfolding b by (metis add.assoc add.commute)
  have "worker_ok w"
    using w(3) pool_okD(5) [OF m] by (metis set_mset_mset union_single_eq_member worker_ok.simps(1,3))
  then have ok: "\<forall>v \<in> set ((workers s)[i := w]). worker_ok v"
    using pool_okD(6) [OF m] set_update_subset_insert [of "workers s" i w] by blast
  have "pending (s\<lparr>workers := (workers s)[i := w], pq := q\<rparr>) p = pending s p" for p
    by (simp add: pending_def)
  then have "pool_ok (s\<lparr>workers := (workers s)[i := w], pq := q\<rparr>) R m'"
    using w(2) m st q ok unfolding pool_ok_def by (simp del: set_concat count_union) blast
  then show ?thesis using w(1) pool_invI by blast
qed

lemma pool_ok_run:
  assumes m: "pool_ok s R m" and i: "i < length (workers s)" "workers s ! i = Running t ls"
  shows "\<exists>job. jobs s (arg t) = Some job \<and> \<not> job_done job \<and> fn t = RUN_JOB_TASK \<and> arg t \<noteq> NULL \<and>
    pool_inv (s\<lparr>jobs := (jobs s)(arg t \<mapsto> job\<lparr>job_done := True\<rparr>), workers := (workers s)[i := Relock ls]\<rparr>, R)"
proof -
  have ok: "worker_ok (Running t ls)" using pool_okD(6) [OF m] i by (metis nth_mem)
  have b: "busy_args (workers s) = add_mset (arg t) (busy_args ((workers s)[i := Relock ls]))"
    using busy_args_update [OF i(1), of "Relock ls"] i(2) by simp
  have "count (queued_args m + busy_args (workers s)) (arg t) > 0" by (simp add: b)
  then have pend: "pending s (arg t)" "arg t \<notin> R" unfolding pool_okD(2) [OF m] by simp_all
  then obtain job where job: "jobs s (arg t) = Some job" "\<not> job_done job" by (auto simp: pending_def)
  let ?s = "s\<lparr>jobs := (jobs s)(arg t \<mapsto> job\<lparr>job_done := True\<rparr>), workers := (workers s)[i := Relock ls]\<rparr>"
  have pd: "pending ?s p \<longleftrightarrow> pending s p \<and> p \<noteq> arg t" for p by (simp add: pending_def)
  have "count (queued_args m + busy_args ((workers s)[i := Relock ls])) p = of_bool (pending ?s p \<and> p \<notin> R)" for p
    using pool_okD(2) [OF m, of p] pend unfolding b pd by (auto split: if_splits)
  moreover have "\<forall>v \<in> set ((workers s)[i := Relock ls]). worker_ok v"
    using ok pool_okD(6) [OF m] set_update_subset_insert [of "workers s" i "Relock ls"] by auto
  moreover have nn: "arg t \<noteq> NULL" using job(1) pool_okD(4) [OF m] by auto
  moreover have "\<forall>p \<in> R. pending ?s p" using pool_okD(3) [OF m] pend(2) pd by auto
  ultimately have "pool_ok ?s R m"
    using m unfolding pool_ok_def by (simp del: set_concat count_union)
  then show ?thesis using job nn ok pool_invI by auto
qed

lemma worker_thread_inv:
  assumes inv: "pool_inv (s, R)" and i: "i < length (workers s)"
  shows "\<exists>s'. worker_thread i s = Some s' \<and> pool_inv (s', R)"
proof -
  obtain m where m: "pool_ok s R m" using inv by (auto simp: pool_inv_def)
  show ?thesis
  proof (cases "workers s ! i")
    case Top
    have "busy_args ((workers s)[i := Exited]) = busy_args (workers s)"
      using busy_args_update [OF i, of Exited] Top by simp
    moreover have "\<forall>v \<in> set ((workers s)[i := Exited]). worker_ok v"
      using pool_okD(6) [OF m] set_update_subset_insert [of "workers s" i Exited] by auto
    ultimately have "pool_ok (s\<lparr>workers := (workers s)[i := Exited]\<rparr>) R m"
      using m by (simp add: pool_ok_def pending_def del: count_union)
    then have "pool_inv (s\<lparr>workers := (workers s)[i := Exited]\<rparr>, R)" by (rule pool_invI)
    then show ?thesis
      using pool_ok_scan [OF m i, of "[0..<4]"] inv Top by (auto simp: worker_thread_def lessThan_atLeast0 simp del: upt.simps)
  next
    case (Running t ls)
    then show ?thesis using pool_ok_run [OF m i Running] by (auto simp: worker_thread_def run_job_task_def)
  next
    case (Relock ls)
    then have "worker_ok (Relock ls)" using pool_okD(6) [OF m] i by (metis nth_mem)
    then show ?thesis using pool_ok_scan [OF m i, of ls] Relock by (auto simp: worker_thread_def)
  next
    case Exited
    then show ?thesis using inv by (simp add: worker_thread_def)
  qed
qed

lemma pool_ok_add:
  assumes m: "pool_ok s R m" and p: "jobs s p = None" "p \<noteq> NULL" and j: "\<not> job_done j"
    and q: "pq_abs q m'" "\<forall>e \<in> set (concat m'). fn (snd e) = RUN_JOB_TASK"
    and c: "queued_args m' = (if p \<in> R' then queued_args m else add_mset p (queued_args m))"
    and R': "R' = R \<or> R' = insert p R"
  shows "pool_ok (s\<lparr>jobs := (jobs s)(p \<mapsto> j), pq := q\<rparr>) R' m'"
proof -
  let ?s = "s\<lparr>jobs := (jobs s)(p \<mapsto> j), pq := q\<rparr>"
  have np: "\<not> pending s p" using p by (simp add: pending_def)
  have pd: "pending ?s x \<longleftrightarrow> pending s x \<or> x = p" for x
    using j by (auto simp: pending_def)
  have "p \<notin> R" using np pool_okD(3) [OF m] by blast
  then have "count (queued_args m' + busy_args (workers s)) x = of_bool (pending ?s x \<and> x \<notin> R')" for x
    using pool_okD(2) [OF m, of x] np c R' unfolding pd by auto
  moreover have "\<forall>x \<in> R'. pending ?s x" using pool_okD(3) [OF m] R' pd by auto
  ultimately show ?thesis
    using m p q unfolding pool_ok_def by (simp del: set_concat count_union)
qed

lemma pool_ok_quantum:
  assumes m: "pool_ok s R m"
  shows "\<exists>q m'. pq_set_quantum (pq s) h n = Some q \<and> pool_ok (s\<lparr>pq := q\<rparr>) R m' \<and>
           length (concat m') = length (concat m)"
proof -
  let ?m = "if mlq_valid m h then mlq_set_quantum m h n else m"
  obtain q where q: "pq_set_quantum (pq s) h n = Some q" "pq_abs q ?m"
    using pq_set_quantum_abs [OF pool_okD(1) [OF m], of h n] by blast
  have "queued_args ?m = queued_args m" by (simp add: queued_args_set_quantum)
  moreover have "\<forall>e \<in> set (concat ?m). fn (snd e) = RUN_JOB_TASK"
    using mlq_set_quantum_entry pool_okD(5) [OF m] by (metis (full_types))
  ultimately have "pool_ok (s\<lparr>pq := q\<rparr>) R ?m"
    using q(2) m by (simp add: pool_ok_def pending_def del: set_concat count_union)
  moreover have "length (concat ?m) = length (concat m)" by (simp add: mlq_set_quantum_concat)
  ultimately show ?thesis using q(1) by blast
qed

lemma pool_ok_accept:
  assumes m: "pool_ok s R m" and p: "jobs s p = None" "p \<noteq> NULL"
    and l: "0 \<le> prio" "prio < int PQ_NUM_PRIORITIES" and n: "length (concat m) < PQ_MAX_ITEMS"
    and j: "\<not> job_done j"
  shows "\<exists>h q m'. pq_push (pq s) prio RUN_JOB_TASK p = Some (h, q) \<and>
           pool_ok (s\<lparr>jobs := (jobs s)(p \<mapsto> j), pq := q\<rparr>) R m' \<and> length (concat m') = Suc (length (concat m))"
proof -
  let ?e = "\<lambda>h. (h, \<lparr>fn = RUN_JOB_TASK, arg = p, priority = prio, seq = next_seq (pq s), quantum = 0, runtime = 0\<rparr>)"
  obtain h q where q: "pq_push (pq s) prio RUN_JOB_TASK p = Some (h, q)" "pq_abs q (mlq_push m (nat prio) (?e h))"
    by (rule pq_push_cases [OF pool_okD(1) [OF m], of prio RUN_JOB_TASK p]) (use l n in auto)
  have len: "nat prio < length m" using l pq_abs_length [OF pool_okD(1) [OF m]] by simp
  have ms: "mset (concat (mlq_push m (nat prio) (?e h))) = add_mset (?e h) (mset (concat m))"
    unfolding mlq_push_def using len by (intro mset_concat_insert) simp_all
  have "\<not> pending s p" using p by (simp add: pending_def)
  then have "p \<notin> R" using pool_okD(3) [OF m] by blast
  moreover have "\<forall>e \<in> set (concat (mlq_push m (nat prio) (?e h))). fn (snd e) = RUN_JOB_TASK"
    using set_concat_mlq_push [of m "nat prio" "?e h"] pool_okD(5) [OF m] by fastforce
  ultimately have "pool_ok (s\<lparr>jobs := (jobs s)(p \<mapsto> j), pq := q\<rparr>) R (mlq_push m (nat prio) (?e h))"
    using q(2) queued_args_push [OF len] by (intro pool_ok_add [OF m p j]) simp_all
  then show ?thesis using q(1) arg_cong [OF ms, of size] by auto
qed

lemma submit_accept:
  assumes m: "pool_ok s R m" and p: "jobs s p = None" "p \<noteq> NULL"
    and l: "0 \<le> prio" "prio < int PQ_NUM_PRIORITIES" and n: "length (concat m) < PQ_MAX_ITEMS"
  shows "\<exists>s' m'. submit_single_command_priority p line prio now s = Some s' \<and> pool_ok s' R m' \<and>
           length (concat m') = Suc (length (concat m))"
proof -
  let ?j = "(create_job line now)\<lparr>job_priority := prio, enqueue_time := now, pq_handle := - 1\<rparr>"
  have j: "\<not> job_done ?j" by (simp add: create_job_def)
  have c: "pq_count (pq s) < 128" using n pq_abs_size [OF pool_okD(1) [OF m]] by (simp add: pq_count_def)
  obtain h q where push: "pq_push (pq s) prio RUN_JOB_TASK p = Some (h, q)"
    using pool_ok_accept [OF m p l n j] by blast
  show ?thesis
  proof (cases "0 \<le> h")
    case False
    then show ?thesis
      using pool_ok_accept [OF m p l n j] p push c
      by (auto simp: submit_single_command_priority_def queue_job_priority_def)
  next
    case True
    let ?j' = "?j\<lparr>pq_handle := h\<rparr>"
    have j': "\<not> job_done ?j'" by (simp add: create_job_def)
    let ?s = "s\<lparr>jobs := (jobs s)(p \<mapsto> ?j'), pq := q\<rparr>"
    obtain m' where m': "pool_ok ?s R m'" "length (concat m') = Suc (length (concat m))"
      using pool_ok_accept [OF m p l n j'] push by auto
    obtain q' m'' where q': "pq_set_quantum q h 100 = Some q'" "pool_ok (?s\<lparr>pq := q'\<rparr>) R m''"
        "length (concat m'') = length (concat m')"
      using pool_ok_quantum [OF m'(1), of h 100] by auto
    have "submit_single_command_priority p line prio now s
        = Some (if prio = 2 then ?s\<lparr>pq := q'\<rparr> else ?s)"
      using True p push c q'(1)
      by (simp add: submit_single_command_priority_def queue_job_priority_def)
    then show ?thesis using m' q' by (cases "prio = 2") auto
  qed
qed

lemma submit_refuse:
  assumes m: "pool_ok s R m" and p: "jobs s p = None" "p \<noteq> NULL"
    and n: "\<not> (0 \<le> prio \<and> prio < int PQ_NUM_PRIORITIES \<and> length (concat m) < PQ_MAX_ITEMS)"
  shows "\<exists>s'. submit_single_command_priority p line prio now s = Some s' \<and> pool_ok s' (insert p R) m \<and> pq s' = pq s"
proof -
  let ?j = "(create_job line now)\<lparr>job_priority := prio, enqueue_time := now, pq_handle := - 1\<rparr>"
  let ?s = "s\<lparr>jobs := (jobs s)(p \<mapsto> ?j), pq := pq s\<rparr>"
  have "pool_ok ?s (insert p R) m"
    using pool_okD(1,5) [OF m] by (intro pool_ok_add [OF m p]) (auto simp: create_job_def)
  moreover have "pq_push (pq s) prio RUN_JOB_TASK p = Some (- 1, pq s)"
    by (rule pq_push_cases [OF pool_okD(1) [OF m], of prio RUN_JOB_TASK p]) (use n in auto)
  then have "submit_single_command_priority p line prio now s = Some ?s"
    using p by (simp add: submit_single_command_priority_def queue_job_priority_def Let_def)
  ultimately show ?thesis by fastforce
qed

lemma pool_inv_submit:
  assumes inv: "pool_inv (s, R)" and p: "jobs s p = None" "p \<noteq> NULL"
    and s': "submit_single_command_priority p line prio now s = Some s'"
  shows "pool_inv (s', if pq_count (pq s') = pq_count (pq s) then insert p R else R)"
proof -
  obtain m where m: "pool_ok s R m" using inv by (auto simp: pool_inv_def)
  show ?thesis
  proof (cases "0 \<le> prio \<and> prio < int PQ_NUM_PRIORITIES \<and> length (concat m) < PQ_MAX_ITEMS")
    case True
    then obtain m' where m': "pool_ok s' R m'" "length (concat m') = Suc (length (concat m))"
      using submit_accept [OF m p, of prio line now] s' by auto
    then have "pq_count (pq s') \<noteq> pq_count (pq s)"
      using pq_abs_size [OF pool_okD(1) [OF m]] pq_abs_size [OF pool_okD(1) [OF m'(1)]]
      by (simp add: pq_count_def)
    then show ?thesis using m'(1) pool_invI by auto
  next
    case False
    then show ?thesis using submit_refuse [OF m p False, of line now] s' pool_invI by auto
  qed
qed

lemma pool_step_inv: "pool_step x y \<Longrightarrow> pool_inv x \<Longrightarrow> pool_inv y"
proof (induction rule: pool_step.induct)
  case (submit s p line prio now s' R)
  then show ?case by (intro pool_inv_submit)
next
  case (work i s s' R)
  then show ?case using worker_thread_inv [of s R i] by auto
next
  case (reap s p job R)
  then obtain m where m: "pool_ok s R m" by (auto simp: pool_inv_def)
  have "pending (free_job p s) x \<longleftrightarrow> pending s x" for x
    using reap by (auto simp: pending_def free_job_def)
  then have "pool_ok (free_job p s) R m"
    using m by (simp add: pool_ok_def free_job_def del: set_concat count_union)
  then show ?case by (rule pool_invI)
next
  case (shutdown s R)
  then show ?case by (simp add: pool_inv_def pool_ok_def pending_def)
qed

lemma busy_args_idle: "busy_args (replicate n Top) = {#}"
  by (induction n) (simp_all add: busy_args_def)

lemma pool_init_inv: "pool_inv (pool_init n, {})"
proof (rule pool_invI)
  show "pool_ok (pool_init n) {} [[], [], [], []]"
    using pq_init_abs by (simp add: pool_ok_def pool_init_def pending_def queued_args_def busy_args_idle)
qed

lemma pool_reach_inv: "pool_reach n x \<Longrightarrow> pool_inv x"
  by (induction rule: pool_reach.induct) (auto intro: pool_init_inv pool_step_inv)

lemma pool_step_refused: "pool_step x y \<Longrightarrow> snd x \<subseteq> snd y"
  by (induction rule: pool_step.induct) auto

lemma pool_steps_refused: "pool_step\<^sup>*\<^sup>* x y \<Longrightarrow> pool_inv x \<Longrightarrow> pool_inv y \<and> snd x \<subseteq> snd y"
proof (induction rule: rtranclp_induct)
  case (step y z)
  then show ?case using pool_step_inv [OF step.hyps(2)] pool_step_refused [OF step.hyps(2)] by blast
qed simp

section \<open>Properties of the pool\<close>

text \<open>C6: Memory safety of the workers under every interleaving: in every reachable state of the
  pool a worker's next step is defined. It stays inside the queue's arrays, and the job it
  runs has not been freed and is not done yet.\<close>

theorem pool_worker_safe:
  assumes "pool_reach n (s, R)" and "i < length (workers s)"
  shows "(\<exists>s'. worker_thread i s = Some s') \<and>
         (case workers s ! i of Running t ls \<Rightarrow> pending s (arg t) | _ \<Rightarrow> True)"
proof -
  have inv: "pool_inv (s, R)" using assms(1) by (rule pool_reach_inv)
  then obtain m where m: "pool_ok s R m" by (auto simp: pool_inv_def)
  have "case workers s ! i of Running t ls \<Rightarrow> pending s (arg t) | _ \<Rightarrow> True"
    using pool_ok_run [OF m assms(2)] by (auto simp: pending_def split: worker.splits)
  with worker_thread_inv [OF inv assms(2)] show ?thesis by blast
qed

lemma pool_one:
  "\<exists>s m. pool_step (pool_init 4, {}) (s, {}) \<and> submit_single_command_priority 8 ''ls'' 0 0 (pool_init 4) = Some s \<and>
      pool_ok s {} m \<and> length (concat m) = 1"
proof -
  have m: "pool_ok (pool_init 4) {} [[], [], [], []]"
    using pq_init_abs by (simp add: pool_ok_def pool_init_def pending_def queued_args_def busy_args_idle)
  have e: "jobs (pool_init 4) 8 = None" "pq_count (pq (pool_init 4)) = 0"
    by (simp_all add: pool_init_def pq_count_def pq_init_def)
  obtain s m' where s: "submit_single_command_priority 8 ''ls'' 0 0 (pool_init 4) = Some s" "pool_ok s {} m'"
      "length (concat m') = 1"
    using submit_accept [OF m e(1), of 0 "''ls''" 0] by auto
  then have "pq_count (pq s) = 1" using pq_abs_size [OF pool_okD(1) [OF s(2)]] by (simp add: pq_count_def)
  then have "pool_step (pool_init 4, {}) (s, {})"
    using pool_step.submit [OF e(1) _ s(1), of "{}"] e(2) by simp
  with s show ?thesis by blast
qed

theorem pool_worker_safe_witness:
  "\<exists>s s'. submit_single_command_priority 8 ''ls'' 0 0 (pool_init 4) = Some s \<and> worker_thread 3 s = Some s'"
proof -
  obtain s m where s: "pool_step (pool_init 4, {}) (s, {})"
      "submit_single_command_priority 8 ''ls'' 0 0 (pool_init 4) = Some s"
    using pool_one by blast
  then have r: "pool_reach 4 (s, {})" by (blast intro: pool_reach.intros)
  have "length (workers s) = 4"
    using s(2) by (auto simp: submit_single_command_priority_def queue_job_priority_def Let_def pool_init_def
        bind_eq_Some_conv split: if_splits)
  then show ?thesis using pool_worker_safe [OF r, of 3] s(2) by auto
qed

text \<open>C7: No accepted job is lost or run twice: in every reachable state each pending job the
  queue accepted is either queued or held by a worker, in exactly one place, and nothing
  else is queued or held.\<close>

theorem pool_job_once:
  assumes "pool_reach n (s, R)"
  shows "\<exists>m. pq_abs (pq s) m \<and>
    (\<forall>p. count (queued_args m) p + count (busy_args (workers s)) p = (if pending s p \<and> p \<notin> R then 1 else 0))"
proof -
  obtain m where m: "pool_ok s R m" using pool_reach_inv [OF assms] by (auto simp: pool_inv_def)
  show ?thesis using pool_okD(1,2) [OF m] by (intro exI [of _ m]) (auto simp: of_bool_def)
qed

theorem pool_job_once_witness:
  "\<exists>s m. submit_single_command_priority 8 ''ls'' 0 0 (pool_init 4) = Some s \<and> pq_abs (pq s) m \<and>
     count (queued_args m) 8 + count (busy_args (workers s)) 8 = 1"
proof -
  obtain s m where s: "pool_step (pool_init 4, {}) (s, {})"
      "submit_single_command_priority 8 ''ls'' 0 0 (pool_init 4) = Some s"
    using pool_one by blast
  then have r: "pool_reach 4 (s, {})" by (blast intro: pool_reach.intros)
  have "pending s 8"
    using s(2) by (auto simp: submit_single_command_priority_def queue_job_priority_def Let_def pool_init_def
        bind_eq_Some_conv pending_def create_job_def split: if_splits)
  then show ?thesis using pool_job_once [OF r] s(2) by (metis empty_iff)
qed

text \<open>C8: A refused job is never finished: once the queue has refused a job (it was full, or the
  priority is not a layer) no interleaving ever marks it done, so the submitter that waits for
  it waits forever.\<close>

theorem pool_refused_never_done:
  assumes "pool_reach n (s, R)" and "p \<in> R" and "pool_step\<^sup>*\<^sup>* (s, R) (s', R')"
  shows "p \<in> R' \<and> pending s' p"
proof -
  have "pool_inv (s', R')" "R \<subseteq> R'"
    using pool_steps_refused [OF assms(3) pool_reach_inv [OF assms(1)]] by auto
  then show ?thesis using assms(2) by (auto simp: pool_inv_def dest: pool_okD(3))
qed

theorem pool_refused_never_done_witness:
  "\<exists>s. submit_single_command_priority 8 ''ls'' 7 0 (pool_init 4) = Some s \<and> pending s 8"
proof -
  have m: "pool_ok (pool_init 4) {} [[], [], [], []]"
    using pq_init_abs by (simp add: pool_ok_def pool_init_def pending_def queued_args_def busy_args_idle)
  have e: "jobs (pool_init 4) 8 = None" by (simp add: pool_init_def)
  obtain s where s: "submit_single_command_priority 8 ''ls'' 7 0 (pool_init 4) = Some s" "pq s = pq (pool_init 4)"
    using submit_refuse [OF m e, of 7 "''ls''" 0] by auto
  then have "pool_step (pool_init 4, {}) (s, {8})" using pool_step.submit [OF e _ s(1), of "{}"] by simp
  then have r: "pool_reach 4 (s, {8})" by (blast intro: pool_reach.intros)
  show ?thesis using pool_refused_never_done [OF r, of 8 s "{8}"] s(1) by auto
qed

text \<open>\<open>task_manager_submit\<close> clamps its priority into the four layers, so the queue accepts the
  job exactly when it holds fewer than 128 tasks.\<close>

lemma task_manager_submit_accepts:
  assumes "pool_reach n (s, R)" and "jobs s p = None" and "p \<noteq> NULL"
  shows "\<exists>s'. task_manager_submit p prio line now s = Some s' \<and>
    pq_count (pq s') = (if pq_count (pq s) < int PQ_MAX_ITEMS then pq_count (pq s) + 1 else pq_count (pq s))"
proof -
  obtain m where m: "pool_ok s R m" using pool_reach_inv [OF assms(1)] by (auto simp: pool_inv_def)
  define l where "l = (if prio < 0 then 0 else if prio \<ge> 4 then 3 else prio)"
  have t: "task_manager_submit p prio line now s = submit_single_command_priority p line l now s" and l: "0 \<le> l" "l < 4"
    by (auto simp: task_manager_submit_def l_def)
  have c: "pq_count (pq s) = int (length (concat m))"
    using pq_abs_size [OF pool_okD(1) [OF m]] by (simp add: pq_count_def)
  show ?thesis
  proof (cases "length (concat m) < PQ_MAX_ITEMS")
    case True
    then obtain s' m' where s': "submit_single_command_priority p line l now s = Some s'" "pool_ok s' R m'"
        "length (concat m') = Suc (length (concat m))"
      using submit_accept [OF m assms(2,3) l(1) _ True, of line now] l(2) by auto
    then have "pq_count (pq s') = pq_count (pq s) + 1"
      using pq_abs_size [OF pool_okD(1) [OF s'(2)]] c by (simp add: pq_count_def)
    then show ?thesis using s'(1) True c t by auto
  next
    case False
    then show ?thesis using submit_refuse [OF m assms(2,3), of l line now] c t by auto
  qed
qed

text \<open>No layer starves: a worker round that nothing interrupts runs the first task of every
  non-empty layer, in layer order, and leaves every layer without its first task.\<close>

lemma pq_scan_fair:
  assumes "pq_abs q m"
  shows "\<exists>q'. scan_layers pq_pop_from_layer [0..<PQ_NUM_PRIORITIES] q
           = Some (map (snd \<circ> hd) (filter (\<lambda>xs. xs \<noteq> []) m), q') \<and> pq_abs q' (map tl m)"
  using mlq.scan_round [OF assms, of 0] by (simp del: upt.simps)

end
