(* ===== verification/FL_Bytes.thy ===== *)
theory FL_Bytes
  imports FL_Prelude
begin

text \<open>
  Byte sequences: little-endian encoding of words (the layout every load and store of more
  than one byte uses, in the assembly primitives, the VM memory and the arena headers), and
  copying and clearing parts of a buffer that is a list of bytes.
\<close>

section \<open>Little-endian words\<close>

definition le_bytes :: "nat \<Rightarrow> 'a::len word \<Rightarrow> u8 list" where
  "le_bytes n w = map (\<lambda>i. ucast (drop_bit (8 * i) w)) [0..<n]"

primrec le_word :: "u8 list \<Rightarrow> 'a::len word" where
  "le_word [] = 0"
| "le_word (b # bs) = ucast b OR push_bit 8 (le_word bs)"

lemma length_le_bytes [simp]: "length (le_bytes n w) = n"
  by (simp add: le_bytes_def)

lemma nth_le_bytes [simp]: "i < n \<Longrightarrow> le_bytes n w ! i = ucast (drop_bit (8 * i) w)"
  by (simp add: le_bytes_def)

lemma bit_le_word:
  "bit (le_word bs :: 'a::len word) i \<longleftrightarrow>
   i < LENGTH('a) \<and> i div 8 < length bs \<and> bit (bs ! (i div 8)) (i mod 8)"
proof (induction bs arbitrary: i)
  case (Cons b bs)
  show ?case
  proof (cases "i < 8")
    case True
    then show ?thesis by (auto simp: bit_simps)
  next
    case False
    then have "i div 8 = Suc ((i - 8) div 8)" "i mod 8 = (i - 8) mod 8"
      by (simp_all add: le_div_geq le_mod_geq)
    moreover have "\<not> bit b i" using False bit_imp_le_length [of b i] by auto
    ultimately show ?thesis using False by (auto simp: bit_simps Cons.IH)
  qed
qed simp

lemma le_word_le_bytes: "le_word (le_bytes n w) = take_bit (8 * n) (w :: 'a::len word)"
proof (rule bit_word_eqI)
  fix i
  assume i: "i < LENGTH('a)"
  have "i div 8 < n \<longleftrightarrow> i < 8 * n" by auto
  then show "bit (le_word (le_bytes n w) :: 'a word) i \<longleftrightarrow> bit (take_bit (8 * n) w) i"
    using i by (auto simp: bit_le_word bit_simps)
qed

lemma le_bytes_le_word:
  assumes "8 * length bs \<le> LENGTH('a::len)"
  shows "le_bytes (length bs) (le_word bs :: 'a word) = bs"
proof (rule nth_equalityI)
  fix i
  assume "i < length (le_bytes (length bs) (le_word bs :: 'a word))"
  then have i: "i < length bs" by simp
  have "bit (ucast (drop_bit (8 * i) (le_word bs :: 'a word)) :: u8) k = bit (bs ! i) k" if "k < 8" for k
    using assms i that by (auto simp: bit_simps bit_le_word)
  then show "le_bytes (length bs) (le_word bs :: 'a word) ! i = bs ! i"
    using i by (simp, intro bit_word_eqI) simp
qed simp

section \<open>Buffers\<close>

text \<open>\<open>bcopy buf off src\<close> stores the bytes \<open>src\<close> at offset \<open>off\<close>, \<open>bslice buf off n\<close> reads
  \<open>n\<close> bytes at \<open>off\<close>; both are \<open>None\<close> outside the buffer.\<close>

definition bslice :: "'a list \<Rightarrow> nat \<Rightarrow> nat \<Rightarrow> 'a list option" where
  "bslice buf off n = (if off + n \<le> length buf then Some (take n (drop off buf)) else None)"

definition bcopy :: "'a list \<Rightarrow> nat \<Rightarrow> 'a list \<Rightarrow> 'a list option" where
  "bcopy buf off src =
     (if off + length src \<le> length buf
      then Some (take off buf @ src @ drop (off + length src) buf) else None)"

lemma bslice_Some [arr]: "off + n \<le> length buf \<Longrightarrow> bslice buf off n = Some (take n (drop off buf))"
  by (simp add: bslice_def)

lemma bcopy_Some [arr]:
  "off + length src \<le> length buf \<Longrightarrow> bcopy buf off src = Some (take off buf @ src @ drop (off + length src) buf)"
  by (simp add: bcopy_def)

lemma bcopy_length: "bcopy buf off src = Some buf' \<Longrightarrow> length buf' = length buf"
  by (auto simp: bcopy_def split: if_splits)

lemma nth_bcopy:
  assumes "bcopy buf off src = Some buf'" and "i < length buf"
  shows "buf' ! i = (if off \<le> i \<and> i < off + length src then src ! (i - off) else buf ! i)"
  using assms by (auto simp: bcopy_def nth_append min_def split: if_splits)

lemma bslice_bcopy_same:
  assumes "bcopy buf off src = Some buf'"
  shows "bslice buf' off (length src) = Some src"
  using assms by (auto simp: bcopy_def bslice_def min_def split: if_splits)

lemma bslice_bcopy_other:
  assumes "bcopy buf off src = Some buf'" and "off' + n \<le> off \<or> off + length src \<le> off'"
  shows "bslice buf' off' n = bslice buf off' n"
proof (cases "off' + n \<le> length buf")
  case True
  have len: "length buf' = length buf" using assms(1) by (rule bcopy_length)
  have "take n (drop off' buf') = take n (drop off' buf)"
  proof (rule nth_equalityI)
    fix i
    assume "i < length (take n (drop off' buf'))"
    then show "take n (drop off' buf') ! i = take n (drop off' buf) ! i"
      using nth_bcopy [OF assms(1), of "off' + i"] assms(2) True len by auto
  qed (use len in simp)
  then show ?thesis by (simp add: bslice_def len)
next
  case False
  then show ?thesis using bcopy_length [OF assms(1)] by (simp add: bslice_def)
qed

end
