(* ===== verification/Mem_Asm.thy ===== *)
theory Mem_Asm
  imports FL_Bytes
begin

text \<open>
  The memory primitives of \<open>arch/x86_64/gas/mem_asm.s\<close> on a flat 64-bit byte-addressed
  memory: the quadword loop followed by the byte loop, register by register. For buffers
  that do not overlap they are shown to copy, clear and fill exactly the bytes the contract
  in \<open>kernel/arch/x86_64/include/mem_asm.h\<close> names; this is what lets the other theories
  treat them as operations on whole buffers.
\<close>

type_synonym memory = "u64 \<Rightarrow> u8"

definition load_q :: "memory \<Rightarrow> u64 \<Rightarrow> u64" where
  "load_q m a = le_word (map (\<lambda>i. m (a + of_nat i)) [0..<8])"

definition store_q :: "memory \<Rightarrow> u64 \<Rightarrow> u64 \<Rightarrow> memory" where
  "store_q m a v = (\<lambda>x. if x - a < 8 then le_bytes 8 v ! unat (x - a) else m x)"

section \<open>The routines\<close>

text \<open>Each loop runs its counter register down to zero; the branch around the loop for a
  zero counter is the first equation.\<close>

fun copy_qwords :: "nat \<Rightarrow> u64 \<Rightarrow> u64 \<Rightarrow> memory \<Rightarrow> u64 \<times> u64 \<times> memory" where
  "copy_qwords 0 rsi rdi m = (rsi, rdi, m)"
| "copy_qwords (Suc r9) rsi rdi m =
     (let r10 = load_q m rsi in copy_qwords r9 (rsi + 8) (rdi + 8) (store_q m rdi r10))"

fun copy_byte_loop :: "nat \<Rightarrow> u64 \<Rightarrow> u64 \<Rightarrow> memory \<Rightarrow> memory" where
  "copy_byte_loop 0 rsi rdi m = m"
| "copy_byte_loop (Suc r8) rsi rdi m = copy_byte_loop r8 (rsi + 1) (rdi + 1) (m(rdi := m rsi))"

definition asm_mem_copy :: "u64 \<Rightarrow> u64 \<Rightarrow> u64 \<Rightarrow> memory \<Rightarrow> memory" where
  "asm_mem_copy rdi rsi rdx m =
     (let r8 = rdx; r9 = drop_bit 3 rdx;
          (rsi, rdi, m) = copy_qwords (unat r9) rsi rdi m
      in copy_byte_loop (unat (r8 AND 7)) rsi rdi m)"

fun fill_qwords :: "nat \<Rightarrow> u64 \<Rightarrow> u64 \<Rightarrow> memory \<Rightarrow> u64 \<times> memory" where
  "fill_qwords 0 r10 rdi m = (rdi, m)"
| "fill_qwords (Suc r9) r10 rdi m = fill_qwords r9 r10 (rdi + 8) (store_q m rdi r10)"

fun fill_byte_loop :: "nat \<Rightarrow> u8 \<Rightarrow> u64 \<Rightarrow> memory \<Rightarrow> memory" where
  "fill_byte_loop 0 b rdi m = m"
| "fill_byte_loop (Suc r8) b rdi m = fill_byte_loop r8 b (rdi + 1) (m(rdi := b))"

definition asm_mem_zero :: "u64 \<Rightarrow> u64 \<Rightarrow> memory \<Rightarrow> memory" where
  "asm_mem_zero rdi rsi m =
     (let r8 = rsi; r10 = 0; r9 = drop_bit 3 rsi;
          (rdi, m) = fill_qwords (unat r9) r10 rdi m
      in fill_byte_loop (unat (r8 AND 7)) 0 rdi m)"

definition asm_block_fill :: "u64 \<Rightarrow> u8 \<Rightarrow> u64 \<Rightarrow> memory \<Rightarrow> memory" where
  "asm_block_fill rdi sil rdx m =
     (let rsi = (ucast sil :: u64);
          r8 = drop_bit 3 rdx;
          r10 = rsi;
          r10 = push_bit 8 r10;
          r10 = r10 OR rsi;
          r11 = r10;
          r10 = push_bit 16 r10;
          r10 = r10 OR r11;
          r11 = r10;
          r10 = push_bit 32 r10;
          r10 = r10 OR r11;
          (rdi, m) = fill_qwords (unat r8) r10 rdi m
      in fill_byte_loop (unat (rdx AND 7)) sil rdi m)"

section \<open>What they do\<close>

text \<open>The contract: the \<open>n\<close> bytes from \<open>d\<close> on hold \<open>f 0\<close>, \<open>f 1\<close>, ... and every other
  byte is unchanged.\<close>

definition mem_fill :: "u64 \<Rightarrow> nat \<Rightarrow> (nat \<Rightarrow> u8) \<Rightarrow> memory \<Rightarrow> memory" where
  "mem_fill d n f m = (\<lambda>x. if unat (x - d) < n then f (unat (x - d)) else m x)"

lemma mem_fill_0 [simp]: "mem_fill d 0 f m = m"
  by (simp add: mem_fill_def)

lemma store_q_fill: "store_q m d v = mem_fill d 8 (\<lambda>i. le_bytes 8 v ! i) m"
  by (simp add: store_q_def mem_fill_def word_less_nat_alt)

lemma mem_fill_add:
  assumes "j + k < 2 ^ 64"
  shows "mem_fill (d + of_nat j) k g (mem_fill d j f m)
         = mem_fill d (j + k) (\<lambda>i. if i < j then f i else g (i - j)) m"
proof
  fix x
  let ?y = "x - d"
  have s: "x - (d + of_nat j) = ?y - of_nat j" by simp
  have j: "unat (of_nat j :: u64) = j" using assms by (simp add: unat_of_nat)
  show "mem_fill (d + of_nat j) k g (mem_fill d j f m) x
        = mem_fill d (j + k) (\<lambda>i. if i < j then f i else g (i - j)) m x"
  proof (cases "unat ?y < j")
    case True
    then have "unat (?y - of_nat j) = unat ?y + 2 ^ 64 - j"
      using unat_sub_if' [of ?y "of_nat j"] j by simp
    then have "\<not> unat (x - (d + of_nat j)) < k" unfolding s using assms by simp
    with True show ?thesis by (simp add: mem_fill_def)
  next
    case False
    then have "unat (x - (d + of_nat j)) = unat ?y - j"
      unfolding s using unat_sub_if' [of ?y "of_nat j"] j by simp
    with False show ?thesis by (auto simp: mem_fill_def)
  qed
qed

text \<open>Bytes of the memory as a list, for the callers that copy between it and a buffer.\<close>

definition mem_read :: "memory \<Rightarrow> u64 \<Rightarrow> nat \<Rightarrow> u8 list" where
  "mem_read m a n = map (\<lambda>i. m (a + of_nat i)) [0..<n]"

definition mem_write :: "memory \<Rightarrow> u64 \<Rightarrow> u8 list \<Rightarrow> memory" where
  "mem_write m a bs = mem_fill a (length bs) ((!) bs) m"

lemma length_mem_read [simp]: "length (mem_read m a n) = n"
  by (simp add: mem_read_def)

lemma mem_read_write:
  assumes "length bs < 2 ^ 64"
  shows "mem_read (mem_write m a bs) a (length bs) = bs"
proof (rule nth_equalityI)
  fix i
  assume "i < length (mem_read (mem_write m a bs) a (length bs))"
  then have i: "i < length bs" by simp
  then have "unat (of_nat i :: u64) = i" using assms by (simp add: unat_of_nat)
  with i show "mem_read (mem_write m a bs) a (length bs) ! i = bs ! i"
    by (simp add: mem_read_def mem_write_def mem_fill_def)
qed simp

text \<open>Source and destination do not overlap, the obligation the contract puts on the caller.\<close>

definition apart :: "u64 \<Rightarrow> u64 \<Rightarrow> nat \<Rightarrow> bool" where
  "apart s d n \<longleftrightarrow> (\<forall>i < n. unat (s + of_nat i - d) \<ge> n)"

abbreviation copied :: "u64 \<Rightarrow> u64 \<Rightarrow> nat \<Rightarrow> memory \<Rightarrow> memory" where
  "copied s d j m \<equiv> mem_fill d j (\<lambda>i. m (s + of_nat i)) m"

lemma copied_source: "apart s d n \<Longrightarrow> i < n \<Longrightarrow> j \<le> n \<Longrightarrow> copied s d j m (s + of_nat i) = m (s + of_nat i)"
  by (auto simp: apart_def mem_fill_def)

lemma copied_extend:
  assumes "j + k < 2 ^ 64" and "\<And>i. i < k \<Longrightarrow> g i = m (s + of_nat (j + i))"
  shows "mem_fill (d + of_nat j) k g (copied s d j m) = copied s d (j + k) m"
  unfolding mem_fill_add [OF assms(1)] using assms(2) by (auto simp: mem_fill_def fun_eq_iff)

lemma copy_qwords_copied:
  assumes "apart s d n" and "n < 2 ^ 64" and "j + 8 * r \<le> n"
  shows "copy_qwords r (s + of_nat j) (d + of_nat j) (copied s d j m)
         = (s + of_nat (j + 8 * r), d + of_nat (j + 8 * r), copied s d (j + 8 * r) m)"
  using assms(3)
proof (induction r arbitrary: j)
  case (Suc r)
  let ?bs = "map (\<lambda>i. copied s d j m (s + of_nat j + of_nat i)) [0..<8]"
  have b: "?bs ! i = m (s + of_nat (j + i))" if "i < 8" for i
    using copied_source [OF assms(1), of "j + i" j m] that Suc.prems by (simp add: add.assoc)
  have "le_bytes 8 (load_q (copied s d j m) (s + of_nat j)) = ?bs"
    unfolding load_q_def using le_bytes_le_word [of ?bs, where 'a = 64] by simp
  then have "store_q (copied s d j m) (d + of_nat j) (load_q (copied s d j m) (s + of_nat j))
      = mem_fill (d + of_nat j) 8 (\<lambda>i. ?bs ! i) (copied s d j m)"
    by (simp only: store_q_fill)
  also have "\<dots> = copied s d (j + 8) m"
    by (rule copied_extend) (use Suc.prems assms(2) b in auto)
  finally have "copy_qwords (Suc r) (s + of_nat j) (d + of_nat j) (copied s d j m)
      = copy_qwords r (s + of_nat (j + 8)) (d + of_nat (j + 8)) (copied s d (j + 8) m)"
    by (simp add: Let_def add.assoc)
  also have "\<dots> = (s + of_nat (j + 8 + 8 * r), d + of_nat (j + 8 + 8 * r), copied s d (j + 8 + 8 * r) m)"
    by (rule Suc.IH) (use Suc.prems in simp)
  finally show ?case by (simp add: ac_simps)
qed simp

lemma copy_byte_loop_copied:
  assumes "apart s d n" and "n < 2 ^ 64" and "j + r \<le> n"
  shows "copy_byte_loop r (s + of_nat j) (d + of_nat j) (copied s d j m) = copied s d (j + r) m"
  using assms(3)
proof (induction r arbitrary: j)
  case (Suc r)
  have "(copied s d j m)(d + of_nat j := copied s d j m (s + of_nat j))
      = mem_fill (d + of_nat j) 1 (\<lambda>i. m (s + of_nat (j + i))) (copied s d j m)"
    using copied_source [OF assms(1), of j j m] Suc.prems
    by (auto simp: mem_fill_def fun_eq_iff unat_eq_0)
  also have "\<dots> = copied s d (j + 1) m"
    by (rule copied_extend) (use Suc.prems assms(2) in auto)
  finally show ?case using Suc.IH [of "j + 1"] Suc.prems by (simp add: ac_simps)
qed simp

lemma div8_mod8: "8 * unat (drop_bit 3 (n :: u64)) + unat (n AND 7) = unat n"
proof -
  have lt: "unat n < 2 ^ 64" using unsigned_less [of n] by simp
  have "n AND 7 = take_bit 3 n" by (simp add: take_bit_eq_mask mask_eq_exp_minus_1)
  then have "unat (n AND 7) = take_bit 3 (unat n)" by (simp only: unsigned_take_bit_eq)
  then have "unat (n AND 7) = unat n mod 8" by (simp add: take_bit_eq_mod)
  moreover have "unat (drop_bit 3 n) = drop_bit 3 (take_bit 64 (unat n))"
    by (simp only: unsigned_drop_bit_eq) simp
  then have "unat (drop_bit 3 n) = unat n div 8"
    using lt by (simp add: drop_bit_eq_div take_bit_nat_eq_self)
  ultimately show ?thesis by simp
qed

lemma asm_mem_copy_copied:
  assumes "apart s d (unat n)"
  shows "asm_mem_copy d s n m = copied s d (unat n) m"
proof -
  let ?q = "unat (drop_bit 3 n)" and ?b = "unat (n AND 7)"
  have n: "8 * ?q + ?b = unat n" by (rule div8_mod8)
  have lt: "unat n < 2 ^ 64" using unsigned_less [of n] by simp
  have "copy_qwords ?q s d m = (s + of_nat (8 * ?q), d + of_nat (8 * ?q), copied s d (8 * ?q) m)"
    using copy_qwords_copied [OF assms lt, of 0 ?q m] n by simp
  then have "asm_mem_copy d s n m
      = copy_byte_loop ?b (s + of_nat (8 * ?q)) (d + of_nat (8 * ?q)) (copied s d (8 * ?q) m)"
    by (simp add: asm_mem_copy_def Let_def)
  also have "\<dots> = copied s d (8 * ?q + ?b) m"
    by (rule copy_byte_loop_copied [OF assms lt]) (use n in simp)
  finally show ?thesis unfolding n .
qed

lemma fill_qwords_filled:
  assumes b: "\<And>i. i < 8 \<Longrightarrow> le_bytes 8 r10 ! i = b" and n: "j + 8 * r < 2 ^ 64"
  shows "fill_qwords r r10 (d + of_nat j) (mem_fill d j (\<lambda>_. b) m)
         = (d + of_nat (j + 8 * r), mem_fill d (j + 8 * r) (\<lambda>_. b) m)"
  using n
proof (induction r arbitrary: j)
  case (Suc r)
  have "store_q (mem_fill d j (\<lambda>_. b) m) (d + of_nat j) r10
      = mem_fill (d + of_nat j) 8 (\<lambda>_. b) (mem_fill d j (\<lambda>_. b) m)"
    unfolding store_q_fill by (auto simp: mem_fill_def fun_eq_iff b simp del: nth_le_bytes)
  also have "\<dots> = mem_fill d (j + 8) (\<lambda>_. b) m"
    using mem_fill_add [of j 8 d "\<lambda>_. b" "\<lambda>_. b" m] Suc.prems by simp
  finally show ?case using Suc.IH [of "j + 8"] Suc.prems by (simp add: ac_simps)
qed simp

lemma fill_byte_loop_filled:
  assumes "j + r < 2 ^ 64"
  shows "fill_byte_loop r b (d + of_nat j) (mem_fill d j (\<lambda>_. b) m) = mem_fill d (j + r) (\<lambda>_. b) m"
  using assms
proof (induction r arbitrary: j)
  case (Suc r)
  have "(mem_fill d j (\<lambda>_. b) m)(d + of_nat j := b)
      = mem_fill (d + of_nat j) 1 (\<lambda>_. b) (mem_fill d j (\<lambda>_. b) m)"
    by (auto simp: mem_fill_def fun_eq_iff unat_eq_0)
  also have "\<dots> = mem_fill d (j + 1) (\<lambda>_. b) m"
    using mem_fill_add [of j 1 d "\<lambda>_. b" "\<lambda>_. b" m] Suc.prems by simp
  finally show ?case using Suc.IH [of "j + 1"] Suc.prems by (simp add: ac_simps)
qed simp

lemma fill_loops:
  assumes "\<And>i. i < 8 \<Longrightarrow> le_bytes 8 r10 ! i = b"
  shows "(case fill_qwords (unat (drop_bit 3 (n :: u64))) r10 d m of (rdi, m') \<Rightarrow> fill_byte_loop (unat (n AND 7)) b rdi m')
         = mem_fill d (unat n) (\<lambda>_. b) m"
proof -
  let ?q = "unat (drop_bit 3 n)" and ?b = "unat (n AND 7)"
  have n: "8 * ?q + ?b = unat n" by (rule div8_mod8)
  have lt: "unat n < 2 ^ 64" using unsigned_less [of n] by simp
  have "fill_qwords ?q r10 d m = (d + of_nat (8 * ?q), mem_fill d (8 * ?q) (\<lambda>_. b) m)"
    using fill_qwords_filled [OF assms, of 0 ?q d m] n lt by simp
  then show ?thesis using fill_byte_loop_filled [of "8 * ?q" ?b b d m] n lt by simp
qed

text \<open>The pattern of \<open>asm_block_fill\<close>: eight copies of the byte.\<close>

definition byte_pattern :: "u8 \<Rightarrow> u64" where
  "byte_pattern b =
     (let r = (ucast b :: u64); r = push_bit 8 r OR r; r = push_bit 16 r OR r in push_bit 32 r OR r)"

lemma byte_pattern_bytes: "i < 8 \<Longrightarrow> le_bytes 8 (byte_pattern b) ! i = b"
proof -
  assume i: "i < 8"
  have s: "bit b k \<Longrightarrow> k < 8" for k using bit_imp_le_length [of b k] by simp
  have "bit (ucast (drop_bit (8 * i) (byte_pattern b)) :: u8) k \<longleftrightarrow> bit b k" if "k < 8" for k
  proof -
    from i consider "i = 0" | "i = 1" | "i = 2" | "i = 3" | "i = 4" | "i = 5" | "i = 6" | "i = 7" by linarith
    then show ?thesis using that s by cases (auto simp: byte_pattern_def Let_def bit_simps dest: s)
  qed
  then show ?thesis using i by (simp, intro bit_word_eqI) simp
qed

lemma asm_mem_zero_fill: "asm_mem_zero d n m = mem_fill d (unat n) (\<lambda>_. 0) m"
  unfolding asm_mem_zero_def Let_def by (rule fill_loops) simp

lemma asm_block_fill_fill: "asm_block_fill d b n m = mem_fill d (unat n) (\<lambda>_. b) m"
  using fill_loops [of "byte_pattern b" b n d m] byte_pattern_bytes
  by (simp add: asm_block_fill_def byte_pattern_def Let_def del: nth_le_bytes)

section \<open>Properties\<close>

text \<open>C16: The optimised copy is \<open>memcpy\<close>: for buffers that do not overlap, the quadword loop
  and the byte loop of \<open>asm_mem_copy\<close> together copy exactly the \<open>n\<close> source bytes to the
  destination and change no other byte of the memory.\<close>

theorem asm_mem_copy_correct:
  assumes "apart s d (unat n)"
  shows "asm_mem_copy d s n m
         = (\<lambda>x. if unat (x - d) < unat n then m (s + (x - d)) else m x)"
  unfolding asm_mem_copy_copied [OF assms] by (simp add: mem_fill_def fun_eq_iff)

theorem asm_mem_copy_correct_witness:
  "apart 0 100 (unat (11 :: u64)) \<and>
   asm_mem_copy 100 0 11 (\<lambda>x. ucast x) 105 = 5 \<and> asm_mem_copy 100 0 11 (\<lambda>x. ucast x) 111 = 111"
proof -
  have "i = 0 \<or> i = 1 \<or> i = 2 \<or> i = 3 \<or> i = 4 \<or> i = 5 \<or> i = 6 \<or> i = 7 \<or> i = 8 \<or> i = 9 \<or> i = 10"
    if "i < 11" for i :: nat using that by arith
  then have a: "apart 0 100 (unat (11 :: u64))" unfolding apart_def by fastforce
  then show ?thesis using asm_mem_copy_correct [OF a, of "\<lambda>x. ucast x"] by simp
qed

text \<open>\<open>asm_mem_zero\<close> and \<open>asm_block_fill\<close>, with its byte pattern built by shifts, set exactly
  the \<open>n\<close> bytes from the pointer on to \<open>0\<close> and to the byte, for every length and
  alignment, and change nothing else.\<close>

lemma asm_fill_correct:
  "asm_mem_zero d n m = (\<lambda>x. if unat (x - d) < unat n then 0 else m x) \<and>
   asm_block_fill d b n m = (\<lambda>x. if unat (x - d) < unat n then b else m x)"
  by (simp add: asm_mem_zero_fill asm_block_fill_fill mem_fill_def fun_eq_iff)

end
