(* ===== verification/VM_Mem.thy ===== *)
theory VM_Mem
  imports Mem_Asm
begin

text \<open>
  Guest memory and virtual CPU of the VM: \<open>VM/devices/vm_mem.c\<close>, \<open>vm_cpu.c\<close> and the loader
  of \<open>vm_loader.c\<close>. The guest RAM is a block of the host memory: \<open>ram_load\<close> and \<open>ram_store\<close>
  are the accesses through \<open>mem->ram\<close>, and they are \<open>None\<close> outside the block, which is
  \<open>mem->size\<close> bytes long from \<open>vm_mem_init\<close> on. Guest addresses are 32-bit words and wrap as
  in the code.
\<close>

section \<open>Guest RAM\<close>

abbreviation GUEST_RAM_SIZE :: u64 where
  "GUEST_RAM_SIZE \<equiv> 0x1000000"

abbreviation GUEST_VGA_BASE :: u64 where
  "GUEST_VGA_BASE \<equiv> 0xb8000"

abbreviation GUEST_VGA_SIZE :: u64 where
  "GUEST_VGA_SIZE \<equiv> 4000"

record vm_mem =
  m_ram :: ptr
  m_size :: u64

definition ram_load :: "vm_mem \<Rightarrow> memory \<Rightarrow> u64 \<Rightarrow> nat \<Rightarrow> u8 list option" where
  "ram_load mm m off n =
     (if unat off + n \<le> unat (m_size mm) then Some (mem_read m (m_ram mm + off) n) else None)"

definition ram_store :: "vm_mem \<Rightarrow> memory \<Rightarrow> u64 \<Rightarrow> u8 list \<Rightarrow> memory option" where
  "ram_store mm m off bs =
     (if unat off + length bs \<le> unat (m_size mm) then Some (mem_write m (m_ram mm + off) bs) else None)"

text \<open>\<open>r\<close> is the block the allocator returns (\<open>NULL\<close> when it fails).\<close>

definition vm_mem_init :: "ptr \<Rightarrow> vm_mem \<Rightarrow> memory \<Rightarrow> int \<times> vm_mem \<times> memory" where
  "vm_mem_init r mm m =
     (let mm = mm\<lparr>m_ram := r\<rparr>
      in if m_ram mm = NULL then (- 1, mm, m)
         else let mm = mm\<lparr>m_size := GUEST_RAM_SIZE\<rparr>
              in (0, mm, mem_fill (m_ram mm) (unat (m_size mm)) (\<lambda>_. 0) m))"

definition vm_mem_destroy :: "vm_mem \<Rightarrow> vm_mem" where
  "vm_mem_destroy mm = mm\<lparr>m_ram := NULL, m_size := 0\<rparr>"

definition vm_mem_zero :: "vm_mem \<Rightarrow> memory \<Rightarrow> memory" where
  "vm_mem_zero mm m = (if m_ram mm = NULL then m else mem_fill (m_ram mm) (unat (m_size mm)) (\<lambda>_. 0) m)"

definition vm_mem_load :: "vm_mem \<Rightarrow> memory \<Rightarrow> u32 \<Rightarrow> u8 list \<Rightarrow> (int \<times> memory) option" where
  "vm_mem_load mm m guest_addr src =
     (if m_ram mm = NULL then Some (- 1, m)
      else if ucast guest_addr + of_nat (length src) > m_size mm then Some (- 1, m)
      else do { m \<leftarrow> ram_store mm m (ucast guest_addr) src; Some (0, m) })"

text \<open>\<open>Some None\<close> is the result \<open>-1\<close>, which leaves the destination as it was.\<close>

definition vm_mem_read :: "vm_mem \<Rightarrow> memory \<Rightarrow> u32 \<Rightarrow> u64 \<Rightarrow> u8 list option option" where
  "vm_mem_read mm m guest_addr n =
     (if m_ram mm = NULL then Some None
      else if ucast guest_addr + n > m_size mm then Some None
      else do { bs \<leftarrow> ram_load mm m (ucast guest_addr) (unat n); Some (Some bs) })"

definition vm_mem_write :: "vm_mem \<Rightarrow> memory \<Rightarrow> u32 \<Rightarrow> u8 list \<Rightarrow> (int \<times> memory) option" where
  "vm_mem_write mm m guest_addr src =
     (if m_ram mm = NULL then Some (- 1, m)
      else if ucast guest_addr + of_nat (length src) > m_size mm then Some (- 1, m)
      else do { m \<leftarrow> ram_store mm m (ucast guest_addr) src; Some (0, m) })"

definition vm_mem_read8 :: "vm_mem \<Rightarrow> memory \<Rightarrow> u32 \<Rightarrow> u8 option" where
  "vm_mem_read8 mm m guest_addr =
     (if m_ram mm = NULL \<or> ucast guest_addr \<ge> m_size mm then Some 0
      else do { bs \<leftarrow> ram_load mm m (ucast guest_addr) 1; Some (hd bs) })"

definition vm_mem_read16 :: "vm_mem \<Rightarrow> memory \<Rightarrow> u32 \<Rightarrow> u16 option" where
  "vm_mem_read16 mm m guest_addr = do {
     r \<leftarrow> vm_mem_read mm m guest_addr 2;
     Some (case r of None \<Rightarrow> 0 | Some bs \<Rightarrow> le_word bs)
   }"

definition vm_mem_write8 :: "vm_mem \<Rightarrow> memory \<Rightarrow> u32 \<Rightarrow> u8 \<Rightarrow> memory option" where
  "vm_mem_write8 mm m guest_addr v =
     (if m_ram mm = NULL \<or> ucast guest_addr \<ge> m_size mm then Some m
      else ram_store mm m (ucast guest_addr) [v])"

definition vm_mem_write16 :: "vm_mem \<Rightarrow> memory \<Rightarrow> u32 \<Rightarrow> u16 \<Rightarrow> memory option" where
  "vm_mem_write16 mm m guest_addr v = do {
     (rc, m) \<leftarrow> vm_mem_write mm m guest_addr (le_bytes 2 v);
     Some m
   }"

section \<open>Loader\<close>

abbreviation GUEST_LOAD_ADDR :: u32 where
  "GUEST_LOAD_ADDR \<equiv> 0x7c00"

abbreviation VM_BOOT_ENTRY_CS :: u32 where
  "VM_BOOT_ENTRY_CS \<equiv> 0x07c0"

definition VM_BOOT_ENTRY_IP :: u32 where
  "VM_BOOT_ENTRY_IP = 0"

definition vm_load_binary :: "vm_mem \<Rightarrow> memory \<Rightarrow> u32 \<Rightarrow> u8 list \<Rightarrow> (int \<times> memory) option" where
  "vm_load_binary mm m addr data =
     (if m_ram mm = NULL then Some (- 1, m)
      else if ucast addr + of_nat (length data) > m_size mm then Some (- 1, m)
      else do { m \<leftarrow> ram_store mm m (ucast addr) data; Some (0, m) })"

text \<open>\<open>file\<close> is the content of the file at \<open>path\<close> (\<open>None\<close> when it cannot be opened), \<open>alloc\<close>
  whether the temporary buffer could be allocated, \<open>n\<close> the number of bytes \<open>fread\<close> returns.\<close>

definition vm_load_file :: "vm_mem \<Rightarrow> memory \<Rightarrow> u32 \<Rightarrow> u8 list option \<Rightarrow> bool \<Rightarrow> nat \<Rightarrow> (int \<times> memory) option" where
  "vm_load_file mm m addr file alloc n =
     (case file of
        None \<Rightarrow> Some (- 1, m)
      | Some bytes \<Rightarrow>
          let sz = length bytes
          in if sz = 0 \<or> ucast addr + of_nat sz > m_size mm then Some (- 1, m)
             else if \<not> alloc then Some (- 1, m)
             else if n \<noteq> sz then Some (- 1, m)
             else do { m \<leftarrow> ram_store mm m (ucast addr) bytes; Some (0, m) })"

section \<open>Virtual CPU\<close>

abbreviation VM_CR0_PG :: u32 where
  "VM_CR0_PG \<equiv> 0x80000000"

record vm_cpu =
  c_eax :: u32
  c_ecx :: u32
  c_edx :: u32
  c_ebx :: u32
  c_esp :: u32
  c_ebp :: u32
  c_esi :: u32
  c_edi :: u32
  c_eip :: u32
  c_cs :: u32
  c_ds :: u32
  c_es :: u32
  c_ss :: u32
  c_fs :: u32
  c_gs :: u32
  c_eflags :: u32
  c_cr0 :: u32
  c_cr3 :: u32
  c_halted :: bool

definition vm_cpu_init :: vm_cpu where
  "vm_cpu_init =
     \<lparr>c_eax = 0, c_ecx = 0, c_edx = 0, c_ebx = 0, c_esp = 0, c_ebp = 0, c_esi = 0, c_edi = 0,
      c_eip = 0, c_cs = 0x07c0, c_ds = 0, c_es = 0, c_ss = 0, c_fs = 0, c_gs = 0, c_eflags = 0,
      c_cr0 = 0, c_cr3 = 0, c_halted = False\<rparr>"

definition vm_cpu_linear_addr :: "u32 \<Rightarrow> u32 \<Rightarrow> u32" where
  "vm_cpu_linear_addr seg offset = push_bit 4 seg + offset"

definition vm_cpu_translate :: "vm_mem \<Rightarrow> memory \<Rightarrow> u32 \<Rightarrow> u32 \<Rightarrow> u32 \<Rightarrow> u32 option" where
  "vm_cpu_translate mm m cr0 cr3 linear =
     (if cr0 AND VM_CR0_PG = 0 then Some linear
      else if m_ram mm = NULL \<or> m_size mm < 4096 then Some linear
      else
        let pd_base = cr3 AND 0xFFFFF000;
            pde_idx = drop_bit 22 linear AND 0x3FF;
            pde_addr = pd_base + pde_idx * 4
        in if ucast (pde_addr + 4) > m_size mm then Some linear
           else do {
             pde_bytes \<leftarrow> ram_load mm m (ucast pde_addr) 4;
             let pde = le_word pde_bytes;
             if pde AND 1 = (0 :: u32) then Some linear
             else
               let pt_base = pde AND 0xFFFFF000;
                   pte_idx = drop_bit 12 linear AND 0x3FF;
                   pte_addr = pt_base + pte_idx * 4
               in if ucast (pte_addr + 4) > m_size mm then Some linear
                  else do {
                    pte_bytes \<leftarrow> ram_load mm m (ucast pte_addr) 4;
                    let pte = le_word pte_bytes;
                    if pte AND 1 = (0 :: u32) then Some linear
                    else Some ((pte AND 0xFFFFF000) + (linear AND 0xFFF))
                  }
           })"

section \<open>Reading and writing\<close>

abbreviation ram_ok :: "vm_mem \<Rightarrow> bool" where
  "ram_ok mm \<equiv> m_ram mm \<noteq> NULL \<and> m_size mm = GUEST_RAM_SIZE"

lemma unat_u32_less: "unat (a :: u32) < 4294967296"
  using unsigned_less [of a] by simp

lemma unat_ucast_32_64 [simp]: "unat (ucast (a :: u32) :: u64) = unat a"
  using unat_u32_less [of a] by (simp add: unsigned_ucast_eq take_bit_nat_eq_self)

lemma range_check:
  assumes "unat n \<le> 2 ^ 32"
  shows "ucast (a :: u32) + n > (sz :: u64) \<longleftrightarrow> unat a + unat n > unat sz"
proof -
  have "unat (ucast a + n :: u64) = unat a + unat n"
    using assms unat_u32_less [of a] by (subst unat_add_lem [THEN iffD1]) simp_all
  then show ?thesis by (simp add: word_less_nat_alt)
qed

lemma vm_mem_read_eq:
  assumes "unat n \<le> 2 ^ 32"
  shows "vm_mem_read mm m a n =
           Some (if m_ram mm \<noteq> NULL \<and> unat a + unat n \<le> unat (m_size mm)
                 then Some (mem_read m (m_ram mm + ucast a) (unat n)) else None)"
  using range_check [OF assms, of "m_size mm" a] by (auto simp: vm_mem_read_def ram_load_def)

lemma unat_of_length: "length xs \<le> 2 ^ 32 \<Longrightarrow> unat (of_nat (length xs) :: u64) = length xs"
  by (simp add: unat_of_nat)

lemma vm_mem_write_eq:
  assumes "length bs \<le> 2 ^ 32"
  shows "vm_mem_write mm m a bs =
           Some (if m_ram mm \<noteq> NULL \<and> unat a + length bs \<le> unat (m_size mm)
                 then (0, mem_write m (m_ram mm + ucast a) bs) else (- 1, m))"
  using range_check [of "of_nat (length bs)" "m_size mm" a] unat_of_length [OF assms] assms
  by (auto simp: vm_mem_write_def ram_store_def)

lemma vm_load_binary_eq:
  assumes "length bs \<le> 2 ^ 32"
  shows "vm_load_binary mm m a bs = vm_mem_write mm m a bs"
  by (simp add: vm_load_binary_def vm_mem_write_def)

lemma vm_mem_write8_eq:
  "vm_mem_write8 mm m a v =
     Some (if m_ram mm \<noteq> NULL \<and> unat a < unat (m_size mm) then mem_write m (m_ram mm + ucast a) [v] else m)"
  by (auto simp: vm_mem_write8_def ram_store_def word_le_nat_alt)

lemma vm_mem_read_write:
  assumes "length bs \<le> 2 ^ 32" and "vm_mem_write mm m a bs = Some (0, m')"
  shows "vm_mem_read mm m' a (of_nat (length bs)) = Some (Some bs)"
  using assms unat_of_length [OF assms(1)] mem_read_write [of bs m "m_ram mm + ucast a"]
  by (auto simp: vm_mem_read_eq vm_mem_write_eq split: if_splits)

section \<open>Address translation\<close>

text \<open>The entry of a page directory or page table that an address selects.\<close>

definition entry_addr :: "u32 \<Rightarrow> u32 \<Rightarrow> u32" where
  "entry_addr base idx = (base AND 0xFFFFF000) + (idx AND 0x3FF) * 4"

lemma unat_mod_4: "unat (w :: u32) mod 4 = 0 \<longleftrightarrow> take_bit 2 w = 0"
proof -
  have "unat (take_bit 2 w) = unat w mod 4" by (simp only: unsigned_take_bit_eq) (simp add: take_bit_eq_mod)
  then show ?thesis by (metis unat_eq_zero)
qed

lemma entry_addr_aligned: "unat (entry_addr base idx) mod 4 = 0"
proof -
  have "take_bit 2 (base AND 0xFFFFF000) = take_bit 2 base AND take_bit 2 0xFFFFF000" by (rule take_bit_and)
  then have "unat (base AND 0xFFFFF000) mod 4 = 0" by (simp add: unat_mod_4)
  moreover have "unat ((idx AND 0x3FF) * 4) mod 4 = 0"
    using take_bit_push_bit [of 2 2 "idx AND 0x3FF"] by (simp add: unat_mod_4 push_bit_eq_mult)
  ultimately have "(unat (base AND 0xFFFFF000) + unat ((idx AND 0x3FF) * 4)) mod 2 ^ 32 mod 4 = 0"
    by (subst mod_mod_cancel) (auto simp: mod_add_eq [symmetric] simp del: mod_add_eq)
  then show ?thesis unfolding entry_addr_def unat_word_ariths by simp
qed

lemma entry_load:
  assumes "m_size mm = GUEST_RAM_SIZE" and "\<not> ucast (entry_addr base idx + 4) > m_size mm"
  shows "ram_load mm m (ucast (entry_addr base idx)) 4 =
           (if entry_addr base idx = 0xFFFFFFFC then None
            else Some (mem_read m (m_ram mm + ucast (entry_addr base idx)) 4))"
proof (cases "entry_addr base idx = 0xFFFFFFFC")
  case False
  let ?p = "entry_addr base idx"
  have "unat ?p \<noteq> 0xFFFFFFFC" using False unat_inj [of ?p "0xFFFFFFFC"] by simp
  moreover obtain k where "unat ?p = 4 * k" using entry_addr_aligned [of base idx] by (auto simp: mod_eq_0_iff_dvd)
  ultimately have "unat ?p + 4 < 2 ^ 32" using unat_u32_less [of ?p] by simp
  then have "unat (?p + 4) = unat ?p + 4" by (subst unat_add_lem [THEN iffD1]) simp_all
  then show ?thesis using assms False by (simp add: ram_load_def word_less_nat_alt)
qed (use assms in \<open>simp add: ram_load_def\<close>)

text \<open>The page directory entry that a linear address selects, and where its walk leaves the
  directory or the table: at the last word of the address space, where adding 4 to the
  entry's address wraps to 0 and passes the range check.\<close>

definition pde_of :: "vm_mem \<Rightarrow> memory \<Rightarrow> u32 \<Rightarrow> u32 \<Rightarrow> u32" where
  "pde_of mm m cr3 linear = le_word (mem_read m (m_ram mm + ucast (entry_addr cr3 (drop_bit 22 linear))) 4)"

definition pte_of :: "vm_mem \<Rightarrow> memory \<Rightarrow> u32 \<Rightarrow> u32 \<Rightarrow> u32" where
  "pte_of mm m pde linear = le_word (mem_read m (m_ram mm + ucast (entry_addr pde (drop_bit 12 linear))) 4)"

definition walk_wraps :: "vm_mem \<Rightarrow> memory \<Rightarrow> u32 \<Rightarrow> u32 \<Rightarrow> u32 \<Rightarrow> bool" where
  "walk_wraps mm m cr0 cr3 linear \<longleftrightarrow>
     cr0 AND VM_CR0_PG \<noteq> 0 \<and>
     (entry_addr cr3 (drop_bit 22 linear) = 0xFFFFFFFC \<or>
      ucast (entry_addr cr3 (drop_bit 22 linear) + 4) \<le> m_size mm \<and>
      pde_of mm m cr3 linear AND 1 \<noteq> 0 \<and>
      entry_addr (pde_of mm m cr3 linear) (drop_bit 12 linear) = 0xFFFFFFFC)"

text \<open>Otherwise the walk ends in a frame, or in no translation at all.\<close>

definition walk_frame :: "vm_mem \<Rightarrow> memory \<Rightarrow> u32 \<Rightarrow> u32 \<Rightarrow> u32 \<Rightarrow> u32 option" where
  "walk_frame mm m cr0 cr3 linear =
     (let pde = pde_of mm m cr3 linear; pte = pte_of mm m pde linear
      in if cr0 AND VM_CR0_PG \<noteq> 0 \<and> ucast (entry_addr cr3 (drop_bit 22 linear) + 4) \<le> m_size mm \<and> pde AND 1 \<noteq> 0 \<and>
            ucast (entry_addr pde (drop_bit 12 linear) + 4) \<le> m_size mm \<and> pte AND 1 \<noteq> 0
         then Some (pte AND 0xFFFFF000) else None)"

lemma vm_cpu_translate_eq:
  assumes "ram_ok mm"
  shows "vm_cpu_translate mm m cr0 cr3 linear =
           (if walk_wraps mm m cr0 cr3 linear then None
            else case walk_frame mm m cr0 cr3 linear of
              None \<Rightarrow> Some linear | Some f \<Rightarrow> Some (f + (linear AND 0xFFF)))"
proof -
  note tr = vm_cpu_translate_def [unfolded Let_def, folded entry_addr_def]
  note load = entry_load [of mm, unfolded not_less]
  have "ram_load mm m 0xFFFFFFFC 4 = None" using assms by (simp add: ram_load_def)
  then show ?thesis using assms unfolding tr walk_wraps_def walk_frame_def Let_def pde_of_def pte_of_def
    by (simp add: load not_less [symmetric])
qed

lemma page_of_address:
  "drop_bit 12 ((f AND 0xFFFFF000) + (l AND 0xFFF)) = drop_bit 12 (f :: u32)"
  "((f AND 0xFFFFF000) + (l AND 0xFFF)) AND 0xFFF = l AND (0xFFF :: u32)"
proof -
  have m: "(0xFFFFF000 :: u32) = NOT (mask 12)" "(0xFFF :: u32) = mask 12" by (simp_all add: mask_eq_exp_minus_1)
  have "(f AND NOT (mask 12)) + (l AND mask 12) = (f AND NOT (mask 12)) OR (l AND mask 12)"
    by (rule disjunctive_add) (simp add: bit_simps)
  moreover have "n < 20" if "bit f (12 + n)" for n using bit_imp_le_length [OF that] by simp
  ultimately show "drop_bit 12 ((f AND 0xFFFFF000) + (l AND 0xFFF)) = drop_bit 12 f"
    and "((f AND 0xFFFFF000) + (l AND 0xFFF)) AND 0xFFF = l AND 0xFFF"
    unfolding m by (auto intro!: bit_word_eqI simp: bit_simps)
qed

lemma walk_frame_page:
  assumes "drop_bit 12 l = drop_bit 12 (l' :: u32)"
  shows "walk_frame mm m cr0 cr3 l = walk_frame mm m cr0 cr3 l'"
proof -
  have "drop_bit 22 l = drop_bit 22 l'"
    using arg_cong [OF assms, of "drop_bit 10"] by simp
  then show ?thesis using assms by (simp add: walk_frame_def pde_of_def pte_of_def)
qed

section \<open>Properties\<close>

text \<open>C27: Address translation, with 16 MiB of guest RAM and whatever the guest has put into the
  control registers and the page tables: the walk reads outside the guest RAM exactly when it
  selects the entry at \<open>0xFFFFFFFC\<close> of a directory or table in the last page of the address
  space, where the range check of the code wraps; otherwise it yields an address with the same
  page offset, and all addresses of a page go to one frame.\<close>

theorem vm_translate_pages:
  assumes "ram_ok mm"
  shows "(vm_cpu_translate mm m cr0 cr3 l = None \<longleftrightarrow> walk_wraps mm m cr0 cr3 l) \<and>
         (\<forall>p. vm_cpu_translate mm m cr0 cr3 l = Some p \<longrightarrow> p AND 0xFFF = l AND 0xFFF) \<and>
         (\<forall>p l' p'. drop_bit 12 l = drop_bit 12 l' \<and> vm_cpu_translate mm m cr0 cr3 l = Some p \<and>
            vm_cpu_translate mm m cr0 cr3 l' = Some p' \<longrightarrow> drop_bit 12 p = drop_bit 12 p')"
proof -
  note eq = vm_cpu_translate_eq [OF assms]
  have page: "(walk_frame mm m cr0 cr3 k = None \<and> p = k) \<or>
      (\<exists>g. walk_frame mm m cr0 cr3 k = Some (g AND 0xFFFFF000) \<and> p = (g AND 0xFFFFF000) + (k AND 0xFFF))"
    if "vm_cpu_translate mm m cr0 cr3 k = Some p" for k p
  proof (cases "walk_frame mm m cr0 cr3 k")
    case (Some f)
    then obtain g where "f = g AND 0xFFFFF000" by (auto simp: walk_frame_def Let_def split: if_splits)
    then show ?thesis using that Some by (intro disjI2 exI [of _ g]) (simp add: eq split: if_splits)
  qed (use that in \<open>simp add: eq split: if_splits\<close>)
  have "p AND 0xFFF = l AND 0xFFF" if "vm_cpu_translate mm m cr0 cr3 l = Some p" for p
    using page [OF that] page_of_address(2) by metis
  moreover have "drop_bit 12 p = drop_bit 12 p'"
    if "drop_bit 12 l = drop_bit 12 l'" "vm_cpu_translate mm m cr0 cr3 l = Some p"
      "vm_cpu_translate mm m cr0 cr3 l' = Some p'" for p l' p'
    using page [OF that(2)] page [OF that(3)] walk_frame_page [OF that(1), of mm m cr0 cr3] that(1) page_of_address(1)
    by (metis option.distinct(1) option.inject)
  moreover have "vm_cpu_translate mm m cr0 cr3 l = None \<longleftrightarrow> walk_wraps mm m cr0 cr3 l"
    by (simp add: eq split: option.splits)
  ultimately show ?thesis by blast
qed

theorem vm_translate_pages_witness:
  "let mm = \<lparr>m_ram = 0x10000, m_size = GUEST_RAM_SIZE\<rparr>; m = (\<lambda>_. 0)
   in ram_ok mm \<and> vm_cpu_translate mm m VM_CR0_PG 0xFFFFF000 0xFFC00123 = None \<and>
      vm_cpu_translate mm m VM_CR0_PG 0xFFFFF000 0x00400123 = Some 0x00400123"
  using vm_translate_pages [of "\<lparr>m_ram = 0x10000, m_size = GUEST_RAM_SIZE\<rparr>" "\<lambda>_. 0" VM_CR0_PG "0xFFFFF000" "0xFFC00123"]
  by (simp add: vm_cpu_translate_def walk_wraps_def entry_addr_def)

text \<open>The guest memory is a memory: a write inside the RAM is read back, changes no other byte of
  the host memory, and reads and writes that reach past the end are refused and change
  nothing. None of them leaves the block of the guest RAM.\<close>

lemma vm_mem_rw:
  assumes "length bs \<le> 2 ^ 32" and "unat n \<le> 2 ^ 32"
  shows "\<exists>rc m'. vm_mem_write mm m a bs = Some (rc, m') \<and>
           (rc = 0 \<longleftrightarrow> m_ram mm \<noteq> NULL \<and> unat a + length bs \<le> unat (m_size mm)) \<and>
           (rc = 0 \<longrightarrow> vm_mem_read mm m' a (of_nat (length bs)) = Some (Some bs)) \<and>
           (rc \<noteq> 0 \<longrightarrow> rc = - 1 \<and> m' = m) \<and>
           (\<forall>x. unat (x - (m_ram mm + ucast a)) \<ge> length bs \<longrightarrow> m' x = m x) \<and>
           vm_mem_read mm m a n \<noteq> None"
  using vm_mem_read_write [OF assms(1), of mm m a]
  unfolding vm_mem_write_eq [OF assms(1)] vm_mem_read_eq [OF assms(2)]
  by (auto simp: mem_write_def mem_fill_def)

end
