(* ===== verification/VM_Decode.thy ===== *)
theory VM_Decode
  imports VM_Mem
begin

text \<open>
  The instruction decoder of the VM, \<open>VM/devices/vm_decode.c\<close>. Bit fields of the C structures
  are words of their width, so a value that does not fit is cut off as in the code. The
  result is \<open>None\<close> for a read outside the guest RAM, \<open>Some None\<close> for the error code \<open>-1\<close> and
  \<open>Some (Some i)\<close> for a decoded instruction.
\<close>

section \<open>The code\<close>

datatype vm_opcode =
    VM_OP_NOP
  | VM_OP_HLT
  | VM_OP_IN
  | VM_OP_OUT
  | VM_OP_IN_DX
  | VM_OP_OUT_DX
  | VM_OP_MOV
  | VM_OP_ADD
  | VM_OP_SUB
  | VM_OP_INC
  | VM_OP_DEC
  | VM_OP_CMP
  | VM_OP_TEST
  | VM_OP_PUSH
  | VM_OP_POP
  | VM_OP_JMP
  | VM_OP_JZ
  | VM_OP_JNZ
  | VM_OP_INT
  | VM_OP_IRET
  | VM_OP_RET
  | VM_OP_STOSB
  | VM_OP_MOV_CR
  | VM_OP_UNKNOWN

record vm_modrm =
  md_valid :: bool
  md_mod :: "2 word"
  md_reg :: "3 word"
  md_rm :: "3 word"
  md_disp :: u32
  md_disp_bytes :: nat

record vm_sib =
  sb_valid :: bool
  sb_scale :: "2 word"
  sb_index :: "3 word"
  sb_base :: "3 word"

record vm_instr =
  i_op :: vm_opcode
  i_dst_reg :: int
  i_src_reg :: int
  i_imm :: u32
  i_mem_addr :: u32
  i_mem_size :: int
  i_size :: u32
  i_modrm :: vm_modrm
  i_sib :: vm_sib

definition modrm_clear :: vm_modrm where
  "modrm_clear = \<lparr>md_valid = False, md_mod = 0, md_reg = 0, md_rm = 0, md_disp = 0, md_disp_bytes = 0\<rparr>"

definition sib_clear :: vm_sib where
  "sib_clear = \<lparr>sb_valid = False, sb_scale = 0, sb_index = 0, sb_base = 0\<rparr>"

text \<open>\<open>mem[a]\<close>, and the four bytes from \<open>a\<close> on assembled with shifts.\<close>

definition byte_at :: "vm_mem \<Rightarrow> memory \<Rightarrow> u32 \<Rightarrow> u8 option" where
  "byte_at mm m a = do { bs \<leftarrow> ram_load mm m (ucast a) 1; Some (hd bs) }"

definition word_at :: "vm_mem \<Rightarrow> memory \<Rightarrow> u32 \<Rightarrow> u32 option" where
  "word_at mm m a = do {
     b0 \<leftarrow> byte_at mm m a;
     b1 \<leftarrow> byte_at mm m (a + 1);
     b2 \<leftarrow> byte_at mm m (a + 2);
     b3 \<leftarrow> byte_at mm m (a + 3);
     Some (ucast b0 OR push_bit 8 (ucast b1) OR push_bit 16 (ucast b2) OR push_bit 24 (ucast b3))
   }"

text \<open>The displacement after the ModRM byte, and the SIB byte with its displacement.\<close>

definition decode_disp :: "vm_mem \<Rightarrow> memory \<Rightarrow> u32 \<Rightarrow> vm_modrm \<Rightarrow> (nat \<times> vm_modrm) option" where
  "decode_disp mm m addr out =
     (if md_mod out = 1 then do {
        d \<leftarrow> byte_at mm m (addr + 1);
        Some (2, out\<lparr>md_disp := scast d, md_disp_bytes := 1\<rparr>)
      }
      else if md_mod out = 2 \<or> md_mod out = 0 \<and> md_rm out = 5 then do {
        d \<leftarrow> word_at mm m (addr + 1);
        Some (5, out\<lparr>md_disp := d, md_disp_bytes := 4\<rparr>)
      }
      else Some (1, out))"

definition decode_sib :: "vm_mem \<Rightarrow> memory \<Rightarrow> u32 \<Rightarrow> nat \<Rightarrow> vm_modrm \<Rightarrow> vm_sib \<Rightarrow> (nat \<times> vm_modrm \<times> vm_sib) option" where
  "decode_sib mm m addr n out sib_out =
     (if md_mod out \<noteq> 3 \<and> md_rm out = 4 then do {
        s \<leftarrow> byte_at mm m (addr + of_nat n);
        let sib_out = sib_out\<lparr>sb_valid := True,
                              sb_scale := ucast (push_bit (unat (drop_bit 6 s AND 3)) (1 :: u32)),
                              sb_index := ucast (drop_bit 3 s AND 7),
                              sb_base := ucast (s AND 7)\<rparr>;
        let n = n + 1;
        if md_mod out = 0 \<and> sb_base sib_out = 5 then do {
          d \<leftarrow> word_at mm m (addr + of_nat n);
          Some (n + 4, out\<lparr>md_disp := d, md_disp_bytes := 4\<rparr>, sib_out)
        }
        else Some (n, out, sib_out)
      }
      else Some (n, out, sib_out))"

definition decode_modrm :: "vm_mem \<Rightarrow> memory \<Rightarrow> u32 \<Rightarrow> (nat \<times> vm_modrm \<times> vm_sib) option option" where
  "decode_modrm mm m addr =
     (if m_size mm < 6 \<or> ucast (addr + 6) > m_size mm then Some None
      else do {
        b \<leftarrow> byte_at mm m addr;
        let out = \<lparr>md_valid = True, md_mod = ucast (drop_bit 6 b AND 3), md_reg = ucast (drop_bit 3 b AND 7),
                   md_rm = ucast (b AND 7), md_disp = 0, md_disp_bytes = 0\<rparr>;
        (n, out) \<leftarrow> decode_disp mm m addr out;
        r \<leftarrow> decode_sib mm m addr n out sib_clear;
        Some (Some r)
      })"

definition decode_mov_r8_imm8 :: "vm_mem \<Rightarrow> memory \<Rightarrow> u32 \<Rightarrow> vm_instr \<Rightarrow> vm_instr option option" where
  "decode_mov_r8_imm8 mm m addr out = do {
     op \<leftarrow> byte_at mm m addr;
     let reg = uint op - 0xB0;
     if reg < 0 \<or> reg > 7 then Some None
     else do {
       b \<leftarrow> byte_at mm m (addr + 1);
       Some (Some (out\<lparr>i_op := VM_OP_MOV, i_dst_reg := reg, i_src_reg := - 1, i_imm := ucast b, i_size := 2\<rparr>))
     }
   }"

definition decode_mov_r32_imm32 :: "vm_mem \<Rightarrow> memory \<Rightarrow> u32 \<Rightarrow> vm_instr \<Rightarrow> vm_instr option option" where
  "decode_mov_r32_imm32 mm m addr out = do {
     op \<leftarrow> byte_at mm m addr;
     let reg = uint op - 0xB8;
     if reg < 0 \<or> reg > 7 then Some None
     else do {
       w \<leftarrow> word_at mm m (addr + 1);
       Some (Some (out\<lparr>i_op := VM_OP_MOV, i_dst_reg := reg, i_src_reg := - 1, i_imm := w, i_size := 5\<rparr>))
     }
   }"

text \<open>The ModRM byte of the instructions that only take register operands: \<open>off\<close> is the length
  of the opcode.\<close>

definition decode_regs :: "vm_mem \<Rightarrow> memory \<Rightarrow> u32 \<Rightarrow> u32 \<Rightarrow> vm_instr \<Rightarrow> (nat \<times> vm_instr) option option" where
  "decode_regs mm m addr off out = do {
     r \<leftarrow> decode_modrm mm m (addr + off);
     case r of
       None \<Rightarrow> Some None
     | Some (n, md, sb) \<Rightarrow>
         if md_mod md \<noteq> 3 then Some None else Some (Some (n, out\<lparr>i_modrm := md, i_sib := sb\<rparr>))
   }"

text \<open>Two-byte opcodes: moves from (\<open>dir = 0\<close>) and to (\<open>dir = 1\<close>) a control register.\<close>

definition decode_mov_cr :: "vm_mem \<Rightarrow> memory \<Rightarrow> u32 \<Rightarrow> u32 \<Rightarrow> vm_instr \<Rightarrow> vm_instr option option" where
  "decode_mov_cr mm m addr dir out = do {
     r \<leftarrow> decode_regs mm m addr 2 out;
     case r of
       None \<Rightarrow> Some None
     | Some (n, out) \<Rightarrow>
         Some (Some (out\<lparr>i_op := VM_OP_MOV_CR, i_dst_reg := uint (md_reg (i_modrm out)),
                         i_src_reg := uint (md_rm (i_modrm out)), i_imm := dir, i_size := of_nat (2 + n)\<rparr>))
   }"

text \<open>Addition and subtraction on registers; \<open>rm_dst\<close> tells which operand is the destination.\<close>

definition decode_alu_regs :: "vm_mem \<Rightarrow> memory \<Rightarrow> u32 \<Rightarrow> vm_opcode \<Rightarrow> bool \<Rightarrow> vm_instr \<Rightarrow> vm_instr option option" where
  "decode_alu_regs mm m addr op rm_dst out = do {
     r \<leftarrow> decode_regs mm m addr 1 out;
     case r of
       None \<Rightarrow> Some None
     | Some (n, out) \<Rightarrow>
         let reg = uint (md_reg (i_modrm out)); rm = uint (md_rm (i_modrm out))
         in Some (Some (out\<lparr>i_op := op, i_dst_reg := (if rm_dst then rm else reg),
                            i_src_reg := (if rm_dst then reg else rm), i_size := of_nat (1 + n)\<rparr>))
   }"

definition decode_alu_imm8 :: "vm_mem \<Rightarrow> memory \<Rightarrow> u32 \<Rightarrow> vm_instr \<Rightarrow> vm_instr option option" where
  "decode_alu_imm8 mm m addr out = do {
     r \<leftarrow> decode_regs mm m addr 1 out;
     case r of
       None \<Rightarrow> Some None
     | Some (n, out) \<Rightarrow>
         if ucast (addr + 1 + of_nat n + 1) > m_size mm then Some None
         else
           let ext = md_reg (i_modrm out)
           in if ext = 0 \<or> ext = 5 then do {
                b \<leftarrow> byte_at mm m (addr + 1 + of_nat n);
                Some (Some (out\<lparr>i_op := (if ext = 0 then VM_OP_ADD else VM_OP_SUB),
                                i_dst_reg := uint (md_rm (i_modrm out)), i_src_reg := - 1,
                                i_imm := scast b, i_size := of_nat (1 + n + 1)\<rparr>))
              }
              else Some None
   }"

text \<open>The opcodes that encode a register in their low bits.\<close>

definition decode_ranges :: "vm_mem \<Rightarrow> memory \<Rightarrow> u32 \<Rightarrow> u8 \<Rightarrow> vm_instr \<Rightarrow> vm_instr option option" where
  "decode_ranges mm m addr b0 out =
     (if 0x40 \<le> b0 \<and> b0 \<le> 0x47 then Some (Some (out\<lparr>i_op := VM_OP_INC, i_dst_reg := uint b0 - 0x40, i_size := 1\<rparr>))
      else if 0x48 \<le> b0 \<and> b0 \<le> 0x4F then Some (Some (out\<lparr>i_op := VM_OP_DEC, i_dst_reg := uint b0 - 0x48, i_size := 1\<rparr>))
      else if 0xB0 \<le> b0 \<and> b0 \<le> 0xB7 then decode_mov_r8_imm8 mm m addr out
      else if 0xB8 \<le> b0 \<and> b0 \<le> 0xBF then decode_mov_r32_imm32 mm m addr out
      else if 0x50 \<le> b0 \<and> b0 \<le> 0x57 then Some (Some (out\<lparr>i_op := VM_OP_PUSH, i_dst_reg := uint b0 - 0x50\<rparr>))
      else if 0x58 \<le> b0 \<and> b0 \<le> 0x5F then Some (Some (out\<lparr>i_op := VM_OP_POP, i_dst_reg := uint b0 - 0x58\<rparr>))
      else Some None)"

definition decode_switch :: "vm_mem \<Rightarrow> memory \<Rightarrow> u32 \<Rightarrow> u8 \<Rightarrow> u8 \<Rightarrow> vm_instr \<Rightarrow> vm_instr option option" where
  "decode_switch mm m addr b0 b1 out =
     (if b0 = 0x90 then Some (Some (out\<lparr>i_op := VM_OP_NOP\<rparr>))
      else if b0 = 0xF4 then Some (Some (out\<lparr>i_op := VM_OP_HLT\<rparr>))
      else if b0 = 0xE4 then Some (Some (out\<lparr>i_op := VM_OP_IN, i_imm := ucast b1, i_size := 2\<rparr>))
      else if b0 = 0xE6 then Some (Some (out\<lparr>i_op := VM_OP_OUT, i_imm := ucast b1, i_size := 2\<rparr>))
      else if b0 = 0xED then Some (Some (out\<lparr>i_op := VM_OP_IN_DX, i_size := 1\<rparr>))
      else if b0 = 0xEF then Some (Some (out\<lparr>i_op := VM_OP_OUT_DX, i_size := 1\<rparr>))
      else if b0 = 0xEB then Some (Some (out\<lparr>i_op := VM_OP_JMP, i_imm := scast b1, i_size := 2\<rparr>))
      else if b0 = 0xC3 then Some (Some (out\<lparr>i_op := VM_OP_RET\<rparr>))
      else if b0 = 0xCD then Some (Some (out\<lparr>i_op := VM_OP_INT, i_imm := ucast b1, i_size := 2\<rparr>))
      else if b0 = 0xCF then Some (Some (out\<lparr>i_op := VM_OP_IRET\<rparr>))
      else if b0 = 0xAA then Some (Some (out\<lparr>i_op := VM_OP_STOSB\<rparr>))
      else if b0 = 0x3C then Some (Some (out\<lparr>i_op := VM_OP_CMP, i_dst_reg := 0, i_imm := ucast b1, i_size := 2\<rparr>))
      else if b0 = 0xA8 then Some (Some (out\<lparr>i_op := VM_OP_TEST, i_dst_reg := 0, i_imm := ucast b1, i_size := 2\<rparr>))
      else if b0 = 0x74 then Some (Some (out\<lparr>i_op := VM_OP_JZ, i_imm := scast b1, i_size := 2\<rparr>))
      else if b0 = 0x75 then Some (Some (out\<lparr>i_op := VM_OP_JNZ, i_imm := scast b1, i_size := 2\<rparr>))
      else if b0 = 0x01 then decode_alu_regs mm m addr VM_OP_ADD True out
      else if b0 = 0x03 then decode_alu_regs mm m addr VM_OP_ADD False out
      else if b0 = 0x29 then decode_alu_regs mm m addr VM_OP_SUB True out
      else if b0 = 0x2B then decode_alu_regs mm m addr VM_OP_SUB False out
      else if b0 = 0x83 then decode_alu_imm8 mm m addr out
      else decode_ranges mm m addr b0 out)"

definition vm_decode :: "vm_mem \<Rightarrow> memory \<Rightarrow> u32 \<Rightarrow> vm_instr \<Rightarrow> vm_instr option option" where
  "vm_decode mm m addr out =
     (if m_ram mm = NULL \<or> m_size mm < 2 then Some None
      else do {
        b0 \<leftarrow> byte_at mm m addr;
        b1 \<leftarrow> (if ucast (addr + 1) < m_size mm then byte_at mm m (addr + 1) else Some 0);
        if b0 = 0x0F then
          if b1 = 0x20 then decode_mov_cr mm m addr 0 out
          else if b1 = 0x22 then decode_mov_cr mm m addr 1 out
          else Some None
        else
          let out = out\<lparr>i_op := VM_OP_UNKNOWN, i_dst_reg := - 1, i_src_reg := - 1, i_imm := 0,
                        i_mem_addr := 0, i_mem_size := 0, i_size := 1,
                        i_modrm := modrm_clear, i_sib := sib_clear\<rparr>
          in decode_switch mm m addr b0 b1 out
      })"

section \<open>Decoding stays inside the fetch window\<close>

text \<open>The caller only decodes at addresses with 16 bytes of RAM after them.\<close>

definition fetch_ok :: "vm_mem \<Rightarrow> u32 \<Rightarrow> bool" where
  "fetch_ok mm addr \<longleftrightarrow> ram_ok mm \<and> unat addr + 16 \<le> 0x1000000"

abbreviation ram_byte :: "vm_mem \<Rightarrow> memory \<Rightarrow> u32 \<Rightarrow> u8" where
  "ram_byte mm m a \<equiv> m (m_ram mm + ucast a)"

lemma byte_at_eq: "unat a < unat (m_size mm) \<Longrightarrow> byte_at mm m a = Some (ram_byte mm m a)"
  by (simp add: byte_at_def ram_load_def mem_read_def)

lemma unat_offset: "unat (a :: u32) + unat j < 2 ^ 32 \<Longrightarrow> unat (a + j) = unat a + unat j"
  by (subst unat_add_lem [THEN iffD1]) simp_all

lemma byte_at_offset:
  assumes "m_size mm = GUEST_RAM_SIZE" and "unat a + unat j < 0x1000000"
  shows "byte_at mm m (a + j) = Some (ram_byte mm m (a + j))"
  using assms unat_offset [of a j] by (intro byte_at_eq) simp

lemma word_at_offset:
  assumes "m_size mm = GUEST_RAM_SIZE" and "unat a + unat j + 3 < 0x1000000"
  shows "word_at mm m (a + j) = Some (ucast (ram_byte mm m (a + j)) OR push_bit 8 (ucast (ram_byte mm m (a + j + 1))) OR
           push_bit 16 (ucast (ram_byte mm m (a + j + 2))) OR push_bit 24 (ucast (ram_byte mm m (a + j + 3))))"
proof -
  have u: "unat (a + j) = unat a + unat j" using assms by (intro unat_offset) simp
  show ?thesis
    using assms by (simp add: word_at_def u byte_at_offset [OF assms(1)] byte_at_eq)
qed

lemma decode_disp_ok:
  assumes "m_size mm = GUEST_RAM_SIZE" and "unat a + 6 \<le> 0x1000000"
  shows "\<exists>n out'. decode_disp mm m a out = Some (n, out') \<and> n \<le> 5 \<and> (n = 1 \<longrightarrow> out' = out) \<and>
           md_mod out' = md_mod out \<and> md_rm out' = md_rm out \<and> (md_mod out = 3 \<longrightarrow> n = 1) \<and> (md_mod out = 0 \<and> md_rm out = 4 \<longrightarrow> n = 1)"
  using assms by (simp add: decode_disp_def byte_at_offset word_at_offset)

lemma decode_sib_ok:
  assumes "m_size mm = GUEST_RAM_SIZE" and "unat a + 6 \<le> 0x1000000" and "n \<le> 5"
    and "md_mod out = 0 \<and> md_rm out = 4 \<longrightarrow> n = 1"
  shows "\<exists>n' out' sb'. decode_sib mm m a n out sb = Some (n', out', sb') \<and> md_mod out' = md_mod out \<and>
           (md_mod out = 3 \<longrightarrow> n' = n \<and> out' = out \<and> sb' = sb)"
proof -
  have n: "unat (of_nat n :: u32) = n" using assms(3) by (simp add: unat_of_nat)
  have "byte_at mm m (a + of_nat n) = Some (ram_byte mm m (a + of_nat n))"
    using assms n by (intro byte_at_offset) simp_all
  moreover have "word_at mm m (a + 2) \<noteq> None" using assms by (simp add: word_at_offset)
  ultimately show ?thesis using assms(4) by (auto simp: decode_sib_def Let_def)
qed

definition modrm_of :: "u8 \<Rightarrow> vm_modrm" where
  "modrm_of b = \<lparr>md_valid = True, md_mod = ucast (drop_bit 6 b AND 3), md_reg = ucast (drop_bit 3 b AND 7),
                 md_rm = ucast (b AND 7), md_disp = 0, md_disp_bytes = 0\<rparr>"

lemma decode_regs_eq:
  assumes f: "fetch_ok mm addr" and j: "unat off \<le> 2"
  shows "decode_regs mm m addr off out =
           (let md = modrm_of (ram_byte mm m (addr + off))
            in Some (if md_mod md \<noteq> 3 then None else Some (1, out\<lparr>i_modrm := md, i_sib := sib_clear\<rparr>)))"
proof -
  let ?a = "addr + off" and ?md = "modrm_of (ram_byte mm m (addr + off))"
  have sz: "m_size mm = GUEST_RAM_SIZE" and r: "unat addr + 16 \<le> 0x1000000" using f by (simp_all add: fetch_ok_def)
  have u: "unat ?a = unat addr + unat off" using r j by (intro unat_offset) simp
  then have a6: "unat ?a + 6 \<le> 0x1000000" and u6: "unat (?a + 6) = unat ?a + 6"
    using r j by (simp_all add: unat_offset [of ?a 6])
  have chk: "\<not> (m_size mm < 6 \<or> ucast (?a + 6) > m_size mm)"
    using a6 u6 sz by (simp add: word_less_nat_alt)
  have b: "byte_at mm m ?a = Some (ram_byte mm m ?a)" using sz r j by (intro byte_at_offset) simp_all
  obtain n out1 where d: "decode_disp mm m ?a ?md = Some (n, out1)" "n \<le> 5" "n = 1 \<longrightarrow> out1 = ?md"
      "md_mod out1 = md_mod ?md" "md_rm out1 = md_rm ?md" "md_mod ?md = 3 \<longrightarrow> n = 1"
      "md_mod ?md = 0 \<and> md_rm ?md = 4 \<longrightarrow> n = 1"
    using decode_disp_ok [OF sz a6, of m ?md] by blast
  obtain n' out2 sb2 where s: "decode_sib mm m ?a n out1 sib_clear = Some (n', out2, sb2)" "md_mod out2 = md_mod out1"
      "md_mod out1 = 3 \<longrightarrow> n' = n \<and> out2 = out1 \<and> sb2 = sib_clear"
    using decode_sib_ok [OF sz a6 d(2), of out1 m sib_clear] d(4,5,7) by auto
  have "decode_modrm mm m ?a = Some (Some (n', out2, sb2))"
    using chk b d(1) s(1) by (simp add: decode_modrm_def modrm_of_def)
  then show ?thesis using d s by (auto simp: decode_regs_def Let_def)
qed

text \<open>What every decoded instruction looks like: its length and its register numbers.\<close>

definition instr_wf :: "vm_instr \<Rightarrow> bool" where
  "instr_wf i \<longleftrightarrow> 1 \<le> i_size i \<and> i_size i \<le> 5 \<and> - 1 \<le> i_dst_reg i \<and> i_dst_reg i < 8 \<and>
     - 1 \<le> i_src_reg i \<and> i_src_reg i < 8"

lemma uint_reg [simp]: "uint (r :: 3 word) < 8" "- 1 \<le> uint r"
  using uint_lt2p [of r] uint_ge_0 [of r] by (simp, linarith)

lemma byte_range: "uint (b :: u8) - uint k < 8 \<and> - 1 \<le> uint b - uint k" if "k \<le> b" "b \<le> k + 7" "k \<le> 0xF8" for k b
proof -
  have "uint (k + 7) = uint k + 7" using that(3) by (subst uint_add_lem [THEN iffD1]) (simp_all add: word_le_def)
  then show ?thesis using that by (simp add: word_le_def)
qed

definition decodes :: "vm_instr option option \<Rightarrow> bool" where
  "decodes r \<longleftrightarrow> (r = Some None \<or> (\<exists>i. r = Some (Some i) \<and> instr_wf i))"

lemma decodesI [intro]: "decodes (Some None)" "instr_wf i \<Longrightarrow> decodes (Some (Some i))"
  by (simp_all add: decodes_def)

lemma decodes_if: "(c \<Longrightarrow> decodes x) \<Longrightarrow> (\<not> c \<Longrightarrow> decodes y) \<Longrightarrow> decodes (if c then x else y)"
  by simp

lemma decode_alu_regs_ok:
  assumes "fetch_ok mm addr"
  shows "decodes (decode_alu_regs mm m addr op rm_dst out)"
  using decode_regs_eq [OF assms, of 1 m out]
  by (auto simp: decode_alu_regs_def Let_def instr_wf_def decodes_def)

lemma decode_mov_cr_ok:
  assumes "fetch_ok mm addr"
  shows "decodes (decode_mov_cr mm m addr dir out)"
  using decode_regs_eq [OF assms, of 2 m out]
  by (auto simp: decode_mov_cr_def Let_def instr_wf_def decodes_def)

lemma fetch_byte: "fetch_ok mm addr \<Longrightarrow> unat j < 16 \<Longrightarrow> byte_at mm m (addr + j) = Some (ram_byte mm m (addr + j))"
  by (intro byte_at_offset) (simp_all add: fetch_ok_def)

lemma fetch_byte_0: "fetch_ok mm addr \<Longrightarrow> byte_at mm m addr = Some (ram_byte mm m addr)"
  using fetch_byte [of mm addr 0] by simp

lemma decode_alu_imm8_ok:
  assumes f: "fetch_ok mm addr"
  shows "decodes (decode_alu_imm8 mm m addr out)"
proof -
  have "byte_at mm m (addr + 1 + 1) = Some (ram_byte mm m (addr + 2))"
    using fetch_byte [OF f, of 2] by (simp add: add.assoc)
  then show ?thesis
    using decode_regs_eq [OF f, of 1 m out]
    by (auto simp: decode_alu_imm8_def Let_def instr_wf_def decodes_def)
qed

lemma decode_ranges_ok:
  assumes f: "fetch_ok mm addr" and b: "b0 = ram_byte mm m addr" and wf: "instr_wf out"
  shows "decodes (decode_ranges mm m addr b0 out)"
proof -
  have w: "word_at mm m (addr + 1) \<noteq> None"
    using f word_at_offset [of mm addr 1 m] by (simp add: fetch_ok_def)
  have r8: "decodes (decode_mov_r8_imm8 mm m addr out)"
    using fetch_byte_0 [OF f] fetch_byte [OF f, of 1] wf
    by (auto simp: decode_mov_r8_imm8_def Let_def instr_wf_def decodes_def)
  have r32: "decodes (decode_mov_r32_imm32 mm m addr out)"
    using fetch_byte_0 [OF f] w wf
    by (auto simp: decode_mov_r32_imm32_def Let_def instr_wf_def decodes_def)
  have reg: "decodes (Some (Some (out\<lparr>i_op := op, i_dst_reg := uint b0 - uint k\<rparr>)))"
      "decodes (Some (Some (out\<lparr>i_op := op, i_dst_reg := uint b0 - uint k, i_size := 1\<rparr>)))"
    if "k \<le> b0" "b0 \<le> k + 7" "k \<le> 0xF8" for op k
    using byte_range [OF that] wf by (intro decodesI(2); simp add: instr_wf_def)+
  note regs = reg [of "0x40", simplified] reg [of "0x48", simplified] reg [of "0x50", simplified] reg [of "0x58", simplified]
  show ?thesis
    unfolding decode_ranges_def by (intro decodes_if r8 r32 decodesI(1); elim conjE; rule regs; assumption)
qed

definition instr_reset :: "vm_instr \<Rightarrow> vm_instr" where
  "instr_reset out = out\<lparr>i_op := VM_OP_UNKNOWN, i_dst_reg := - 1, i_src_reg := - 1, i_imm := 0, i_mem_addr := 0,
     i_mem_size := 0, i_size := 1, i_modrm := modrm_clear, i_sib := sib_clear\<rparr>"

lemma vm_decode_fetch:
  assumes f: "fetch_ok mm addr"
  shows "vm_decode mm m addr out =
           (let b0 = ram_byte mm m addr; b1 = ram_byte mm m (addr + 1)
            in if b0 = 0x0F then if b1 = 0x20 then decode_mov_cr mm m addr 0 out
                 else if b1 = 0x22 then decode_mov_cr mm m addr 1 out else Some None
               else decode_switch mm m addr b0 b1 (instr_reset out))"
proof -
  have "ucast (addr + 1) < m_size mm"
    using f unat_offset [of addr 1] by (simp add: fetch_ok_def word_less_nat_alt)
  moreover have "m_ram mm \<noteq> NULL \<and> \<not> m_size mm < 2" using f by (simp add: fetch_ok_def)
  ultimately show ?thesis
    using fetch_byte_0 [OF f, of m] fetch_byte [OF f, of 1 m] by (simp add: vm_decode_def instr_reset_def)
qed

lemma vm_decode_ok:
  assumes f: "fetch_ok mm addr"
  shows "decodes (vm_decode mm m addr out)"
proof -
  have wf: "instr_wf (instr_reset out)" by (simp add: instr_wf_def instr_reset_def)
  have sw: "decodes (decode_switch mm m addr (ram_byte mm m addr) b1 (instr_reset out))" for b1
    unfolding decode_switch_def
    by (intro decodes_if decodesI(2) decode_alu_regs_ok [OF f] decode_alu_imm8_ok [OF f] decode_ranges_ok [OF f refl wf])
      (simp_all add: instr_wf_def instr_reset_def)
  show ?thesis
    unfolding vm_decode_fetch [OF f] Let_def
    by (intro decodes_if sw decode_mov_cr_ok [OF f] decodesI(1))
qed

end
