(* ===== verification/VM_Asm.thy ===== *)
theory VM_Asm
  imports VM_Decode
begin

text \<open>
  The instruction set of the VM as a datatype with its encoding, and the decoder of
  \<open>VM_Decode\<close> as the exact inverse of that encoding.
\<close>

section \<open>The instruction set\<close>

text \<open>The instructions of the VM, their encoding as in the x86 manuals, and the operation, operands
  and immediate value the decoder is to report. Register numbers are 3-bit words.\<close>

datatype asm =
    A_NOP | A_HLT | A_RET | A_IRET | A_STOSB | A_IN_DX | A_OUT_DX
  | A_IN u8 | A_OUT u8 | A_INT u8 | A_CMP u8 | A_TEST u8
  | A_JMP u8 | A_JZ u8 | A_JNZ u8
  | A_ADD_RM "3 word" "3 word" | A_ADD_R "3 word" "3 word"
  | A_SUB_RM "3 word" "3 word" | A_SUB_R "3 word" "3 word"
  | A_ADD_I "3 word" u8 | A_SUB_I "3 word" u8
  | A_INC "3 word" | A_DEC "3 word" | A_PUSH "3 word" | A_POP "3 word"
  | A_MOV8 "3 word" u8 | A_MOV32 "3 word" u32
  | A_MOV_R_CR "3 word" "3 word" | A_MOV_CR_R "3 word" "3 word"

definition modrm_byte :: "3 word \<Rightarrow> 3 word \<Rightarrow> u8" where
  "modrm_byte reg rm = 0xC0 OR push_bit 3 (ucast reg) OR ucast rm"

fun encode :: "asm \<Rightarrow> u8 list" where
  "encode A_NOP = [0x90]"
| "encode A_HLT = [0xF4]"
| "encode A_RET = [0xC3]"
| "encode A_IRET = [0xCF]"
| "encode A_STOSB = [0xAA]"
| "encode A_IN_DX = [0xED]"
| "encode A_OUT_DX = [0xEF]"
| "encode (A_IN p) = [0xE4, p]"
| "encode (A_OUT p) = [0xE6, p]"
| "encode (A_INT n) = [0xCD, n]"
| "encode (A_CMP v) = [0x3C, v]"
| "encode (A_TEST v) = [0xA8, v]"
| "encode (A_JMP d) = [0xEB, d]"
| "encode (A_JZ d) = [0x74, d]"
| "encode (A_JNZ d) = [0x75, d]"
| "encode (A_ADD_RM d s) = [0x01, modrm_byte s d]"
| "encode (A_ADD_R d s) = [0x03, modrm_byte d s]"
| "encode (A_SUB_RM d s) = [0x29, modrm_byte s d]"
| "encode (A_SUB_R d s) = [0x2B, modrm_byte d s]"
| "encode (A_ADD_I d v) = [0x83, modrm_byte 0 d, v]"
| "encode (A_SUB_I d v) = [0x83, modrm_byte 5 d, v]"
| "encode (A_INC r) = [0x40 + ucast r]"
| "encode (A_DEC r) = [0x48 + ucast r]"
| "encode (A_PUSH r) = [0x50 + ucast r]"
| "encode (A_POP r) = [0x58 + ucast r]"
| "encode (A_MOV8 r v) = [0xB0 + ucast r, v]"
| "encode (A_MOV32 r v) = (0xB8 + ucast r) # le_bytes 4 v"
| "encode (A_MOV_R_CR c r) = [0x0F, 0x20, modrm_byte c r]"
| "encode (A_MOV_CR_R c r) = [0x0F, 0x22, modrm_byte c r]"

fun meaning :: "asm \<Rightarrow> vm_opcode \<times> int \<times> int \<times> u32" where
  "meaning A_NOP = (VM_OP_NOP, - 1, - 1, 0)"
| "meaning A_HLT = (VM_OP_HLT, - 1, - 1, 0)"
| "meaning A_RET = (VM_OP_RET, - 1, - 1, 0)"
| "meaning A_IRET = (VM_OP_IRET, - 1, - 1, 0)"
| "meaning A_STOSB = (VM_OP_STOSB, - 1, - 1, 0)"
| "meaning A_IN_DX = (VM_OP_IN_DX, - 1, - 1, 0)"
| "meaning A_OUT_DX = (VM_OP_OUT_DX, - 1, - 1, 0)"
| "meaning (A_IN p) = (VM_OP_IN, - 1, - 1, ucast p)"
| "meaning (A_OUT p) = (VM_OP_OUT, - 1, - 1, ucast p)"
| "meaning (A_INT n) = (VM_OP_INT, - 1, - 1, ucast n)"
| "meaning (A_CMP v) = (VM_OP_CMP, 0, - 1, ucast v)"
| "meaning (A_TEST v) = (VM_OP_TEST, 0, - 1, ucast v)"
| "meaning (A_JMP d) = (VM_OP_JMP, - 1, - 1, scast d)"
| "meaning (A_JZ d) = (VM_OP_JZ, - 1, - 1, scast d)"
| "meaning (A_JNZ d) = (VM_OP_JNZ, - 1, - 1, scast d)"
| "meaning (A_ADD_RM d s) = (VM_OP_ADD, uint d, uint s, 0)"
| "meaning (A_ADD_R d s) = (VM_OP_ADD, uint d, uint s, 0)"
| "meaning (A_SUB_RM d s) = (VM_OP_SUB, uint d, uint s, 0)"
| "meaning (A_SUB_R d s) = (VM_OP_SUB, uint d, uint s, 0)"
| "meaning (A_ADD_I d v) = (VM_OP_ADD, uint d, - 1, scast v)"
| "meaning (A_SUB_I d v) = (VM_OP_SUB, uint d, - 1, scast v)"
| "meaning (A_INC r) = (VM_OP_INC, uint r, - 1, 0)"
| "meaning (A_DEC r) = (VM_OP_DEC, uint r, - 1, 0)"
| "meaning (A_PUSH r) = (VM_OP_PUSH, uint r, - 1, 0)"
| "meaning (A_POP r) = (VM_OP_POP, uint r, - 1, 0)"
| "meaning (A_MOV8 r v) = (VM_OP_MOV, uint r, - 1, ucast v)"
| "meaning (A_MOV32 r v) = (VM_OP_MOV, uint r, - 1, v)"
| "meaning (A_MOV_R_CR c r) = (VM_OP_MOV_CR, uint c, uint r, 0)"
| "meaning (A_MOV_CR_R c r) = (VM_OP_MOV_CR, uint c, uint r, 1)"

text \<open>The bytes at an address, and an instruction as the decoder reports it.\<close>

definition code_is :: "vm_mem \<Rightarrow> memory \<Rightarrow> u32 \<Rightarrow> u8 list \<Rightarrow> bool" where
  "code_is mm m addr bs \<longleftrightarrow> (\<forall>i < length bs. ram_byte mm m (addr + of_nat i) = bs ! i)"

definition decoded :: "vm_instr \<Rightarrow> asm \<Rightarrow> bool" where
  "decoded i a \<longleftrightarrow> (i_op i, i_dst_reg i, i_src_reg i, i_imm i) = meaning a \<and> i_size i = of_nat (length (encode a))"

lemma code_is_simps [simp]:
  "code_is mm m addr []"
  "code_is mm m addr (b # bs) \<longleftrightarrow> ram_byte mm m addr = b \<and> code_is mm m (addr + 1) bs"
  by (auto simp: code_is_def All_less_Suc2 add.assoc)

lemma modrm_byte_fields:
  "md_mod (modrm_of (modrm_byte reg rm)) = 3" "md_reg (modrm_of (modrm_byte reg rm)) = reg"
  "md_rm (modrm_of (modrm_byte reg rm)) = rm"
proof -
  have m: "(7 :: u8) = mask 3" "(3 :: u8) = mask 2" "(0xC0 :: u8) = push_bit 6 (mask 2)" "(3 :: 2 word) = mask 2"
    by (simp_all add: mask_eq_exp_minus_1)
  have [simp]: "\<not> bit r (3 + n)" for r :: "3 word" and n using bit_imp_le_length [of r "3 + n"] by auto
  show "md_mod (modrm_of (modrm_byte reg rm)) = 3" "md_reg (modrm_of (modrm_byte reg rm)) = reg"
    "md_rm (modrm_of (modrm_byte reg rm)) = rm"
    unfolding modrm_of_def modrm_byte_def m vm_modrm.simps
    by (auto intro!: bit_word_eqI simp: bit_simps)
qed

lemma modrm_byte_complete:
  assumes "md_mod (modrm_of b) = 3"
  shows "b = modrm_byte (md_reg (modrm_of b)) (md_rm (modrm_of b))"
proof -
  have m: "(7 :: u8) = mask 3" "(3 :: u8) = mask 2" "(0xC0 :: u8) = push_bit 6 (mask 2)" "(3 :: 2 word) = mask 2"
    by (simp_all add: mask_eq_exp_minus_1)
  have "bit (ucast (drop_bit 6 b AND mask 2) :: 2 word) k" if "k < 2" for k
    using assms that unfolding modrm_of_def m by (simp add: bit_simps)
  from this [of 0] this [of 1] have hi: "bit b 6" "bit b 7" by (simp_all add: bit_simps)
  show ?thesis
    unfolding modrm_of_def modrm_byte_def m vm_modrm.simps
  proof (rule bit_word_eqI)
    fix n
    assume "n < LENGTH(8)"
    then consider "n < 3" | "3 \<le> n" "n < 6" | "n = 6" | "n = 7" by fastforce
    then show "bit b n = bit (push_bit 6 (mask 2) OR push_bit 3 (ucast (ucast (drop_bit 3 b AND mask 3) :: 3 word)) OR
        ucast (ucast (b AND mask 3) :: 3 word) :: u8) n"
      by cases (simp_all add: bit_simps hi less_diff_conv2)
  qed
qed

lemma reg_cases: "(r :: 3 word) = 0 \<or> r = 1 \<or> r = 2 \<or> r = 3 \<or> r = 4 \<or> r = 5 \<or> r = 6 \<or> r = 7"
proof -
  have "unat r < 8" using unsigned_less [of r] by simp
  then have "unat r \<in> {0, 1, 2, 3, 4, 5, 6, 7}" by auto
  then show ?thesis by (auto simp: unat_inj [symmetric])
qed

lemma range_reg:
  assumes "k \<le> b" and "b \<le> k + 7" and "k \<le> (0xF8 :: u8)"
  shows "\<exists>r :: 3 word. b = k + ucast r \<and> uint b - uint k = uint r"
proof -
  have "unat (k + 7) = unat k + 7"
    using assms(3) by (subst unat_add_lem [THEN iffD1]) (simp_all add: word_le_nat_alt)
  then obtain d where d: "unat b = unat k + d" "d < 8"
    using assms(1,2) by (auto simp: word_le_nat_alt intro!: that [of "unat b - unat k"])
  have "b = of_nat (unat k + d)" unfolding d(1) [symmetric] by simp
  then have b: "b = k + of_nat d" by simp
  have "int (unat b) - int (unat k) = int d" unfolding d(1) by simp
  then have u: "uint b - uint k = int d" by (simp only: uint_nat)
  have r: "unat (of_nat d :: 3 word) = d" using d(2) by (simp add: unat_of_nat)
  moreover have "unat (ucast (of_nat d :: 3 word) :: u8) = unat (of_nat d :: u8)"
    using d(2) by (simp add: unsigned_ucast_eq unat_of_nat take_bit_nat_eq_self r)
  ultimately have "ucast (of_nat d :: 3 word) = (of_nat d :: u8)" "uint (of_nat d :: 3 word) = int d"
    by (simp_all only: unat_inj uint_nat)
  then show ?thesis using b u by (intro exI [of _ "of_nat d"]) simp
qed

section \<open>The decoder inverts the encoding\<close>

lemma decode_alu_regs_eq:
  assumes "fetch_ok mm addr"
  shows "decode_alu_regs mm m addr op rm_dst out =
           (let md = modrm_of (ram_byte mm m (addr + 1))
            in Some (if md_mod md \<noteq> 3 then None
                     else Some (out\<lparr>i_modrm := md, i_sib := sib_clear, i_op := op,
                                 i_dst_reg := uint (if rm_dst then md_rm md else md_reg md),
                                 i_src_reg := uint (if rm_dst then md_reg md else md_rm md), i_size := 2\<rparr>)))"
  using decode_regs_eq [OF assms, of 1 m out] by (simp add: decode_alu_regs_def Let_def)

lemma decode_mov_cr_eq:
  assumes "fetch_ok mm addr"
  shows "decode_mov_cr mm m addr dir out =
           (let md = modrm_of (ram_byte mm m (addr + 2))
            in Some (if md_mod md \<noteq> 3 then None
                     else Some (out\<lparr>i_modrm := md, i_sib := sib_clear, i_op := VM_OP_MOV_CR,
                                 i_dst_reg := uint (md_reg md), i_src_reg := uint (md_rm md), i_imm := dir, i_size := 3\<rparr>)))"
  using decode_regs_eq [OF assms, of 2 m out] by (simp add: decode_mov_cr_def Let_def)

lemma decode_alu_imm8_eq:
  assumes f: "fetch_ok mm addr"
  shows "decode_alu_imm8 mm m addr out =
           (let md = modrm_of (ram_byte mm m (addr + 1)); ext = md_reg md
            in Some (if md_mod md \<noteq> 3 \<or> ext \<noteq> 0 \<and> ext \<noteq> 5 then None
                     else Some (out\<lparr>i_modrm := md, i_sib := sib_clear, i_op := (if ext = 0 then VM_OP_ADD else VM_OP_SUB),
                                 i_dst_reg := uint (md_rm md), i_src_reg := - 1,
                                 i_imm := scast (ram_byte mm m (addr + 2)), i_size := 3\<rparr>)))"
proof -
  have b: "byte_at mm m (addr + 1 + 1) = Some (ram_byte mm m (addr + 2))"
    using fetch_byte [OF f, of 2] by (simp add: add.assoc)
  have "unat (addr + 3) = unat addr + 3" using f by (intro unat_offset [of addr 3, simplified]) (simp add: fetch_ok_def)
  then have c: "\<not> ucast (addr + 1 + 1 + 1) > m_size mm" using f by (simp add: fetch_ok_def word_less_nat_alt add.assoc)
  show ?thesis
    using decode_regs_eq [OF f, of 1 m out] b c by (simp add: decode_alu_imm8_def Let_def)
qed

lemma word_at_fetch:
  assumes "fetch_ok mm addr"
  shows "word_at mm m (addr + 1) = Some (le_word [ram_byte mm m (addr + 1), ram_byte mm m (addr + 2),
           ram_byte mm m (addr + 3), ram_byte mm m (addr + 4)])"
  using word_at_offset [of mm addr 1 m] assms
  by (simp add: fetch_ok_def add.assoc)

lemma decode_mov_eq:
  assumes f: "fetch_ok mm addr"
  shows "b0 = ram_byte mm m addr \<Longrightarrow> 0xB0 \<le> b0 \<and> b0 \<le> 0xB7 \<Longrightarrow> decode_mov_r8_imm8 mm m addr out =
           Some (Some (out\<lparr>i_op := VM_OP_MOV, i_dst_reg := uint b0 - 0xB0, i_src_reg := - 1,
                           i_imm := ucast (ram_byte mm m (addr + 1)), i_size := 2\<rparr>))"
    and "b0 = ram_byte mm m addr \<Longrightarrow> 0xB8 \<le> b0 \<and> b0 \<le> 0xBF \<Longrightarrow> decode_mov_r32_imm32 mm m addr out =
           Some (Some (out\<lparr>i_op := VM_OP_MOV, i_dst_reg := uint b0 - 0xB8, i_src_reg := - 1,
                           i_imm := le_word [ram_byte mm m (addr + 1), ram_byte mm m (addr + 2),
                             ram_byte mm m (addr + 3), ram_byte mm m (addr + 4)], i_size := 5\<rparr>))"
  using fetch_byte_0 [OF f] fetch_byte [OF f, of 1] word_at_fetch [OF f]
  by (simp_all add: decode_mov_r8_imm8_def decode_mov_r32_imm32_def word_le_def del: le_word.simps)

lemma decode_encode:
  assumes f: "fetch_ok mm addr" and c: "code_is mm m addr (encode a)"
  shows "\<exists>i. vm_decode mm m addr out = Some (Some i) \<and> decoded i a"
proof -
  note eqs = vm_decode_fetch [OF f] decode_switch_def decode_ranges_def decode_alu_regs_eq [OF f] decode_alu_imm8_eq [OF f]
    decode_mov_cr_eq [OF f] modrm_byte_fields decoded_def instr_reset_def add.assoc
  have r: "\<exists>i. vm_decode mm m addr out = Some (Some i) \<and> decoded i a"
    if "a \<in> {A_INC r, A_DEC r, A_PUSH r, A_POP r}" for r
    using c that reg_cases [of r] by (elim insertE emptyE disjE) (simp_all add: eqs)
  have r8: "\<exists>i. vm_decode mm m addr out = Some (Some i) \<and> decoded i a" if "a = A_MOV8 r v" for r v
    using c that reg_cases [of r] decode_mov_eq(1) [OF f refl] by (elim disjE) (simp_all add: eqs)
  have r32: "\<exists>i. vm_decode mm m addr out = Some (Some i) \<and> decoded i a" if "a = A_MOV32 r v" for r v
  proof -
    have "le_bytes 4 v = [ucast v, ucast (drop_bit 8 v), ucast (drop_bit 16 v), ucast (drop_bit 24 v)]"
      by (simp add: le_bytes_def upt_rec)
    moreover have "le_word (le_bytes 4 v) = v" by (simp add: le_word_le_bytes take_bit_word_eq_self)
    ultimately show ?thesis
      using c that reg_cases [of r] decode_mov_eq(2) [OF f refl]
      by (elim disjE) (simp_all add: eqs del: le_word.simps)
  qed
  show ?thesis using c r r8 r32 by (cases a) (simp_all add: eqs)
qed

text \<open>The other direction, one group of opcodes at a time.\<close>

abbreviation is_asm :: "vm_mem \<Rightarrow> memory \<Rightarrow> u32 \<Rightarrow> vm_instr \<Rightarrow> bool" where
  "is_asm mm m addr i \<equiv> (\<exists>a. code_is mm m addr (encode a) \<and> decoded i a)"

lemma decode_const:
  assumes "decode_switch mm m addr (ram_byte mm m addr) b1 (instr_reset out) = Some (Some i)"
    and "ram_byte mm m addr \<in> {0x90, 0xF4, 0xC3, 0xCF, 0xAA, 0xED, 0xEF}"
  shows "is_asm mm m addr i"
proof -
  let ?T = "{(0x90, A_NOP), (0xF4, A_HLT), (0xC3, A_RET), (0xCF, A_IRET), (0xAA, A_STOSB), (0xED, A_IN_DX), (0xEF, A_OUT_DX)}"
  have "\<exists>a. (ram_byte mm m addr, a) \<in> ?T" using assms(2) by (elim insertE emptyE) simp_all
  then obtain a where "(ram_byte mm m addr, a) \<in> ?T" by blast
  then have "code_is mm m addr (encode a) \<and> decoded i a"
    using assms(1) by (elim insertE emptyE) (auto simp: decode_switch_def decoded_def instr_reset_def)
  then show ?thesis by blast
qed

lemma decode_imm8:
  assumes "decode_switch mm m addr (ram_byte mm m addr) (ram_byte mm m (addr + 1)) (instr_reset out) = Some (Some i)"
    and "ram_byte mm m addr \<in> {0xE4, 0xE6, 0xCD, 0x3C, 0xA8, 0xEB, 0x74, 0x75}"
  shows "is_asm mm m addr i"
proof -
  let ?T = "{(0xE4, A_IN), (0xE6, A_OUT), (0xCD, A_INT), (0x3C, A_CMP), (0xA8, A_TEST), (0xEB, A_JMP), (0x74, A_JZ), (0x75, A_JNZ)}"
  have "\<exists>a. (ram_byte mm m addr, a) \<in> ?T" using assms(2) by (elim insertE emptyE) simp_all
  then obtain a where "(ram_byte mm m addr, a) \<in> ?T" by blast
  then have "code_is mm m addr (encode (a (ram_byte mm m (addr + 1)))) \<and> decoded i (a (ram_byte mm m (addr + 1)))"
    using assms(1) by (elim insertE emptyE) (auto simp: decode_switch_def decoded_def instr_reset_def)
  then show ?thesis by blast
qed

lemma decode_modrm_asm:
  assumes f: "fetch_ok mm addr"
    and d: "decode_switch mm m addr (ram_byte mm m addr) b1 (instr_reset out) = Some (Some i)"
    and k: "ram_byte mm m addr \<in> {0x01, 0x03, 0x29, 0x2B, 0x83}"
  shows "is_asm mm m addr i"
proof -
  define md where "md = modrm_of (ram_byte mm m (addr + 1))"
  note eqs = decode_switch_def decode_alu_regs_eq [OF f] decode_alu_imm8_eq [OF f] decoded_def instr_reset_def
    md_def [symmetric] modrm_byte_fields Let_def add.assoc
  have m3: "md_mod md = 3" using d k by (elim insertE emptyE) (auto simp: eqs split: if_splits)
  have b: "ram_byte mm m (addr + 1) = modrm_byte (md_reg md) (md_rm md)"
    unfolding md_def by (rule modrm_byte_complete) (use m3 in \<open>simp add: md_def\<close>)
  let ?v = "ram_byte mm m (addr + 2)"
  have "\<exists>a \<in> {A_ADD_RM (md_rm md) (md_reg md), A_ADD_R (md_reg md) (md_rm md), A_SUB_RM (md_rm md) (md_reg md),
      A_SUB_R (md_reg md) (md_rm md), A_ADD_I (md_rm md) ?v, A_SUB_I (md_rm md) ?v}. code_is mm m addr (encode a) \<and> decoded i a"
    using d k b m3 by (elim insertE emptyE) (auto simp: eqs split: if_splits)
  then show ?thesis by blast
qed

lemma decode_range_asm:
  assumes f: "fetch_ok mm addr" and d: "decode_ranges mm m addr (ram_byte mm m addr) (instr_reset out) = Some (Some i)"
  shows "is_asm mm m addr i"
proof -
  let ?b = "ram_byte mm m addr" and ?w = "le_word [ram_byte mm m (addr + 1), ram_byte mm m (addr + 2),
      ram_byte mm m (addr + 3), ram_byte mm m (addr + 4)] :: u32"
  note eqs = decoded_def instr_reset_def add.assoc
  have w: "le_bytes 4 ?w = [ram_byte mm m (addr + 1), ram_byte mm m (addr + 2), ram_byte mm m (addr + 3), ram_byte mm m (addr + 4)]"
    using le_bytes_le_word [of "[ram_byte mm m (addr + 1), ram_byte mm m (addr + 2), ram_byte mm m (addr + 3), ram_byte mm m (addr + 4)]", where ?'a = 32]
    by (simp add: eval_nat_numeral del: le_word.simps)
  let ?o = "instr_reset out"
  consider (INC) "0x40 \<le> ?b" "?b \<le> 0x47" "i = ?o\<lparr>i_op := VM_OP_INC, i_dst_reg := uint ?b - 0x40, i_size := 1\<rparr>"
    | (DEC) "0x48 \<le> ?b" "?b \<le> 0x4F" "i = ?o\<lparr>i_op := VM_OP_DEC, i_dst_reg := uint ?b - 0x48, i_size := 1\<rparr>"
    | (PUSH) "0x50 \<le> ?b" "?b \<le> 0x57" "i = ?o\<lparr>i_op := VM_OP_PUSH, i_dst_reg := uint ?b - 0x50\<rparr>"
    | (POP) "0x58 \<le> ?b" "?b \<le> 0x5F" "i = ?o\<lparr>i_op := VM_OP_POP, i_dst_reg := uint ?b - 0x58\<rparr>"
    | (MOV8) "0xB0 \<le> ?b" "?b \<le> 0xB7" "decode_mov_r8_imm8 mm m addr ?o = Some (Some i)"
    | (MOV32) "0xB8 \<le> ?b" "?b \<le> 0xBF" "decode_mov_r32_imm32 mm m addr ?o = Some (Some i)"
    using d unfolding decode_ranges_def by (simp split: if_split_asm)
  then show ?thesis
  proof cases
    case INC
    then obtain r :: "3 word" where "?b = 0x40 + ucast r" "uint ?b - 0x40 = uint r" using range_reg [of "0x40" ?b] by auto
    then show ?thesis using INC by (intro exI [of _ "A_INC r"]) (auto simp: eqs)
  next
    case DEC
    then obtain r :: "3 word" where "?b = 0x48 + ucast r" "uint ?b - 0x48 = uint r" using range_reg [of "0x48" ?b] by auto
    then show ?thesis using DEC by (intro exI [of _ "A_DEC r"]) (auto simp: eqs)
  next
    case PUSH
    then obtain r :: "3 word" where "?b = 0x50 + ucast r" "uint ?b - 0x50 = uint r" using range_reg [of "0x50" ?b] by auto
    then show ?thesis using PUSH by (intro exI [of _ "A_PUSH r"]) (auto simp: eqs)
  next
    case POP
    then obtain r :: "3 word" where "?b = 0x58 + ucast r" "uint ?b - 0x58 = uint r" using range_reg [of "0x58" ?b] by auto
    then show ?thesis using POP by (intro exI [of _ "A_POP r"]) (auto simp: eqs)
  next
    case MOV8
    then obtain r :: "3 word" where "?b = 0xB0 + ucast r" "uint ?b - 0xB0 = uint r" using range_reg [of "0xB0" ?b] by auto
    then show ?thesis using MOV8 decode_mov_eq(1) [OF f refl]
      by (intro exI [of _ "A_MOV8 r (ram_byte mm m (addr + 1))"]) (auto simp: eqs)
  next
    case MOV32
    then obtain r :: "3 word" where "?b = 0xB8 + ucast r" "uint ?b - 0xB8 = uint r" using range_reg [of "0xB8" ?b] by auto
    then show ?thesis using MOV32 decode_mov_eq(2) [OF f refl] w
      by (intro exI [of _ "A_MOV32 r ?w"]) (auto simp: eqs simp del: le_word.simps)
  qed
qed

lemma decode_mov_cr_asm:
  assumes f: "fetch_ok mm addr" and k: "ram_byte mm m addr = 0x0F"
    and d: "vm_decode mm m addr out = Some (Some i)"
  shows "is_asm mm m addr i"
proof -
  define md where "md = modrm_of (ram_byte mm m (addr + 2))"
  note eqs = vm_decode_fetch [OF f] decode_mov_cr_eq [OF f] decoded_def md_def [symmetric] modrm_byte_fields Let_def add.assoc
  have m3: "md_mod md = 3" using d k by (auto simp: eqs split: if_splits)
  have b: "ram_byte mm m (addr + 2) = modrm_byte (md_reg md) (md_rm md)"
    unfolding md_def by (rule modrm_byte_complete) (use m3 in \<open>simp add: md_def\<close>)
  have "\<exists>a \<in> {A_MOV_R_CR (md_reg md) (md_rm md), A_MOV_CR_R (md_reg md) (md_rm md)}. code_is mm m addr (encode a) \<and> decoded i a"
    using d k b m3 by (auto simp: eqs split: if_splits)
  then show ?thesis by blast
qed

lemma decode_is_asm:
  assumes f: "fetch_ok mm addr" and d: "vm_decode mm m addr out = Some (Some i)"
  shows "is_asm mm m addr i"
proof -
  let ?b = "ram_byte mm m addr"
  show ?thesis
  proof (cases "?b = 0x0F")
    case False
    then have sw: "decode_switch mm m addr ?b (ram_byte mm m (addr + 1)) (instr_reset out) = Some (Some i)"
      using d by (simp add: vm_decode_fetch [OF f])
    consider "?b \<in> {0x90, 0xF4, 0xC3, 0xCF, 0xAA, 0xED, 0xEF}" | "?b \<in> {0xE4, 0xE6, 0xCD, 0x3C, 0xA8, 0xEB, 0x74, 0x75}"
      | "?b \<in> {0x01, 0x03, 0x29, 0x2B, 0x83}" | "decode_ranges mm m addr ?b (instr_reset out) = Some (Some i)"
      using sw unfolding decode_switch_def by (simp split: if_split_asm)
    then show ?thesis
      by cases (rule decode_const [OF sw] decode_imm8 [OF sw] decode_modrm_asm [OF f sw] decode_range_asm [OF f]; assumption)+
  qed (rule decode_mov_cr_asm [OF f _ d])
qed

section \<open>Properties\<close>

text \<open>C26: The decoder is the exact inverse of the encoding of the instruction set: at any address with
  16 bytes of RAM after it, the encoding of each instruction is decoded to that instruction
  with its operands and its length, and whatever the decoder accepts is the encoding of an
  instruction.\<close>

theorem vm_decode_exact:
  assumes "fetch_ok mm addr"
  shows "(\<forall>a. code_is mm m addr (encode a) \<longrightarrow> (\<exists>i. vm_decode mm m addr out = Some (Some i) \<and> decoded i a)) \<and>
         (\<forall>i. vm_decode mm m addr out = Some (Some i) \<longrightarrow> (\<exists>a. code_is mm m addr (encode a) \<and> decoded i a)) \<and>
         vm_decode mm m addr out \<noteq> None"
  using decode_encode [OF assms] decode_is_asm [OF assms] vm_decode_ok [OF assms, of m out]
  by (auto simp: decodes_def)

theorem vm_decode_exact_witness:
  "let mm = \<lparr>m_ram = 0x10000, m_size = GUEST_RAM_SIZE\<rparr>; m = mem_write (\<lambda>_. 0) 0x17c00 [0x83, 0xC1, 0xFE]
   in fetch_ok mm 0x7c00 \<and> code_is mm m 0x7c00 (encode (A_ADD_I 1 0xFE)) \<and>
      (\<forall>out. \<exists>i. vm_decode mm m 0x7c00 out = Some (Some i) \<and> decoded i (A_ADD_I 1 0xFE))"
proof -
  let ?mm = "\<lparr>m_ram = 0x10000, m_size = GUEST_RAM_SIZE\<rparr>" and ?m = "mem_write (\<lambda>_. 0) 0x17c00 [0x83, 0xC1, 0xFE]"
  have f: "fetch_ok ?mm 0x7c00" by (simp add: fetch_ok_def)
  have c: "code_is ?mm ?m 0x7c00 (encode (A_ADD_I 1 0xFE))"
    by (simp add: mem_write_def mem_fill_def modrm_byte_def)
  have "\<exists>i. vm_decode ?mm ?m 0x7c00 out = Some (Some i) \<and> decoded i (A_ADD_I 1 0xFE)" for out
    using c vm_decode_exact [OF f, of ?m out] by blast
  then show ?thesis using f c unfolding Let_def by blast
qed

end
