(* ===== verification/FL_File.thy ===== *)
theory FL_File
  imports FL_Bytes
begin

text \<open>
  Files of the host as the C library shows them: a map from paths to contents and a bound on
  the size of a file, past which a write comes up short (a full disk). Streams are used by
  the code with explicit positions, so reading and writing take the position.
\<close>

record fstore =
  f_files :: "string \<rightharpoonup> u8 list"
  f_limit :: nat

text \<open>\<open>fread\<close>: what there is of the \<open>n\<close> bytes at \<open>pos\<close>.\<close>

definition fread :: "fstore \<Rightarrow> string \<Rightarrow> nat \<Rightarrow> nat \<Rightarrow> u8 list" where
  "fread fs path pos n = (case f_files fs path of None \<Rightarrow> [] | Some bs \<Rightarrow> take n (drop pos bs))"

text \<open>Bytes stored in a file at \<open>pos\<close>; a gap after its end is filled with zeros.\<close>

definition overwrite :: "u8 list \<Rightarrow> nat \<Rightarrow> u8 list \<Rightarrow> u8 list" where
  "overwrite bs pos xs = take pos (bs @ replicate (pos - length bs) 0) @ xs @ drop (pos + length xs) bs"

text \<open>\<open>fwrite\<close>: the number of bytes stored, and the files after it.\<close>

definition fwrite :: "fstore \<Rightarrow> string \<Rightarrow> nat \<Rightarrow> u8 list \<Rightarrow> nat \<times> fstore" where
  "fwrite fs path pos xs =
     (let n = min (length xs) (f_limit fs - pos); bs = (case f_files fs path of None \<Rightarrow> [] | Some bs \<Rightarrow> bs)
      in (n, fs\<lparr>f_files := (f_files fs)(path \<mapsto> overwrite bs pos (take n xs))\<rparr>))"

text \<open>\<open>fopen\<close> for reading (\<open>r\<close>, \<open>r+\<close>) needs the file; for writing (\<open>w\<close>, \<open>w+\<close>) it empties or creates it.\<close>

definition fopen_r :: "fstore \<Rightarrow> string \<Rightarrow> bool" where
  "fopen_r fs path \<longleftrightarrow> path \<in> dom (f_files fs)"

definition fopen_w :: "fstore \<Rightarrow> string \<Rightarrow> fstore" where
  "fopen_w fs path = fs\<lparr>f_files := (f_files fs)(path \<mapsto> [])\<rparr>"

definition fsize :: "fstore \<Rightarrow> string \<Rightarrow> nat" where
  "fsize fs path = (case f_files fs path of None \<Rightarrow> 0 | Some bs \<Rightarrow> length bs)"

lemma length_overwrite: "length (overwrite bs pos xs) = max (length bs) (pos + length xs)"
  by (auto simp: overwrite_def)

lemma overwrite_end: "overwrite bs (length bs) xs = bs @ xs"
  by (simp add: overwrite_def)

lemma read_overwrite: "take (length xs) (drop pos (overwrite bs pos xs)) = xs"
  by (simp add: overwrite_def min_def)

lemma read_overwrite_other:
  assumes "q + n \<le> pos \<or> pos + length xs \<le> q" and "pos \<le> length bs"
  shows "take n (drop q (overwrite bs pos xs)) = take n (drop q bs)"
proof (cases "q + n \<le> pos")
  case True
  then have "take n (drop q (take pos bs)) = take n (drop q bs)" by (simp add: drop_take min_def)
  then show ?thesis using True assms(2) by (simp add: overwrite_def)
next
  case False
  then have "drop q (overwrite bs pos xs) = drop q bs"
    using assms by (simp add: overwrite_def)
  then show ?thesis by simp
qed

lemma fwrite_ok:
  assumes "pos + length xs \<le> f_limit fs" and "f_files fs path = Some bs"
  shows "fwrite fs path pos xs = (length xs, fs\<lparr>f_files := (f_files fs)(path \<mapsto> overwrite bs pos xs)\<rparr>)"
  using assms by (simp add: fwrite_def Let_def)

end
