(* ===== verification/FL_Fifo.thy ===== *)
theory FL_Fifo
  imports FL_Bytes
begin

text \<open>
  The contract of the bounded buffers of the system (kernel pipes, message queues, the VM's
  keyboard queue): what was accepted comes out once, in order, and never more than the
  bound is stored. What a get delivers may be less than the item it takes out (a receive into
  a short buffer truncates the message): \<open>shown\<close> relates the two. The client lemma is about
  any sequence of puts and gets.
\<close>

datatype ('x, 'k) fifo_op = Put 'x | Get 'k

text \<open>Runs a sequence of operations and collects what was accepted and what was delivered.\<close>

fun fifo_run ::
  "('q \<Rightarrow> 'x \<Rightarrow> 'a list) \<Rightarrow> ('x \<Rightarrow> 'q \<Rightarrow> (nat \<times> 'q) option) \<Rightarrow> ('k \<Rightarrow> 'q \<Rightarrow> ('o list \<times> 'q) option) \<Rightarrow>
   ('x, 'k) fifo_op list \<Rightarrow> 'q \<Rightarrow> ('a list \<times> 'o list \<times> 'q) option" where
  "fifo_run items put get [] q = Some ([], [], q)"
| "fifo_run items put get (Put x # ops) q = do {
     (n, q1) \<leftarrow> put x q;
     (sent, recv, q2) \<leftarrow> fifo_run items put get ops q1;
     Some (take n (items q x) @ sent, recv, q2)
   }"
| "fifo_run items put get (Get k # ops) q = do {
     (ys, q1) \<leftarrow> get k q;
     (sent, recv, q2) \<leftarrow> fifo_run items put get ops q1;
     Some (sent, ys @ recv, q2)
   }"

locale bounded_fifo =
  fixes inv :: "'q \<Rightarrow> bool"
    and contents :: "'q \<Rightarrow> 'a list"
    and bound :: "'q \<Rightarrow> nat"
    and items :: "'q \<Rightarrow> 'x \<Rightarrow> 'a list"
    and put :: "'x \<Rightarrow> 'q \<Rightarrow> (nat \<times> 'q) option"
    and get :: "'k \<Rightarrow> 'q \<Rightarrow> ('o list \<times> 'q) option"
    and shown :: "'o \<Rightarrow> 'a \<Rightarrow> bool"
  assumes bounded: "inv q \<Longrightarrow> length (contents q) \<le> bound q"
    and put_ok: "inv q \<Longrightarrow> \<exists>n q'. put x q = Some (n, q') \<and> inv q' \<and> n \<le> length (items q x) \<and>
      contents q' = contents q @ take n (items q x) \<and> bound q' = bound q"
    and get_ok: "inv q \<Longrightarrow> \<exists>ys gone q'. get k q = Some (ys, q') \<and> inv q' \<and>
      contents q = gone @ contents q' \<and> list_all2 shown ys gone \<and> bound q' = bound q"
begin

lemma stream:
  assumes "inv q"
  shows "\<exists>sent recv gone q'. fifo_run items put get ops q = Some (sent, recv, q') \<and> inv q' \<and>
           contents q @ sent = gone @ contents q' \<and> list_all2 shown recv gone \<and>
           length (contents q') \<le> bound q \<and> bound q' = bound q"
  using assms
proof (induction ops arbitrary: q)
  case Nil
  then show ?case by (simp add: bounded)
next
  case (Cons op ops)
  show ?case
  proof (cases op)
    case (Put x)
    obtain n q1 where 1: "put x q = Some (n, q1)" "inv q1" "contents q1 = contents q @ take n (items q x)"
        "bound q1 = bound q"
      using put_ok [OF Cons.prems] by blast
    show ?thesis using Cons.IH [OF 1(2)] 1 Put by auto
  next
    case (Get k)
    obtain ys xs q1 where 1: "get k q = Some (ys, q1)" "inv q1" "contents q = xs @ contents q1"
        "list_all2 shown ys xs" "bound q1 = bound q"
      using get_ok [OF Cons.prems] by blast
    obtain sent recv gone q' where 2: "fifo_run items put get ops q1 = Some (sent, recv, q')" "inv q'"
        "contents q1 @ sent = gone @ contents q'" "list_all2 shown recv gone" "length (contents q') \<le> bound q1"
        "bound q' = bound q1"
      using Cons.IH [OF 1(2)] by blast
    have "list_all2 shown (ys @ recv) (xs @ gone)" by (rule list_all2_appendI [OF 1(4) 2(4)])
    moreover have "contents q @ sent = (xs @ gone) @ contents q'" using 1(3) 2(3) by simp
    ultimately show ?thesis using 1 2 Get
      by (intro exI [of _ sent] exI [of _ "ys @ recv"] exI [of _ "xs @ gone"] exI [of _ q']) simp
  qed
qed

end

end
