(* ===== verification/VM_Host.thy ===== *)
theory VM_Host
  imports VM_Mem FL_File FL_Fifo
begin

text \<open>
  The VM's host side: the machine state and keyboard queue of \<open>VM/devices/vm_host.c\<close>, the
  virtual disk of \<open>vm_disk.c\<close>, the checkpoints of \<open>vm_snapshot.c\<close> and the screen of
  \<open>vm_display.c\<close>. The disk image and its copies are files of the host (\<open>FL_File\<close>).
\<close>

section \<open>Host state\<close>

abbreviation VM_KBD_QUEUE_SIZE :: nat where
  "VM_KBD_QUEUE_SIZE \<equiv> 32"

record vm_host =
  h_mem :: vm_mem
  h_cpu :: vm_cpu
  h_kbd_queue :: "u8 list"
  h_kbd_head :: nat
  h_kbd_tail :: nat
  h_vm_ticks :: u64
  h_running :: bool
  h_paused :: bool

definition s_minimal_guest :: "u8 list" where
  "s_minimal_guest =
     [0xB0, 0x46, 0xE6, 0xF8, 0xB0, 0x6C, 0xE6, 0xF8, 0xB0, 0x69, 0xE6, 0xF8,
      0xB0, 0x6E, 0xE6, 0xF8, 0xB0, 0x73, 0xE6, 0xF8, 0xB0, 0x74, 0xE6, 0xF8,
      0xB0, 0x6F, 0xE6, 0xF8, 0xB0, 0x6E, 0xE6, 0xF8, 0xB0, 0x65, 0xE6, 0xF8,
      0xB0, 0x20, 0xE6, 0xF8, 0xB0, 0x56, 0xE6, 0xF8, 0xB0, 0x4D, 0xE6, 0xF8,
      0xB0, 0x0A, 0xE6, 0xF8,
      0xF4]"

definition s_vga_msg :: "u16 list" where
  "s_vga_msg = [0x0746, 0x076c, 0x0769, 0x076e, 0x0773, 0x0774, 0x076f, 0x076e, 0x0765, 0x0720, 0x0756, 0x074d]"

text \<open>A structure filled with zeros, as \<open>asm_mem_zero\<close> leaves it.\<close>

definition zero_host :: vm_host where
  "zero_host = \<lparr>h_mem = \<lparr>m_ram = NULL, m_size = 0\<rparr>, h_cpu = vm_cpu_init\<lparr>c_cs := 0\<rparr>,
                h_kbd_queue = replicate VM_KBD_QUEUE_SIZE 0, h_kbd_head = 0, h_kbd_tail = 0, h_vm_ticks = 0,
                h_running = False, h_paused = False\<rparr>"

text \<open>The message on the guest screen, copied when it fits.\<close>

definition load_vga_msg :: "vm_mem \<Rightarrow> memory \<Rightarrow> memory option" where
  "load_vga_msg mm m =
     (let msg = concat (map (le_bytes 2) s_vga_msg)
      in if GUEST_VGA_BASE + of_nat (length msg) \<le> m_size mm then ram_store mm m GUEST_VGA_BASE msg else Some m)"

definition vm_host_create :: "ptr \<Rightarrow> memory \<Rightarrow> (int \<times> vm_host \<times> memory) option" where
  "vm_host_create r m =
     (let host = zero_host; (rc, mm, m) = vm_mem_init r (h_mem host) m; host = host\<lparr>h_mem := mm\<rparr>
      in if rc \<noteq> 0 then Some (- 1, host, m)
         else do {
           let host = host\<lparr>h_cpu := vm_cpu_init, h_running := True\<rparr>;
           (rc, m) \<leftarrow> vm_load_binary (h_mem host) m GUEST_LOAD_ADDR s_minimal_guest;
           if rc \<noteq> 0 then Some (- 1, host\<lparr>h_mem := vm_mem_destroy (h_mem host)\<rparr>, m)
           else do {
             m \<leftarrow> load_vga_msg (h_mem host) m;
             Some (0, host\<lparr>h_cpu := (h_cpu host)\<lparr>c_eip := VM_BOOT_ENTRY_IP, c_cs := VM_BOOT_ENTRY_CS\<rparr>\<rparr>, m)
           }
         })"

definition vm_host_destroy :: "vm_host \<Rightarrow> vm_host" where
  "vm_host_destroy host = zero_host"

definition vm_host_ticks :: "vm_host \<Rightarrow> u64" where
  "vm_host_ticks host = h_vm_ticks host"

definition vm_host_tick_advance :: "vm_host \<Rightarrow> u32 \<Rightarrow> vm_host" where
  "vm_host_tick_advance host step = host\<lparr>h_vm_ticks := h_vm_ticks host + ucast step\<rparr>"

definition vm_host_kbd_push :: "vm_host \<Rightarrow> u8 \<Rightarrow> (int \<times> vm_host) option" where
  "vm_host_kbd_push host scancode =
     (let next' = (h_kbd_tail host + 1) mod VM_KBD_QUEUE_SIZE
      in if next' = h_kbd_head host then Some (- 1, host)
         else do {
           q \<leftarrow> aset (h_kbd_queue host) (int (h_kbd_tail host)) scancode;
           Some (0, host\<lparr>h_kbd_queue := q, h_kbd_tail := next'\<rparr>)
         })"

text \<open>\<open>Some (None, _)\<close> is the result \<open>-1\<close> of an empty queue.\<close>

definition vm_host_kbd_pop :: "vm_host \<Rightarrow> (u8 option \<times> vm_host) option" where
  "vm_host_kbd_pop host =
     (if h_kbd_head host = h_kbd_tail host then Some (None, host)
      else do {
        sc \<leftarrow> aget (h_kbd_queue host) (int (h_kbd_head host));
        Some (Some sc, host\<lparr>h_kbd_head := (h_kbd_head host + 1) mod VM_KBD_QUEUE_SIZE\<rparr>)
      })"

definition vm_host_pause :: "vm_host \<Rightarrow> vm_host" where
  "vm_host_pause host = host\<lparr>h_paused := True\<rparr>"

definition vm_host_resume :: "vm_host \<Rightarrow> vm_host" where
  "vm_host_resume host = host\<lparr>h_paused := False\<rparr>"

definition vm_host_is_paused :: "vm_host \<Rightarrow> bool" where
  "vm_host_is_paused host = h_paused host"

definition vm_host_reset :: "vm_host \<Rightarrow> memory \<Rightarrow> (vm_host \<times> memory) option" where
  "vm_host_reset host m = do {
     let m = vm_mem_zero (h_mem host) m;
     (rc, m) \<leftarrow> vm_load_binary (h_mem host) m GUEST_LOAD_ADDR s_minimal_guest;
     m \<leftarrow> load_vga_msg (h_mem host) m;
     let cpu = vm_cpu_init\<lparr>c_eip := VM_BOOT_ENTRY_IP, c_cs := VM_BOOT_ENTRY_CS, c_halted := False\<rparr>;
     Some (host\<lparr>h_cpu := cpu, h_paused := False\<rparr>, m)
   }"

section \<open>Screen\<close>

text \<open>The buffer handed to the display driver, if there is one: \<open>has_driver\<close> tells whether a driver
  with a \<open>refresh_vga\<close> function is installed, \<open>alloc\<close> whether the buffer could be allocated.\<close>

definition vm_display_refresh :: "vm_mem \<Rightarrow> memory \<Rightarrow> bool \<Rightarrow> bool \<Rightarrow> u8 list option option" where
  "vm_display_refresh mm m has_driver alloc =
     (if m_ram mm = NULL \<or> GUEST_VGA_BASE + GUEST_VGA_SIZE > m_size mm \<or> \<not> has_driver \<or> \<not> alloc then Some None
      else do { buf \<leftarrow> ram_load mm m GUEST_VGA_BASE (unat GUEST_VGA_SIZE); Some (Some buf) })"

section \<open>Virtual disk\<close>

abbreviation SECTOR_SIZE :: nat where
  "SECTOR_SIZE \<equiv> 512"

abbreviation VM_DISK_PATH_MAX :: nat where
  "VM_DISK_PATH_MAX \<equiv> 256"

text \<open>The open stream is the path it was opened with.\<close>

record vm_disk =
  d_fp :: "string option"
  d_sectors :: u32
  d_path :: string

definition vm_disk_shutdown :: "vm_disk \<Rightarrow> vm_disk" where
  "vm_disk_shutdown d = d\<lparr>d_fp := None, d_sectors := 0\<rparr>"

definition vm_disk_is_active :: "vm_disk \<Rightarrow> bool" where
  "vm_disk_is_active d \<longleftrightarrow> d_fp d \<noteq> None"

text \<open>The loop that extends the image with zeros in blocks of 64 KiB.\<close>

function zero_fill :: "fstore \<Rightarrow> string \<Rightarrow> nat \<Rightarrow> nat \<Rightarrow> bool \<times> fstore" where
  "zero_fill fs path n target =
     (if n < target then
        let chunk = (if target - n < 65536 then target - n else 65536);
            (w, fs) = fwrite fs path n (replicate chunk 0)
        in if w \<noteq> chunk then (False, fs) else zero_fill fs path (n + 65536) target
      else (True, fs))"
  by pat_completeness auto
termination by (relation "measure (\<lambda>(fs, path, n, target). target - n)") auto

text \<open>\<open>refused\<close>: the file jail is active in VM mode and does not allow the path; \<open>can_create\<close>: the
  host lets the image be created; \<open>alloc\<close>: the zero block could be allocated.\<close>

definition vm_disk_init ::
  "bool \<Rightarrow> bool \<Rightarrow> bool \<Rightarrow> string \<Rightarrow> nat \<Rightarrow> vm_disk \<Rightarrow> fstore \<Rightarrow> int \<times> vm_disk \<times> fstore" where
  "vm_disk_init refused can_create alloc path size_mb d fs =
     (if size_mb = 0 then (- 1, d, fs)
      else if refused then (- 1, d, fs)
      else
        let d = (vm_disk_shutdown d)\<lparr>d_path := take (VM_DISK_PATH_MAX - 1) path\<rparr>
        in if \<not> fopen_r fs path \<and> \<not> can_create then (- 1, d, fs)
           else
             let fs = (if fopen_r fs path then fs else fopen_w fs path);
                 target = size_mb * 1024 * 1024;
                 pos = fsize fs path
             in if pos < target then
                  if \<not> alloc then (- 1, d, fs)
                  else let (ok, fs) = zero_fill fs path pos target
                       in if ok then (0, d\<lparr>d_fp := Some path, d_sectors := of_nat (target div SECTOR_SIZE)\<rparr>, fs)
                          else (- 1, d, fs)
                else (0, d\<lparr>d_fp := Some path, d_sectors := of_nat (target div SECTOR_SIZE)\<rparr>, fs))"

text \<open>\<open>None\<close> is the result \<open>-1\<close>.\<close>

definition vm_disk_read_sector :: "vm_disk \<Rightarrow> fstore \<Rightarrow> u32 \<Rightarrow> u8 list option" where
  "vm_disk_read_sector d fs lba =
     (case d_fp d of
        None \<Rightarrow> None
      | Some path \<Rightarrow>
          if lba \<ge> d_sectors d then None
          else let bs = fread fs path (unat lba * SECTOR_SIZE) SECTOR_SIZE
               in if length bs \<noteq> SECTOR_SIZE then None else Some bs)"

definition vm_disk_write_sector :: "vm_disk \<Rightarrow> fstore \<Rightarrow> u32 \<Rightarrow> u8 list \<Rightarrow> int \<times> fstore" where
  "vm_disk_write_sector d fs lba buf =
     (case d_fp d of
        None \<Rightarrow> (- 1, fs)
      | Some path \<Rightarrow>
          if lba \<ge> d_sectors d then (- 1, fs)
          else let (w, fs) = fwrite fs path (unat lba * SECTOR_SIZE) buf
               in (if w \<noteq> SECTOR_SIZE then - 1 else 0, fs))"

text \<open>The copy loop of the two snapshot functions, in blocks of 64 KiB.\<close>

function copy_chunks :: "fstore \<Rightarrow> string \<Rightarrow> string \<Rightarrow> nat \<Rightarrow> nat \<Rightarrow> bool \<times> fstore" where
  "copy_chunks fs src dst n size' =
     (if n < size' then
        let chunk = (if size' - n < 65536 then size' - n else 65536);
            buf = fread fs src n chunk
        in if length buf \<noteq> chunk then (False, fs)
           else let (w, fs) = fwrite fs dst n buf
                in if w \<noteq> chunk then (False, fs) else copy_chunks fs src dst (n + 65536) size'
      else (True, fs))"
  by pat_completeness auto
termination by (relation "measure (\<lambda>(fs, src, dst, n, size'). size' - n)") auto

declare zero_fill.simps [simp del] copy_chunks.simps [simp del]

definition vm_disk_snapshot_save :: "bool \<Rightarrow> bool \<Rightarrow> string \<Rightarrow> vm_disk \<Rightarrow> fstore \<Rightarrow> int \<times> fstore" where
  "vm_disk_snapshot_save can_create alloc dest_path d fs =
     (if d_fp d = None \<or> \<not> fopen_r fs (d_path d) \<or> \<not> can_create then (- 1, fs)
      else
        let fs = fopen_w fs dest_path; size' = unat (d_sectors d) * SECTOR_SIZE
        in if \<not> alloc then (- 1, fs)
           else let (ok, fs) = copy_chunks fs (d_path d) dest_path 0 size' in (if ok then 0 else - 1, fs))"

definition vm_disk_snapshot_restore :: "bool \<Rightarrow> bool \<Rightarrow> string \<Rightarrow> vm_disk \<Rightarrow> fstore \<Rightarrow> int \<times> vm_disk \<times> fstore" where
  "vm_disk_snapshot_restore can_create alloc src_path d fs =
     (if d_fp d = None then (- 1, d, fs)
      else
        let d = d\<lparr>d_fp := None\<rparr>
        in if \<not> fopen_r fs src_path \<or> \<not> can_create then (- 1, d, fs)
           else
             let fs = fopen_w fs (d_path d); size' = unat (d_sectors d) * SECTOR_SIZE
             in if \<not> alloc then (- 1, d, fs)
                else let (ok, fs) = copy_chunks fs src_path (d_path d) 0 size';
                         d = d\<lparr>d_fp := (if fopen_r fs (d_path d) then Some (d_path d) else None)\<rparr>
                     in (if d_fp d \<noteq> None \<and> ok then 0 else - 1, d, fs))"

section \<open>Checkpoints\<close>

record vm_snap =
  sn_ram_copy :: "u8 list option"
  sn_ram_size :: u64
  sn_cpu_copy :: vm_cpu
  sn_kbd_copy :: "u8 list"
  sn_kbd_head :: nat
  sn_kbd_tail :: nat
  sn_ticks_copy :: u64
  sn_has_checkpoint :: bool

abbreviation VM_SNAPSHOT_DISK_PATH :: string where
  "VM_SNAPSHOT_DISK_PATH \<equiv> ''vm_checkpoint_disk.img''"

text \<open>\<open>alloc\<close> is the block for the copy of the RAM (\<open>None\<close> when the allocation fails); the two other
  parameters belong to the copy of the disk.\<close>

definition vm_snapshot_save ::
  "(nat \<Rightarrow> u8 list option) \<Rightarrow> bool \<Rightarrow> bool \<Rightarrow> vm_host \<Rightarrow> memory \<Rightarrow> vm_disk \<Rightarrow> vm_snap \<Rightarrow> fstore \<Rightarrow> (int \<times> vm_snap \<times> fstore) option" where
  "vm_snapshot_save alloc can_create dalloc host m d sn fs =
     (let mm = h_mem host
      in if m_ram mm = NULL \<or> m_size mm = 0 then Some (- 1, sn, fs)
         else
           let sn = (if sn_ram_copy sn \<noteq> None \<and> sn_ram_size sn \<noteq> m_size mm then sn\<lparr>sn_ram_copy := None\<rparr> else sn);
               sn = (if sn_ram_copy sn = None
                     then sn\<lparr>sn_ram_copy := alloc (unat (m_size mm)),
                             sn_ram_size := (if alloc (unat (m_size mm)) = None then sn_ram_size sn else m_size mm)\<rparr>
                     else sn)
           in case sn_ram_copy sn of
                None \<Rightarrow> Some (- 1, sn, fs)
              | Some copy \<Rightarrow> do {
                  ram \<leftarrow> ram_load mm m 0 (unat (m_size mm));
                  copy \<leftarrow> bcopy copy 0 ram;
                  let sn = sn\<lparr>sn_ram_copy := Some copy, sn_cpu_copy := h_cpu host, sn_kbd_copy := h_kbd_queue host,
                              sn_kbd_head := h_kbd_head host, sn_kbd_tail := h_kbd_tail host,
                              sn_ticks_copy := h_vm_ticks host\<rparr>;
                  let fs = (if vm_disk_is_active d then snd (vm_disk_snapshot_save can_create dalloc VM_SNAPSHOT_DISK_PATH d fs) else fs);
                  Some (0, sn\<lparr>sn_has_checkpoint := True\<rparr>, fs)
                })"

definition vm_snapshot_restore ::
  "bool \<Rightarrow> bool \<Rightarrow> vm_host \<Rightarrow> memory \<Rightarrow> vm_disk \<Rightarrow> vm_snap \<Rightarrow> fstore \<Rightarrow> (int \<times> vm_host \<times> memory \<times> vm_disk \<times> fstore) option" where
  "vm_snapshot_restore can_create dalloc host m d sn fs =
     (case sn_ram_copy sn of
        None \<Rightarrow> Some (- 1, host, m, d, fs)
      | Some copy \<Rightarrow>
          if \<not> sn_has_checkpoint sn then Some (- 1, host, m, d, fs)
          else
            let mm = h_mem host
            in if m_ram mm = NULL \<or> m_size mm \<noteq> sn_ram_size sn then Some (- 1, host, m, d, fs)
               else do {
                 ram \<leftarrow> bslice copy 0 (unat (m_size mm));
                 m \<leftarrow> ram_store mm m 0 ram;
                 let host = host\<lparr>h_cpu := sn_cpu_copy sn, h_kbd_queue := sn_kbd_copy sn, h_kbd_head := sn_kbd_head sn,
                                 h_kbd_tail := sn_kbd_tail sn, h_vm_ticks := sn_ticks_copy sn\<rparr>;
                 let (rc, d, fs) = (if vm_disk_is_active d
                                    then vm_disk_snapshot_restore can_create dalloc VM_SNAPSHOT_DISK_PATH d fs else (0, d, fs));
                 Some (0, host, m, d, fs)
               })"

definition vm_snapshot_has_checkpoint :: "vm_snap \<Rightarrow> bool" where
  "vm_snapshot_has_checkpoint sn = sn_has_checkpoint sn"

definition vm_snapshot_shutdown :: "vm_snap \<Rightarrow> vm_snap" where
  "vm_snapshot_shutdown sn = sn\<lparr>sn_ram_copy := None, sn_ram_size := 0, sn_has_checkpoint := False\<rparr>"

section \<open>Keyboard queue\<close>

definition kbd_inv :: "vm_host \<Rightarrow> bool" where
  "kbd_inv host \<longleftrightarrow> length (h_kbd_queue host) = 32 \<and> h_kbd_head host < 32 \<and> h_kbd_tail host < 32"

definition kbd_len :: "vm_host \<Rightarrow> nat" where
  "kbd_len host = (h_kbd_tail host + 32 - h_kbd_head host) mod 32"

definition kbd_codes :: "vm_host \<Rightarrow> u8 list" where
  "kbd_codes host = ring_contents (h_kbd_queue host) 32 (h_kbd_head host) (kbd_len host)"

definition kbd_put :: "u8 \<Rightarrow> vm_host \<Rightarrow> (nat \<times> vm_host) option" where
  "kbd_put sc host = do { (rc, host) \<leftarrow> vm_host_kbd_push host sc; Some (if rc = 0 then 1 else 0, host) }"

definition kbd_get :: "unit \<Rightarrow> vm_host \<Rightarrow> (u8 list \<times> vm_host) option" where
  "kbd_get k host = do { (r, host) \<leftarrow> vm_host_kbd_pop host; Some (case r of None \<Rightarrow> [] | Some sc \<Rightarrow> [sc], host) }"

lemma kbd_tail_eq: "kbd_inv host \<Longrightarrow> h_kbd_tail host = (h_kbd_head host + kbd_len host) mod 32"
  by (auto simp: kbd_inv_def kbd_len_def mod_simps)

lemma kbd_len_push:
  assumes "kbd_inv host" and "(h_kbd_tail host + 1) mod 32 \<noteq> h_kbd_head host"
  shows "kbd_len (host\<lparr>h_kbd_queue := q, h_kbd_tail := (h_kbd_tail host + 1) mod 32\<rparr>) = Suc (kbd_len host)"
  using assms by (auto simp: kbd_inv_def kbd_len_def mod_if split: if_splits)

lemma kbd_len_pop:
  assumes "kbd_inv host" and "h_kbd_head host \<noteq> h_kbd_tail host"
  shows "kbd_len (host\<lparr>h_kbd_head := (h_kbd_head host + 1) mod 32\<rparr>) = kbd_len host - 1" and "0 < kbd_len host"
  using assms by (auto simp: kbd_inv_def kbd_len_def mod_if split: if_splits)

lemma kbd_put_ok:
  assumes i: "kbd_inv host"
  shows "\<exists>n host'. kbd_put sc host = Some (n, host') \<and> kbd_inv host' \<and> n \<le> 1 \<and>
           kbd_codes host' = kbd_codes host @ take n [sc]"
proof (cases "(h_kbd_tail host + 1) mod 32 = h_kbd_head host")
  case True
  then show ?thesis using i by (simp add: kbd_put_def vm_host_kbd_push_def Let_def)
next
  case False
  let ?h = "host\<lparr>h_kbd_queue := (h_kbd_queue host)[h_kbd_tail host := sc], h_kbd_tail := (h_kbd_tail host + 1) mod 32\<rparr>"
  have p: "kbd_put sc host = Some (1, ?h)"
    using i False by (simp add: kbd_put_def vm_host_kbd_push_def kbd_inv_def Let_def)
  have l: "kbd_len ?h = Suc (kbd_len host)" by (rule kbd_len_push [OF i False])
  moreover have "kbd_len ?h < 32" by (simp add: kbd_len_def)
  ultimately have "kbd_codes ?h = kbd_codes host @ [sc]"
    using i ring_push [of "kbd_len host" 32 "h_kbd_queue host" "h_kbd_tail host" "h_kbd_head host" sc] kbd_tail_eq [OF i]
    by (simp add: kbd_codes_def kbd_inv_def)
  then show ?thesis using p i by (simp add: kbd_inv_def)
qed

lemma kbd_get_ok:
  assumes i: "kbd_inv host"
  shows "\<exists>ys host'. kbd_get k host = Some (ys, host') \<and> kbd_inv host' \<and> kbd_codes host = ys @ kbd_codes host'"
proof (cases "h_kbd_head host = h_kbd_tail host")
  case True
  then show ?thesis using i by (simp add: kbd_get_def vm_host_kbd_pop_def)
next
  case False
  let ?h = "host\<lparr>h_kbd_head := (h_kbd_head host + 1) mod 32\<rparr>"
  have p: "kbd_get k host = Some ([h_kbd_queue host ! h_kbd_head host], ?h)"
    using i False by (simp add: kbd_get_def vm_host_kbd_pop_def kbd_inv_def)
  have "kbd_codes host = h_kbd_queue host ! h_kbd_head host # kbd_codes ?h"
    using ring_pop [OF kbd_len_pop(2) [OF i False], of "h_kbd_queue host" 32 "h_kbd_head host"] kbd_len_pop(1) [OF i False] i
    by (simp add: kbd_codes_def kbd_inv_def)
  then show ?thesis using p i by (simp add: kbd_inv_def)
qed

interpretation kbd_fifo: bounded_fifo kbd_inv kbd_codes "\<lambda>_. 31" "\<lambda>_ sc. [sc]" kbd_put kbd_get "(=)"
proof unfold_locales
  fix q :: vm_host and sc :: u8 and k :: unit
  show "length (kbd_codes q) \<le> 31"
    using mod_less_divisor [of 32 "h_kbd_tail q + 32 - h_kbd_head q"] by (simp add: kbd_codes_def kbd_len_def)
  assume q: "kbd_inv q"
  show "\<exists>n q'. kbd_put sc q = Some (n, q') \<and> kbd_inv q' \<and> n \<le> length [sc] \<and> kbd_codes q' = kbd_codes q @ take n [sc] \<and> 31 = (31 :: nat)"
    using kbd_put_ok [OF q, of sc] by force
  show "\<exists>ys gone q'. kbd_get k q = Some (ys, q') \<and> kbd_inv q' \<and> kbd_codes q = gone @ kbd_codes q' \<and> list_all2 (=) ys gone \<and> 31 = (31 :: nat)"
    using kbd_get_ok [OF q, of k] unfolding list.rel_eq by blast
qed

section \<open>Copies of the disk\<close>

lemma copy_chunks_ok:
  assumes "f_files fs src = Some bs" and "f_files fs dst = Some (take (min n size') bs)" and "src \<noteq> dst"
    and "size' \<le> length bs" and "size' \<le> f_limit fs"
  shows "copy_chunks fs src dst n size' = (True, fs\<lparr>f_files := (f_files fs)(dst \<mapsto> take size' bs)\<rparr>)"
  using assms
proof (induction "size' - n" arbitrary: n fs rule: less_induct)
  case less
  note p = less.prems
  show ?case
  proof (cases "n < size'")
    case True
    define chunk where "chunk = (if size' - n < 65536 then size' - n else 65536)"
    let ?buf = "take chunk (drop n bs)"
    have c: "n + chunk \<le> size'" "n + chunk = min (n + 65536) size'" using True by (auto simp: chunk_def)
    have r: "fread fs src n chunk = ?buf" "length ?buf = chunk" using p(1,4) c by (simp_all add: fread_def)
    have o: "overwrite (take n bs) n ?buf = take (n + chunk) bs"
      using p(4) c(1) overwrite_end [of "take n bs" ?buf] unfolding take_add by simp
    let ?fs = "fs\<lparr>f_files := (f_files fs)(dst \<mapsto> take (n + chunk) bs)\<rparr>"
    have w: "fwrite fs dst n ?buf = (chunk, ?fs)"
      using fwrite_ok [of n ?buf fs dst "take n bs"] p(2,4,5) True c r(2) o by simp
    have "copy_chunks ?fs src dst (n + 65536) size' = (True, ?fs\<lparr>f_files := (f_files ?fs)(dst \<mapsto> take size' bs)\<rparr>)"
      using less.hyps [of "n + 65536" ?fs] True p c by simp
    then show ?thesis
      using True r w by (subst copy_chunks.simps) (simp add: chunk_def [symmetric])
  next
    case False
    then show ?thesis using p by (subst copy_chunks.simps) (simp add: fun_upd_idem)
  qed
qed

lemma zero_fill_ok:
  assumes "f_files fs path = Some (bs @ replicate (min n target - length bs) 0)" and "length bs \<le> n" and "target \<le> f_limit fs"
    and "length bs \<le> target"
  shows "zero_fill fs path n target = (True, fs\<lparr>f_files := (f_files fs)(path \<mapsto> bs @ replicate (target - length bs) 0)\<rparr>)"
  using assms
proof (induction "target - n" arbitrary: n fs rule: less_induct)
  case less
  note p = less.prems
  show ?case
  proof (cases "n < target")
    case True
    define chunk where "chunk = (if target - n < 65536 then target - n else 65536)"
    have c: "n + chunk = min (n + 65536) target" using True by (auto simp: chunk_def)
    let ?old = "bs @ replicate (n - length bs) 0" and ?z = "replicate chunk (0 :: u8)"
    let ?fs = "fs\<lparr>f_files := (f_files fs)(path \<mapsto> bs @ replicate (n + chunk - length bs) 0)\<rparr>"
    have "overwrite ?old n ?z = bs @ replicate (n + chunk - length bs) 0"
      using overwrite_end [of ?old ?z] p(2) by (simp add: replicate_add [symmetric])
    then have w: "fwrite fs path n ?z = (chunk, ?fs)"
      using fwrite_ok [of n ?z fs path ?old] p(1,3) c True by simp
    have "zero_fill ?fs path (n + 65536) target = (True, ?fs\<lparr>f_files := (f_files ?fs)(path \<mapsto> bs @ replicate (target - length bs) 0)\<rparr>)"
      using less.hyps [of "n + 65536" ?fs] True p c by simp
    then show ?thesis using True w by (subst zero_fill.simps) (simp add: chunk_def [symmetric])
  next
    case False
    then show ?thesis using p by (subst zero_fill.simps) (simp add: fun_upd_idem)
  qed
qed

section \<open>Invariants of disk and checkpoint\<close>

text \<open>An open disk whose image file holds at least its sectors, all below the host's file limit.\<close>

definition disk_inv :: "vm_disk \<Rightarrow> fstore \<Rightarrow> bool" where
  "disk_inv d fs \<longleftrightarrow> (\<exists>path bs. d_fp d = Some path \<and> f_files fs path = Some bs \<and>
     unat (d_sectors d) * SECTOR_SIZE \<le> length bs \<and> unat (d_sectors d) * SECTOR_SIZE \<le> f_limit fs)"

definition snap_inv :: "vm_snap \<Rightarrow> bool" where
  "snap_inv sn \<longleftrightarrow> (\<forall>c. sn_ram_copy sn = Some c \<longrightarrow> length c = unat (sn_ram_size sn))"

lemma vm_disk_init_ok:
  assumes s: "0 < size_mb" "size_mb < 2 ^ 21" and l: "size_mb * 1024 * 1024 \<le> f_limit fs"
  shows "\<exists>d' fs'. vm_disk_init False True True path size_mb d fs = (0, d', fs') \<and> disk_inv d' fs' \<and>
           d_fp d' = Some path \<and> unat (d_sectors d') = size_mb * 2048 \<and>
           f_files fs' path = Some (let bs = (case f_files fs path of None \<Rightarrow> [] | Some bs \<Rightarrow> bs)
                                    in bs @ replicate (size_mb * 1024 * 1024 - length bs) 0)"
proof -
  define bs where "bs = (case f_files fs path of None \<Rightarrow> [] | Some bs \<Rightarrow> bs)"
  define fs1 where "fs1 = (if fopen_r fs path then fs else fopen_w fs path)"
  let ?t = "size_mb * 1024 * 1024"
  let ?fs = "if length bs < ?t then fs1\<lparr>f_files := (f_files fs1)(path \<mapsto> bs @ replicate (?t - length bs) 0)\<rparr> else fs1"
  define sec where "sec = (of_nat (?t div 512) :: u32)"
  let ?d = "(vm_disk_shutdown d)\<lparr>d_path := take 255 path, d_fp := Some path, d_sectors := sec\<rparr>"
  have f1: "f_files fs1 path = Some bs" "f_limit fs1 = f_limit fs"
    by (auto simp: fs1_def fopen_r_def fopen_w_def bs_def split: option.splits)
  have "zero_fill fs1 path (length bs) ?t = (True, fs1\<lparr>f_files := (f_files fs1)(path \<mapsto> bs @ replicate (?t - length bs) 0)\<rparr>)"
    if "length bs < ?t"
    using that f1 l by (intro zero_fill_ok) simp_all
  then have "vm_disk_init False True True path size_mb d fs = (0, ?d, ?fs)"
    using s f1(1) unfolding vm_disk_init_def Let_def fs1_def [symmetric] sec_def by (simp add: fsize_def)
  moreover have "?t div 512 = size_mb * 2048" by simp
  then have u: "unat sec = size_mb * 2048" unfolding sec_def using s by (simp only: unat_of_nat) simp
  moreover have "disk_inv ?d ?fs"
    unfolding disk_inv_def using f1 l u by (intro exI [of _ path]) (auto simp: Let_def)
  ultimately show ?thesis using f1(1) by (auto simp: bs_def [symmetric] Let_def)
qed

lemma vm_disk_write_ok:
  assumes i: "disk_inv d fs" and lba: "lba < d_sectors d" and b: "length buf = SECTOR_SIZE"
  shows "\<exists>fs'. vm_disk_write_sector d fs lba buf = (0, fs') \<and> disk_inv d fs' \<and> vm_disk_read_sector d fs' lba = Some buf \<and>
           (\<forall>k. k \<noteq> lba \<longrightarrow> vm_disk_read_sector d fs' k = vm_disk_read_sector d fs k)"
proof -
  obtain path bs where p: "d_fp d = Some path" "f_files fs path = Some bs" "unat (d_sectors d) * 512 \<le> length bs"
      "unat (d_sectors d) * 512 \<le> f_limit fs"
    using i by (auto simp: disk_inv_def)
  let ?o = "unat lba * 512"
  have o: "?o + 512 \<le> unat (d_sectors d) * 512" using lba by (simp add: word_less_nat_alt)
  let ?fs = "fs\<lparr>f_files := (f_files fs)(path \<mapsto> overwrite bs ?o buf)\<rparr>"
  have len: "length (overwrite bs ?o buf) = length bs" using o p(3) b by (simp add: length_overwrite)
  have w: "vm_disk_write_sector d fs lba buf = (0, ?fs)"
    using fwrite_ok [of ?o buf fs path bs] p o b lba by (simp add: vm_disk_write_sector_def)
  have "vm_disk_read_sector d ?fs lba = Some buf"
    using read_overwrite [of buf ?o bs] p(1) lba b by (simp add: vm_disk_read_sector_def fread_def)
  moreover have "vm_disk_read_sector d ?fs k = vm_disk_read_sector d fs k" if "k \<noteq> lba" for k
  proof -
    have "unat k < unat lba \<or> unat lba < unat k" using that by (metis linorder_neqE_nat unat_inj)
    then have "take 512 (drop (unat k * 512) (overwrite bs ?o buf)) = take 512 (drop (unat k * 512) bs)"
      using o p(3) b by (intro read_overwrite_other) auto
    then show ?thesis using p(1,2) by (simp add: vm_disk_read_sector_def fread_def)
  qed
  moreover have "disk_inv d ?fs" using p len by (simp add: disk_inv_def)
  ultimately show ?thesis using w by blast
qed

lemma disk_save_ok:
  assumes i: "disk_inv d fs" and p: "d_fp d = Some (d_path d)" "d_path d \<noteq> dest" and f: "f_files fs (d_path d) = Some bs"
  shows "vm_disk_snapshot_save True True dest d fs = (0, fs\<lparr>f_files := (f_files fs)(dest \<mapsto> take (unat (d_sectors d) * 512) bs)\<rparr>)"
  using copy_chunks_ok [of "fopen_w fs dest" "d_path d" bs dest 0 "unat (d_sectors d) * 512"] i p f
  by (simp add: vm_disk_snapshot_save_def fopen_r_def fopen_w_def disk_inv_def domIff)

lemma disk_restore_ok:
  assumes p: "d_fp d = Some (d_path d)" "d_path d \<noteq> src" and f: "f_files fs src = Some bs" "length bs = unat (d_sectors d) * 512"
    and l: "length bs \<le> f_limit fs"
  shows "vm_disk_snapshot_restore True True src d fs = (0, d, fs\<lparr>f_files := (f_files fs)(d_path d \<mapsto> bs)\<rparr>)"
  using copy_chunks_ok [of "fopen_w fs (d_path d)" src bs "d_path d" 0 "unat (d_sectors d) * 512"] assms
  by (simp add: vm_disk_snapshot_restore_def fopen_r_def fopen_w_def domIff Let_def)

lemma vm_snapshot_save_ok:
  assumes mm: "m_ram (h_mem host) \<noteq> NULL" "m_size (h_mem host) \<noteq> 0" and sn: "snap_inv sn"
    and al: "\<And>k. \<exists>b. alloc k = Some b \<and> length b = k"
  shows "\<exists>sn'. vm_snapshot_save alloc cc da host m d sn fs =
             Some (0, sn', if vm_disk_is_active d then snd (vm_disk_snapshot_save cc da VM_SNAPSHOT_DISK_PATH d fs) else fs) \<and>
           sn_ram_copy sn' = Some (mem_read m (m_ram (h_mem host)) (unat (m_size (h_mem host)))) \<and>
           sn_ram_size sn' = m_size (h_mem host) \<and> sn_cpu_copy sn' = h_cpu host \<and> sn_kbd_copy sn' = h_kbd_queue host \<and>
           sn_kbd_head sn' = h_kbd_head host \<and> sn_kbd_tail sn' = h_kbd_tail host \<and> sn_ticks_copy sn' = h_vm_ticks host \<and>
           sn_has_checkpoint sn'"
proof -
  let ?n = "unat (m_size (h_mem host))"
  obtain b where b: "alloc ?n = Some b" "length b = ?n" using al by blast
  have c: "bcopy c 0 (mem_read m a ?n) = Some (mem_read m a ?n)" if "length c = ?n" for c a
    using that by (simp add: bcopy_def)
  show ?thesis
  proof (cases "sn_ram_copy sn = None \<or> sn_ram_size sn \<noteq> m_size (h_mem host)")
    case True
    then show ?thesis using mm b c [OF b(2)] by (auto simp: vm_snapshot_save_def Let_def ram_load_def)
  next
    case False
    then obtain c0 where "sn_ram_copy sn = Some c0" "length c0 = ?n" using sn by (auto simp: snap_inv_def)
    then show ?thesis using mm False c by (auto simp: vm_snapshot_save_def Let_def ram_load_def)
  qed
qed

lemma vm_snapshot_restore_ok:
  assumes "sn_ram_copy sn = Some c" and "length c = unat (sn_ram_size sn)" and "sn_has_checkpoint sn"
    and "m_ram (h_mem host) \<noteq> NULL" and "m_size (h_mem host) = sn_ram_size sn"
  shows "vm_snapshot_restore cc da host m d sn fs =
           (let (rc, d', fs') = (if vm_disk_is_active d then vm_disk_snapshot_restore cc da VM_SNAPSHOT_DISK_PATH d fs else (0, d, fs))
            in Some (0, host\<lparr>h_cpu := sn_cpu_copy sn, h_kbd_queue := sn_kbd_copy sn, h_kbd_head := sn_kbd_head sn,
                              h_kbd_tail := sn_kbd_tail sn, h_vm_ticks := sn_ticks_copy sn\<rparr>,
                     mem_write m (m_ram (h_mem host)) c, d', fs'))"
  using assms by (simp add: vm_snapshot_restore_def bslice_def ram_store_def Let_def split: prod.splits)

lemma mem_write_read:
  assumes "n < 2 ^ 64"
  shows "mem_write m' a (mem_read m a n) = (\<lambda>x. if unat (x - a) < n then m x else m' x)"
  by (auto simp: mem_write_def mem_fill_def mem_read_def)

section \<open>Properties\<close>


definition demo_host :: vm_host where
  "demo_host = zero_host\<lparr>h_mem := \<lparr>m_ram = 0x1000, m_size = GUEST_RAM_SIZE\<rparr>\<rparr>"

definition demo_disk :: vm_disk where
  "demo_disk = \<lparr>d_fp = Some ''vm_disk.img'', d_sectors = 4, d_path = ''vm_disk.img''\<rparr>"

definition demo_files :: fstore where
  "demo_files = \<lparr>f_files = [''vm_disk.img'' \<mapsto> replicate 2048 7], f_limit = 4096\<rparr>"

definition demo_snap :: vm_snap where
  "demo_snap = \<lparr>sn_ram_copy = None, sn_ram_size = 0, sn_cpu_copy = vm_cpu_init, sn_kbd_copy = [], sn_kbd_head = 0,
                sn_kbd_tail = 0, sn_ticks_copy = 0, sn_has_checkpoint = False\<rparr>"

lemma demo_disk_inv: "disk_inv demo_disk demo_files"
  by (simp add: disk_inv_def demo_disk_def demo_files_def)




text \<open>The keyboard queue delivers the accepted scan codes once and in order, holds at most 31 of
  them and never leaves its array, for any sequence of key presses and reads.\<close>

lemma vm_kbd_stream:
  assumes "kbd_inv host"
  shows "\<exists>sent recv host'. fifo_run (\<lambda>_ sc. [sc]) kbd_put kbd_get ops host = Some (sent, recv, host') \<and>
           kbd_codes host @ sent = recv @ kbd_codes host' \<and> length (kbd_codes host') \<le> 31"
  using kbd_fifo.stream [OF assms, of ops] unfolding list.rel_eq by blast

text \<open>C31: A restore without the checkpoint's disk image reports success although the machine has lost
  its disk: the code ignores the result of the disk part, which closes the image before it
  looks for the copy.\<close>

theorem vm_restore_detaches_disk:
  assumes "sn_ram_copy sn = Some c" and "length c = unat (sn_ram_size sn)" and "sn_has_checkpoint sn"
    and "m_ram (h_mem host) \<noteq> NULL" and "m_size (h_mem host) = sn_ram_size sn"
    and "vm_disk_is_active d" and "f_files fs VM_SNAPSHOT_DISK_PATH = None"
  shows "\<exists>host' m' d' fs'. vm_snapshot_restore cc da host m d sn fs = Some (0, host', m', d', fs') \<and> \<not> vm_disk_is_active d'"
  using vm_snapshot_restore_ok [OF assms(1-5), of cc da m d fs] assms(6,7)
  by (simp add: vm_disk_snapshot_restore_def vm_disk_is_active_def fopen_r_def domIff)

theorem vm_restore_detaches_disk_witness:
  "let sn = demo_snap\<lparr>sn_ram_copy := Some (replicate 0x1000000 0), sn_ram_size := GUEST_RAM_SIZE, sn_has_checkpoint := True\<rparr>
   in vm_disk_is_active demo_disk \<and>
      (\<exists>host' m' d' fs'. vm_snapshot_restore True True demo_host (\<lambda>_. 0) demo_disk sn demo_files = Some (0, host', m', d', fs') \<and>
         \<not> vm_disk_is_active d')"
proof -
  let ?sn = "demo_snap\<lparr>sn_ram_copy := Some (replicate 0x1000000 0), sn_ram_size := GUEST_RAM_SIZE, sn_has_checkpoint := True\<rparr>"
  have "sn_ram_copy ?sn = Some (replicate 0x1000000 0)" "length (replicate 0x1000000 (0 :: u8)) = unat (sn_ram_size ?sn)"
      "sn_has_checkpoint ?sn" "m_ram (h_mem demo_host) \<noteq> NULL" "m_size (h_mem demo_host) = sn_ram_size ?sn"
      "vm_disk_is_active demo_disk" "f_files demo_files VM_SNAPSHOT_DISK_PATH = None"
    by (simp_all add: demo_host_def vm_disk_is_active_def demo_disk_def demo_files_def del: replicate.simps)
  from vm_restore_detaches_disk [OF this, of True True "\<lambda>_. 0"] this(6) show ?thesis unfolding Let_def by blast
qed

end
