(* ===== verification/Sys_VRT.thy ===== *)
theory Sys_VRT
  imports FL_Bytes
begin

text \<open>
  The virtual resource table of \<open>kernel/core/sys/vrt.c\<close>: 256 entries, a handle is an index
  and an entry is free while its resource pointer is \<open>NULL\<close>. The table is given the laws of
  a handle map (allocation returns an unused handle, lookup after allocation and after
  release), which the system calls rely on.
\<close>

section \<open>The code\<close>

abbreviation VRT_MAX_HANDLES :: nat where
  "VRT_MAX_HANDLES \<equiv> 256"

abbreviation VRT_HANDLE_INVALID :: u64 where
  "VRT_HANDLE_INVALID \<equiv> - 1"

datatype vrt_type =
    VRT_TYPE_FILE
  | VRT_TYPE_DIR
  | VRT_TYPE_BLOCK
  | VRT_TYPE_BUFFER
  | VRT_TYPE_PIPE
  | VRT_TYPE_MSGQ

record vrt_entry =
  v_type :: vrt_type
  v_resource :: ptr
  v_path :: string
  v_size :: nat

record vrt =
  s_table :: "vrt_entry list"
  s_inited :: bool

definition zero_entry :: vrt_entry where
  "zero_entry = \<lparr>v_type = VRT_TYPE_FILE, v_resource = NULL, v_path = replicate 256 (CHR 0x00), v_size = 0\<rparr>"

text \<open>The table before the first call: static storage is zero.\<close>

definition vrt_static :: vrt where
  "vrt_static = \<lparr>s_table = replicate VRT_MAX_HANDLES zero_entry, s_inited = False\<rparr>"

definition vrt_init :: "vrt \<Rightarrow> vrt" where
  "vrt_init v = (if s_inited v then v
                 else v\<lparr>s_table := replicate VRT_MAX_HANDLES zero_entry, s_inited := True\<rparr>)"

definition vrt_shutdown :: "vrt \<Rightarrow> vrt" where
  "vrt_shutdown v = v\<lparr>s_table := replicate VRT_MAX_HANDLES zero_entry, s_inited := False\<rparr>"

text \<open>\<open>strncpy (field, path, sizeof field - 1)\<close>: the last byte of the field keeps its value.\<close>

definition strncpy_path :: "string \<Rightarrow> string \<Rightarrow> string" where
  "strncpy_path field path = take 255 (path @ replicate 255 (CHR 0x00)) @ drop 255 field"

text \<open>The \<open>for\<close> loop of \<open>vrt_alloc\<close>: the first free entry from \<open>i\<close> on.\<close>

function vrt_scan :: "vrt_entry list \<Rightarrow> nat \<Rightarrow> nat option option" where
  "vrt_scan tbl i =
     (if i < VRT_MAX_HANDLES then do {
        e \<leftarrow> aget tbl (int i);
        if v_resource e = NULL then Some (Some i) else vrt_scan tbl (i + 1)
      }
      else Some None)"
  by pat_completeness auto
termination by (relation "measure (\<lambda>(tbl, i). VRT_MAX_HANDLES - i)") auto

definition vrt_alloc :: "vrt \<Rightarrow> vrt_type \<Rightarrow> ptr \<Rightarrow> string option \<Rightarrow> nat \<Rightarrow> (u64 \<times> vrt) option" where
  "vrt_alloc v t res path sz =
     (if \<not> s_inited v then Some (VRT_HANDLE_INVALID, v)
      else do {
        r \<leftarrow> vrt_scan (s_table v) 0;
        case r of
          None \<Rightarrow> Some (VRT_HANDLE_INVALID, v)
        | Some i \<Rightarrow> do {
            e \<leftarrow> aget (s_table v) (int i);
            let e = e\<lparr>v_type := t, v_resource := res, v_size := sz,
                      v_path := (case path of
                                   Some p \<Rightarrow> strncpy_path (v_path e) p
                                 | None \<Rightarrow> (v_path e)[0 := CHR 0x00])\<rparr>;
            tbl \<leftarrow> aset (s_table v) (int i) e;
            Some (of_nat i, v\<lparr>s_table := tbl\<rparr>)
          }
      })"

definition vrt_free :: "vrt \<Rightarrow> u64 \<Rightarrow> vrt option" where
  "vrt_free v h =
     (if h \<ge> of_nat VRT_MAX_HANDLES then Some v
      else do {
        tbl \<leftarrow> aset (s_table v) (uint h) zero_entry;
        Some (v\<lparr>s_table := tbl\<rparr>)
      })"

text \<open>\<open>Some None\<close> is the result \<open>-1\<close>.\<close>

definition vrt_get :: "vrt \<Rightarrow> u64 \<Rightarrow> vrt_entry option option" where
  "vrt_get v h =
     (if h \<ge> of_nat VRT_MAX_HANDLES then Some None
      else do {
        e \<leftarrow> aget (s_table v) (uint h);
        if v_resource e = NULL then Some None else Some (Some e)
      })"

definition vrt_resource :: "vrt \<Rightarrow> u64 \<Rightarrow> ptr option" where
  "vrt_resource v h =
     (if h \<ge> of_nat VRT_MAX_HANDLES then Some NULL
      else do { e \<leftarrow> aget (s_table v) (uint h); Some (v_resource e) })"

section \<open>The table as a map of handles\<close>

declare vrt_scan.simps [simp del]

definition vrt_inv :: "vrt \<Rightarrow> bool" where
  "vrt_inv v \<longleftrightarrow> length (s_table v) = VRT_MAX_HANDLES"

text \<open>The live entries, by handle.\<close>

definition vrt_map :: "vrt \<Rightarrow> u64 \<rightharpoonup> vrt_entry" where
  "vrt_map v h =
     (if h < of_nat VRT_MAX_HANDLES \<and> v_resource (s_table v ! unat h) \<noteq> NULL
      then Some (s_table v ! unat h) else None)"

lemma unat_handle: "h < (256 :: u64) \<Longrightarrow> unat h < 256"
  by (simp add: word_less_nat_alt)

lemma vrt_get_map: "vrt_inv v \<Longrightarrow> vrt_get v h = Some (vrt_map v h)"
  using unat_handle [of h] by (auto simp: vrt_get_def vrt_map_def vrt_inv_def not_le)

lemma vrt_resource_map:
  "vrt_inv v \<Longrightarrow> vrt_resource v h = Some (case vrt_map v h of None \<Rightarrow> NULL | Some e \<Rightarrow> v_resource e)"
  using unat_handle [of h] by (auto simp: vrt_resource_def vrt_map_def vrt_inv_def not_le)

lemma vrt_free_map:
  assumes "vrt_inv v"
  shows "\<exists>v'. vrt_free v h = Some v' \<and> vrt_inv v' \<and> s_inited v' = s_inited v \<and> vrt_map v' = (vrt_map v)(h := None)"
proof (cases "h < 256")
  case True
  have "vrt_map (v\<lparr>s_table := (s_table v)[unat h := zero_entry]\<rparr>) k = ((vrt_map v)(h := None)) k" for k
  proof (cases "k = h")
    case True
    then show ?thesis using assms unat_handle [of h] by (simp add: vrt_map_def vrt_inv_def zero_entry_def)
  next
    case False
    then have "unat k \<noteq> unat h" by (simp add: unat_inj)
    then show ?thesis using False by (simp add: vrt_map_def)
  qed
  then show ?thesis using assms True unat_handle [OF True] by (auto simp: vrt_free_def vrt_inv_def not_le fun_eq_iff)
next
  case False
  then show ?thesis using assms by (auto simp: vrt_free_def vrt_map_def fun_eq_iff)
qed

lemma vrt_scan_spec:
  assumes "length tbl = VRT_MAX_HANDLES" and "i \<le> VRT_MAX_HANDLES"
  shows "case vrt_scan tbl i of
           Some (Some j) \<Rightarrow> i \<le> j \<and> j < VRT_MAX_HANDLES \<and> v_resource (tbl ! j) = NULL \<and>
                            (\<forall>k. i \<le> k \<and> k < j \<longrightarrow> v_resource (tbl ! k) \<noteq> NULL)
         | Some None \<Rightarrow> \<forall>k. i \<le> k \<and> k < VRT_MAX_HANDLES \<longrightarrow> v_resource (tbl ! k) \<noteq> NULL
         | None \<Rightarrow> False"
  using assms
proof (induction tbl i rule: vrt_scan.induct)
  case (1 tbl i)
  show ?case
  proof (cases "i < 256 \<and> v_resource (tbl ! i) \<noteq> NULL")
    case True
    then have e: "vrt_scan tbl i = vrt_scan tbl (i + 1)"
      using "1.prems" by (subst vrt_scan.simps) simp
    have IH: "case vrt_scan tbl (i + 1) of
           Some (Some j) \<Rightarrow> i + 1 \<le> j \<and> j < VRT_MAX_HANDLES \<and> v_resource (tbl ! j) = NULL \<and>
                            (\<forall>k. i + 1 \<le> k \<and> k < j \<longrightarrow> v_resource (tbl ! k) \<noteq> NULL)
         | Some None \<Rightarrow> \<forall>k. i + 1 \<le> k \<and> k < VRT_MAX_HANDLES \<longrightarrow> v_resource (tbl ! k) \<noteq> NULL
         | None \<Rightarrow> False"
      using "1.IH" [of "tbl ! i"] True "1.prems" by simp
    have "k = i \<or> i + 1 \<le> k" if "i \<le> k" for k using that by auto
    with IH True show ?thesis unfolding e by (fastforce split: option.splits)
  next
    case False
    then show ?thesis using "1.prems" by (subst vrt_scan.simps) (auto split: option.splits)
  qed
qed

lemma vrt_alloc_map:
  assumes v: "vrt_inv v" and init: "s_inited v" and res: "res \<noteq> NULL"
  shows "\<exists>h v'. vrt_alloc v t res path sz = Some (h, v') \<and> vrt_inv v' \<and> s_inited v' \<and>
    (if \<forall>k < of_nat VRT_MAX_HANDLES. vrt_map v k \<noteq> None then h = VRT_HANDLE_INVALID \<and> v' = v
     else h < of_nat VRT_MAX_HANDLES \<and> vrt_map v h = None \<and>
          (\<exists>e. v_type e = t \<and> v_resource e = res \<and> v_size e = sz \<and> vrt_map v' = (vrt_map v)(h \<mapsto> e)))"
proof -
  have len: "length (s_table v) = 256" using v by (simp add: vrt_inv_def)
  have full: "(\<forall>k < of_nat VRT_MAX_HANDLES. vrt_map v k \<noteq> None) \<longleftrightarrow> (\<forall>k < 256. v_resource (s_table v ! k) \<noteq> NULL)"
  proof -
    have "vrt_map v (of_nat k) \<noteq> None \<longleftrightarrow> v_resource (s_table v ! k) \<noteq> NULL" if "k < 256" for k
      using that by (simp add: vrt_map_def unat_of_nat word_less_nat_alt)
    moreover have "\<exists>j < 256. k = of_nat j" if "k < 256" for k :: u64
      using unat_handle [OF that] by (metis of_nat_unat_id)
    moreover have "of_nat j < (256 :: u64)" if "j < 256" for j
      using that by (simp add: word_less_nat_alt unat_of_nat)
    ultimately show ?thesis by (metis of_nat_numeral)
  qed
  show ?thesis
  proof (cases "vrt_scan (s_table v) 0")
    case None
    then show ?thesis using vrt_scan_spec [OF len, of 0] by simp
  next
    case (Some r)
    show ?thesis
    proof (cases r)
      case None
      then have "\<forall>k < 256. v_resource (s_table v ! k) \<noteq> NULL" using vrt_scan_spec [OF len, of 0] Some by simp
      then show ?thesis using full Some None v init by (simp add: vrt_alloc_def)
    next
      case (Some i)
      have i: "i < 256" "v_resource (s_table v ! i) = NULL"
        using vrt_scan_spec [OF len, of 0] \<open>vrt_scan (s_table v) 0 = Some r\<close> Some by simp_all
      let ?e = "(s_table v ! i)\<lparr>v_type := t, v_resource := res, v_size := sz,
                  v_path := (case path of Some p \<Rightarrow> strncpy_path (v_path (s_table v ! i)) p
                                 | None \<Rightarrow> (v_path (s_table v ! i))[0 := CHR 0x00])\<rparr>"
      let ?v = "v\<lparr>s_table := (s_table v)[i := ?e]\<rparr>"
      have a: "vrt_alloc v t res path sz = Some (of_nat i, ?v)"
        using \<open>vrt_scan (s_table v) 0 = Some r\<close> Some i len init by (simp add: vrt_alloc_def)
      have u: "unat (of_nat i :: u64) = i" using i by (simp add: unat_of_nat)
      have "vrt_map ?v k = ((vrt_map v)(of_nat i \<mapsto> ?e)) k" for k
      proof (cases "k = of_nat i")
        case True
        then show ?thesis using i len res u by (simp add: vrt_map_def word_less_nat_alt)
      next
        case False
        then have "unat k \<noteq> i" by (metis of_nat_unat_id)
        then show ?thesis using False by (simp add: vrt_map_def)
      qed
      moreover have "vrt_map v (of_nat i) = None" using i(2) u by (simp add: vrt_map_def)
      moreover have "(of_nat i :: u64) < 256" using i u by (simp add: word_less_nat_alt)
      ultimately show ?thesis using a i full v init
        by (intro exI [of _ "of_nat i"] exI [of _ ?v]) (auto simp: vrt_inv_def fun_eq_iff intro!: exI [of _ ?e])
    qed
  qed
qed

section \<open>The interface of the system calls\<close>

text \<open>A table that hands out entries by handle: lookup agrees with the map of live entries and
  releasing a handle removes exactly its entry.\<close>

locale handle_table =
  fixes inv :: "'t \<Rightarrow> bool"
    and live :: "'t \<Rightarrow> 'h \<rightharpoonup> 'e"
    and get :: "'t \<Rightarrow> 'h \<Rightarrow> 'e option option"
    and release :: "'t \<Rightarrow> 'h \<Rightarrow> 't option"
  assumes get_live: "inv t \<Longrightarrow> get t h = Some (live t h)"
    and release_live: "inv t \<Longrightarrow> \<exists>t'. release t h = Some t' \<and> inv t' \<and> live t' = (live t)(h := None)"
begin

lemma get_released:
  assumes "inv t" and "release t h = Some t'"
  shows "get t' k = (if k = h then Some None else get t k)"
  using release_live [OF assms(1), of h] assms get_live by fastforce

lemma released_inv: "inv t \<Longrightarrow> release t h = Some t' \<Longrightarrow> inv t' \<and> live t' = (live t)(h := None)"
  using release_live [of t h] by fastforce

end

interpretation vrt_tab: handle_table vrt_inv vrt_map vrt_get vrt_free
proof
  show "vrt_inv v \<Longrightarrow> vrt_get v h = Some (vrt_map v h)" for v h by (rule vrt_get_map)
  show "vrt_inv v \<Longrightarrow> \<exists>v'. vrt_free v h = Some v' \<and> vrt_inv v' \<and> vrt_map v' = (vrt_map v)(h := None)" for v h
    using vrt_free_map by blast
qed

end
