(* ===== verification/Sys_IPC.thy ===== *)
theory Sys_IPC
  imports FL_Fifo
begin

text \<open>
  Pipes and message queues of \<open>kernel/core/sys/ipc.c\<close>, for both builds of the file: the
  kernel build, where an operation that cannot proceed fails at once, and the hosted build,
  where a reader waits on a condition variable.

  The mutual exclusion of the operations (spinlock or mutex) makes each section between two
  lock operations one atomic definition here. Buffer positions and lengths are \<open>nat\<close>: they
  stay below the capacity, itself a \<open>size_t\<close>, so that no counter wraps; the product in
  \<open>msgq_create\<close>, which can wrap, is taken modulo \<open>2^64\<close>.
\<close>

section \<open>The code\<close>

datatype build = Kernel | Hosted

record pipe =
  p_buf :: "u8 list"
  p_cap :: nat
  p_head :: nat
  p_tail :: nat
  p_len :: nat
  p_closing :: bool
  p_waiters :: nat

record msgq =
  q_buf :: "u8 list"
  q_max_messages :: nat
  q_message_size :: nat
  q_head :: nat
  q_tail :: nat
  q_len :: nat
  q_closing :: bool
  q_waiters :: nat

definition min_size :: "nat \<Rightarrow> nat \<Rightarrow> nat" where
  "min_size a b = (if a < b then a else b)"

text \<open>\<open>struct timespec\<close> as seconds and nanoseconds; the first argument is what
  \<open>clock_gettime\<close> stored.\<close>

definition make_abs_timeout :: "int \<times> int \<Rightarrow> nat \<Rightarrow> int \<times> int" where
  "make_abs_timeout now timeout_ms =
     (let sec = fst now + int (timeout_ms div 1000);
          nsec = snd now + int ((timeout_ms mod 1000) * 1000000)
      in if nsec \<ge> 1000000000 then (sec + 1, nsec - 1000000000) else (sec, nsec))"

text \<open>\<open>malloc n\<close> is the block the allocator returns for \<open>n\<close> bytes, \<open>None\<close> for \<open>NULL\<close>, and
  \<open>sp\<close> whether the allocation of the structure itself succeeds. The results are \<open>None\<close> for
  \<open>NULL\<close>.\<close>

definition pipe_create :: "(nat \<Rightarrow> u8 list option) \<Rightarrow> bool \<Rightarrow> nat \<Rightarrow> pipe option" where
  "pipe_create malloc sp sz =
     (if sz = 0 then None
      else if \<not> sp then None
      else case malloc sz of
        None \<Rightarrow> None
      | Some bs \<Rightarrow> Some \<lparr>p_buf = bs, p_cap = sz, p_head = 0, p_tail = 0, p_len = 0,
                         p_closing = False, p_waiters = 0\<rparr>)"

text \<open>\<open>Ret\<close>: the pipe has been released.\<close>

definition pipe_destroy :: "build \<Rightarrow> pipe \<Rightarrow> unit outcome \<times> pipe" where
  "pipe_destroy b p =
     (case b of
        Kernel \<Rightarrow> (Ret (), p)
      | Hosted \<Rightarrow>
          let p = p\<lparr>p_closing := True\<rparr>
          in if p_waiters p > 0 then (Block, p) else (Ret (), p))"

function pipe_write_loop :: "u8 list \<Rightarrow> nat \<Rightarrow> nat \<Rightarrow> pipe \<Rightarrow> (nat \<times> pipe) option" where
  "pipe_write_loop src cnt written p =
     (if written < cnt \<and> p_len p < p_cap p then do {
        b \<leftarrow> aget src (int written);
        bs \<leftarrow> aset (p_buf p) (int (p_tail p)) b;
        pipe_write_loop src cnt (written + 1)
          (p\<lparr>p_buf := bs, p_tail := (p_tail p + 1) mod p_cap p, p_len := p_len p + 1\<rparr>)
      }
      else Some (written, p))"
  by pat_completeness auto
termination by (relation "measure (\<lambda>(src, cnt, written, p). cnt - written)") auto

definition pipe_write :: "build \<Rightarrow> pipe \<Rightarrow> u8 list \<Rightarrow> nat \<Rightarrow> (int \<times> pipe) option" where
  "pipe_write b p buf cnt =
     (if cnt = 0 then Some (- 1, p)
      else if b = Hosted \<and> p_closing p then Some (- 1, p)
      else do {
        (written, p) \<leftarrow> pipe_write_loop buf cnt 0 p;
        Some (int written, p)
      })"

function pipe_read_loop :: "u8 list \<Rightarrow> nat \<Rightarrow> nat \<Rightarrow> pipe \<Rightarrow> (nat \<times> u8 list \<times> pipe) option" where
  "pipe_read_loop dst cnt readn p =
     (if readn < cnt \<and> p_len p > 0 then do {
        b \<leftarrow> aget (p_buf p) (int (p_head p));
        dst \<leftarrow> aset dst (int readn) b;
        pipe_read_loop dst cnt (readn + 1)
          (p\<lparr>p_head := (p_head p + 1) mod p_cap p, p_len := p_len p - 1\<rparr>)
      }
      else Some (readn, dst, p))"
  by pat_completeness auto
termination by (relation "measure (\<lambda>(dst, cnt, readn, p). cnt - readn)") auto

text \<open>The part of \<open>pipe_read\<close> after the lock; a hosted reader that wakes up starts here
  again once it has left the count of waiters.\<close>

definition pipe_read_locked ::
  "build \<Rightarrow> pipe \<Rightarrow> u8 list \<Rightarrow> nat \<Rightarrow> ((int \<times> u8 list) outcome \<times> pipe) option" where
  "pipe_read_locked b p buf cnt =
     (let copy = do {
            (readn, buf, p) \<leftarrow> pipe_read_loop buf cnt 0 p;
            Some (Ret (int readn, buf), p)
          }
      in case b of
           Kernel \<Rightarrow> if p_len p = 0 then Some (Ret (- 1, buf), p) else copy
         | Hosted \<Rightarrow>
             if p_len p = 0 \<and> \<not> p_closing p then Some (Block, p\<lparr>p_waiters := p_waiters p + 1\<rparr>)
             else if p_closing p \<and> p_len p = 0 then Some (Ret (- 1, buf), p)
             else copy)"

definition pipe_read :: "build \<Rightarrow> pipe \<Rightarrow> u8 list \<Rightarrow> nat \<Rightarrow> ((int \<times> u8 list) outcome \<times> pipe) option" where
  "pipe_read b p buf cnt =
     (if cnt = 0 then Some (Ret (- 1, buf), p) else pipe_read_locked b p buf cnt)"

definition pipe_read_wake :: "pipe \<Rightarrow> u8 list \<Rightarrow> nat \<Rightarrow> ((int \<times> u8 list) outcome \<times> pipe) option" where
  "pipe_read_wake p buf cnt = pipe_read_locked Hosted (p\<lparr>p_waiters := p_waiters p - 1\<rparr>) buf cnt"

text \<open>\<open>cattr\<close>: the calls that set up the condition attribute of the hosted build succeed.\<close>

definition msgq_create :: "(nat \<Rightarrow> u8 list option) \<Rightarrow> bool \<Rightarrow> build \<Rightarrow> bool \<Rightarrow> nat \<Rightarrow> nat \<Rightarrow> msgq option" where
  "msgq_create malloc sp b cattr max_messages message_size =
     (if max_messages = 0 \<or> message_size = 0 then None
      else if \<not> sp then None
      else case malloc (max_messages * message_size mod 2 ^ 64) of
        None \<Rightarrow> None
      | Some bs \<Rightarrow>
          if b = Hosted \<and> \<not> cattr then None
          else Some \<lparr>q_buf = bs, q_max_messages = max_messages, q_message_size = message_size,
                     q_head = 0, q_tail = 0, q_len = 0, q_closing = False, q_waiters = 0\<rparr>)"

definition msgq_destroy :: "build \<Rightarrow> msgq \<Rightarrow> unit outcome \<times> msgq" where
  "msgq_destroy b q =
     (case b of
        Kernel \<Rightarrow> (Ret (), q)
      | Hosted \<Rightarrow>
          let q = q\<lparr>q_closing := True\<rparr>
          in if q_waiters q > 0 then (Block, q) else (Ret (), q))"

definition msgq_send :: "build \<Rightarrow> msgq \<Rightarrow> u8 list \<Rightarrow> nat \<Rightarrow> (int \<times> msgq) option" where
  "msgq_send b q msg sz =
     (if sz = 0 then Some (- 1, q)
      else if sz > q_message_size q then Some (- 1, q)
      else if b = Hosted \<and> q_closing q then Some (- 1, q)
      else if q_len q \<ge> q_max_messages q then Some (- 1, q)
      else do {
        let slot = q_tail q * q_message_size q;
        buf \<leftarrow> bcopy (q_buf q) slot (replicate (q_message_size q) 0);
        let n = min_size sz (q_message_size q);
        src \<leftarrow> bslice msg 0 n;
        buf \<leftarrow> bcopy buf slot src;
        Some (0, q\<lparr>q_buf := buf, q_tail := (q_tail q + 1) mod q_max_messages q, q_len := q_len q + 1\<rparr>)
      })"

definition msgq_take :: "msgq \<Rightarrow> u8 list \<Rightarrow> nat \<Rightarrow> ((int \<times> u8 list) outcome \<times> msgq) option" where
  "msgq_take q msg sz =
     (if q_len q = 0 then Some (Ret (- 1, msg), q)
      else do {
        let slot = q_head q * q_message_size q;
        let n = min_size sz (q_message_size q);
        src \<leftarrow> bslice (q_buf q) slot n;
        msg \<leftarrow> bcopy msg 0 src;
        Some (Ret (0, msg), q\<lparr>q_head := (q_head q + 1) mod q_max_messages q, q_len := q_len q - 1\<rparr>)
      })"

definition msgq_receive ::
  "build \<Rightarrow> msgq \<Rightarrow> u8 list \<Rightarrow> nat \<Rightarrow> nat \<Rightarrow> ((int \<times> u8 list) outcome \<times> msgq) option" where
  "msgq_receive b q msg sz timeout_ms =
     (if sz = 0 then Some (Ret (- 1, msg), q)
      else if b = Kernel then msgq_take q msg sz
      else if q_closing q then Some (Ret (- 1, msg), q)
      else if q_len q = 0
      then if timeout_ms = 0 then Some (Ret (- 1, msg), q)
           else Some (Block, q\<lparr>q_waiters := q_waiters q + 1\<rparr>)
      else msgq_take q msg sz)"

text \<open>A hosted receiver wakes up with the result \<open>rc\<close> of \<open>pthread_cond_timedwait\<close>.\<close>

definition msgq_receive_wake ::
  "msgq \<Rightarrow> u8 list \<Rightarrow> nat \<Rightarrow> int \<Rightarrow> ((int \<times> u8 list) outcome \<times> msgq) option" where
  "msgq_receive_wake q msg sz rc =
     (let q = q\<lparr>q_waiters := q_waiters q - 1\<rparr>
      in if rc \<noteq> 0 then Some (Ret (- 1, msg), q)
         else if q_len q = 0 \<and> \<not> q_closing q then Some (Block, q\<lparr>q_waiters := q_waiters q + 1\<rparr>)
         else if q_closing q \<and> q_len q = 0 then Some (Ret (- 1, msg), q)
         else msgq_take q msg sz)"

section \<open>Pipes as byte streams\<close>

declare pipe_write_loop.simps [simp del] pipe_read_loop.simps [simp del]

definition pipe_inv :: "pipe \<Rightarrow> bool" where
  "pipe_inv p \<longleftrightarrow> 0 < p_cap p \<and> length (p_buf p) = p_cap p \<and> p_head p < p_cap p \<and>
     p_len p \<le> p_cap p \<and> p_tail p = (p_head p + p_len p) mod p_cap p"

definition pipe_bytes :: "pipe \<Rightarrow> u8 list" where
  "pipe_bytes p = ring_contents (p_buf p) (p_cap p) (p_head p) (p_len p)"

text \<open>The fields a reader or writer that does not wait leaves alone.\<close>

definition pipe_frame :: "pipe \<Rightarrow> pipe \<Rightarrow> bool" where
  "pipe_frame p p' \<longleftrightarrow> p_cap p' = p_cap p \<and> p_closing p' = p_closing p \<and> p_waiters p' = p_waiters p"

lemma length_pipe_bytes [simp]: "length (pipe_bytes p) = p_len p"
  by (simp add: pipe_bytes_def)

lemma pipe_create_inv:
  assumes "pipe_create malloc sp n = Some p" and "\<And>k bs. malloc k = Some bs \<Longrightarrow> length bs = k"
  shows "pipe_inv p" and "pipe_bytes p = []" and "p_cap p = n"
  using assms by (auto simp: pipe_create_def pipe_inv_def pipe_bytes_def split: if_splits option.splits)

lemma pipe_put_byte:
  fixes b :: u8
  assumes "pipe_inv p" and "p_len p < p_cap p"
  defines "p' \<equiv> p\<lparr>p_buf := (p_buf p)[p_tail p := b], p_tail := (p_tail p + 1) mod p_cap p, p_len := p_len p + 1\<rparr>"
  shows "pipe_inv p'" and "pipe_bytes p' = pipe_bytes p @ [b]" and "pipe_frame p p'"
proof -
  have t: "p_tail p = (p_head p + p_len p) mod p_cap p" and c: "p_cap p \<le> length (p_buf p)"
    using assms(1) by (simp_all add: pipe_inv_def)
  show "pipe_inv p'"
    using assms by (auto simp: pipe_inv_def mod_Suc_eq)
  show "pipe_bytes p' = pipe_bytes p @ [b]"
    using ring_push [OF assms(2) c t, of b] by (simp add: pipe_bytes_def p'_def)
  show "pipe_frame p p'" by (simp add: pipe_frame_def p'_def)
qed

lemma pipe_write_loop_spec:
  assumes "pipe_inv p" and "cnt \<le> length src" and "w \<le> cnt"
  shows "\<exists>n p'. pipe_write_loop src cnt w p = Some (w + n, p') \<and>
           n = min (cnt - w) (p_cap p - p_len p) \<and> pipe_inv p' \<and> pipe_frame p p' \<and>
           pipe_bytes p' = pipe_bytes p @ take n (drop w src)"
  using assms
proof (induction src cnt w p rule: pipe_write_loop.induct)
  case (1 src cnt w p)
  show ?case
  proof (cases "w < cnt \<and> p_len p < p_cap p")
    case False
    then have "min (cnt - w) (p_cap p - p_len p) = 0" by auto
    moreover have "pipe_write_loop src cnt w p = Some (w, p)"
      using False by (subst pipe_write_loop.simps) auto
    ultimately show ?thesis using "1.prems" by (auto simp: pipe_frame_def)
  next
    case True
    let ?b = "src ! w"
    let ?p = "p\<lparr>p_buf := (p_buf p)[p_tail p := ?b], p_tail := (p_tail p + 1) mod p_cap p, p_len := p_len p + 1\<rparr>"
    have w: "w < length src" using True "1.prems" by simp
    have t: "p_tail p < length (p_buf p)" using "1.prems"(1) by (simp add: pipe_inv_def)
    note put = pipe_put_byte [OF "1.prems"(1) conjunct2 [OF True], of ?b]
    obtain n p' where IH: "pipe_write_loop src cnt (w + 1) ?p = Some (w + 1 + n, p')"
        "n = min (cnt - (w + 1)) (p_cap ?p - p_len ?p)" "pipe_inv p'" "pipe_frame ?p p'"
        "pipe_bytes p' = pipe_bytes ?p @ take n (drop (w + 1) src)"
      using "1.IH" [OF True, of ?b "(p_buf p)[p_tail p := ?b]"] w t True put(1) "1.prems"(2) by auto
    have "pipe_write_loop src cnt w p = Some (w + Suc n, p')"
      using IH(1) True w t by (subst pipe_write_loop.simps) simp
    moreover have "Suc n = min (cnt - w) (p_cap p - p_len p)" using IH(2) True by auto
    moreover have "pipe_bytes p' = pipe_bytes p @ take (Suc n) (drop w src)"
      using IH(5) put(2) w by (simp add: Cons_nth_drop_Suc [symmetric])
    ultimately show ?thesis using IH(3,4) put(3) by (auto simp: pipe_frame_def)
  qed
qed

lemma pipe_get_byte:
  assumes "pipe_inv p" and "0 < p_len p"
  defines "p' \<equiv> p\<lparr>p_head := (p_head p + 1) mod p_cap p, p_len := p_len p - 1\<rparr>"
  shows "pipe_inv p'" and "pipe_bytes p = p_buf p ! p_head p # pipe_bytes p'" and "pipe_frame p p'"
proof -
  obtain k where k: "p_len p = Suc k" using assms(2) by (cases "p_len p") auto
  have "(Suc (p_head p) mod p_cap p + k) mod p_cap p = (p_head p + Suc k) mod p_cap p"
    by (simp add: mod_add_left_eq)
  then show "pipe_inv p'"
    using assms(1) k by (simp add: pipe_inv_def p'_def)
  show "pipe_bytes p = p_buf p ! p_head p # pipe_bytes p'"
    using ring_pop [OF assms(2), of "p_buf p" "p_cap p" "p_head p"] assms(1)
    by (simp add: pipe_bytes_def p'_def pipe_inv_def)
  show "pipe_frame p p'" by (simp add: pipe_frame_def p'_def)
qed

lemma pipe_read_loop_spec:
  assumes "pipe_inv p" and "cnt \<le> length dst" and "r \<le> cnt"
  shows "\<exists>n p'. pipe_read_loop dst cnt r p
             = Some (r + n, take r dst @ take n (pipe_bytes p) @ drop (r + n) dst, p') \<and>
           n = min (cnt - r) (p_len p) \<and> pipe_inv p' \<and> pipe_frame p p' \<and>
           pipe_bytes p' = drop n (pipe_bytes p)"
  using assms
proof (induction dst cnt r p rule: pipe_read_loop.induct)
  case (1 dst cnt r p)
  show ?case
  proof (cases "r < cnt \<and> p_len p > 0")
    case False
    then have "min (cnt - r) (p_len p) = 0" by auto
    moreover have "pipe_read_loop dst cnt r p = Some (r, dst, p)"
      using False by (subst pipe_read_loop.simps) auto
    ultimately show ?thesis using "1.prems" by (auto simp: pipe_frame_def)
  next
    case True
    let ?b = "p_buf p ! p_head p"
    let ?p = "p\<lparr>p_head := (p_head p + 1) mod p_cap p, p_len := p_len p - 1\<rparr>"
    have r: "r < length dst" using True "1.prems" by simp
    have h: "p_head p < length (p_buf p)" using "1.prems"(1) by (simp add: pipe_inv_def)
    note g = pipe_get_byte [OF "1.prems"(1) conjunct2 [OF True]]
    obtain n p' where IH: "pipe_read_loop (dst[r := ?b]) cnt (r + 1) ?p
          = Some (r + 1 + n, take (r + 1) (dst[r := ?b]) @ take n (pipe_bytes ?p) @ drop (r + 1 + n) (dst[r := ?b]), p')"
        "n = min (cnt - (r + 1)) (p_len ?p)" "pipe_inv p'" "pipe_frame ?p p'" "pipe_bytes p' = drop n (pipe_bytes ?p)"
      using "1.IH" [OF True, of ?b "dst[r := ?b]"] r h True g(1) "1.prems"(2) by auto
    have "pipe_read_loop dst cnt r p
        = Some (r + Suc n, take r dst @ take (Suc n) (pipe_bytes p) @ drop (r + Suc n) dst, p')"
      using IH(1) True r h by (subst pipe_read_loop.simps) (simp add: g(2) take_Suc_conv_app_nth)
    moreover have "Suc n = min (cnt - r) (p_len p)" using IH(2) True by auto
    moreover have "pipe_bytes p' = drop (Suc n) (pipe_bytes p)" using IH(5) g(2) by simp
    ultimately show ?thesis using IH(3,4) g(3) by (intro exI [of _ "Suc n"] exI [of _ p']) (auto simp: pipe_frame_def)
  qed
qed

text \<open>The whole operations on a pipe that is not closing.\<close>

lemma pipe_write_spec:
  assumes "pipe_inv p" and "cnt \<le> length src" and "0 < cnt" and "\<not> p_closing p"
  shows "\<exists>p'. pipe_write b p src cnt = Some (int (min cnt (p_cap p - p_len p)), p') \<and> pipe_inv p' \<and>
           pipe_frame p p' \<and> pipe_bytes p' = pipe_bytes p @ take (min cnt (p_cap p - p_len p)) src"
  using pipe_write_loop_spec [OF assms(1,2), of 0] assms(3,4) by (auto simp: pipe_write_def)

lemma pipe_read_spec:
  assumes "pipe_inv p" and "cnt \<le> length dst" and "0 < cnt" and "0 < p_len p"
  shows "\<exists>p'. pipe_read b p dst cnt
             = Some (Ret (int (min cnt (p_len p)),
                          take (min cnt (p_len p)) (pipe_bytes p) @ drop (min cnt (p_len p)) dst), p') \<and>
           pipe_inv p' \<and> pipe_frame p p' \<and> pipe_bytes p' = drop (min cnt (p_len p)) (pipe_bytes p)"
proof -
  obtain p' where "pipe_read_loop dst cnt 0 p
      = Some (min cnt (p_len p), take (min cnt (p_len p)) (pipe_bytes p) @ drop (min cnt (p_len p)) dst, p')"
      "pipe_inv p'" "pipe_frame p p'" "pipe_bytes p' = drop (min cnt (p_len p)) (pipe_bytes p)"
    using pipe_read_loop_spec [OF assms(1,2), of 0] by auto
  then show ?thesis using assms(3,4) by (cases b) (auto simp: pipe_read_def pipe_read_locked_def)
qed

text \<open>
  Writing a list of bytes and reading up to \<open>k\<close> bytes into a cleared buffer, as the operations
  of a bounded buffer, in either build. \<open>Wake k\<close> is a hosted reader that asked for \<open>k\<close> bytes,
  found the pipe empty and now returns from \<open>pthread_cond_wait\<close>; without such a reader it is no
  event. A read that fails or has to wait delivers nothing.
\<close>

datatype read_op = Read nat | Wake nat

definition delivered :: "(int \<times> u8 list) outcome \<times> 'q \<Rightarrow> u8 list \<times> 'q" where
  "delivered r = (case fst r of Ret (n, dst) \<Rightarrow> (take (nat n) dst, snd r) | Block \<Rightarrow> ([], snd r))"

definition pipe_put :: "build \<Rightarrow> u8 list \<Rightarrow> pipe \<Rightarrow> (nat \<times> pipe) option" where
  "pipe_put b xs p = map_option (\<lambda>(r, p'). (nat r, p')) (pipe_write b p xs (length xs))"

fun pipe_get :: "build \<Rightarrow> read_op \<Rightarrow> pipe \<Rightarrow> (u8 list \<times> pipe) option" where
  "pipe_get b (Read k) p = map_option delivered (pipe_read b p (replicate k 0) k)"
| "pipe_get b (Wake k) p =
     (if b = Hosted \<and> 0 < p_waiters p \<and> 0 < k then map_option delivered (pipe_read_wake p (replicate k 0) k)
      else Some ([], p))"

definition pipe_open :: "pipe \<Rightarrow> bool" where
  "pipe_open p \<longleftrightarrow> pipe_inv p \<and> \<not> p_closing p"

lemma pipe_waiters_simps [simp]:
  "pipe_inv (p\<lparr>p_waiters := w\<rparr>) = pipe_inv p" "pipe_bytes (p\<lparr>p_waiters := w\<rparr>) = pipe_bytes p"
  "pipe_open (p\<lparr>p_waiters := w\<rparr>) = pipe_open p"
  by (simp_all add: pipe_inv_def pipe_bytes_def pipe_open_def)

text \<open>A write accepts what there is room for, a read delivers what was asked for and is there.\<close>

lemma pipe_put_exact:
  assumes "pipe_open p"
  shows "\<exists>p'. pipe_put b xs p = Some (min (length xs) (p_cap p - p_len p), p') \<and> pipe_open p' \<and>
    pipe_bytes p' = pipe_bytes p @ take (min (length xs) (p_cap p - p_len p)) xs \<and> p_cap p' = p_cap p"
proof (cases "xs = []")
  case True
  with assms show ?thesis by (simp add: pipe_put_def pipe_write_def)
next
  case False
  then show ?thesis using pipe_write_spec [of p "length xs" xs b] assms
    by (auto simp: pipe_put_def pipe_frame_def pipe_open_def)
qed

lemma pipe_read_locked_exact:
  assumes "pipe_open p" and "0 < k"
  shows "\<exists>r p'. pipe_read_locked b p (replicate k 0) k = Some (r, p') \<and>
    delivered (r, p') = (take k (pipe_bytes p), p') \<and> pipe_open p' \<and>
    pipe_bytes p' = drop k (pipe_bytes p) \<and> p_cap p' = p_cap p"
proof (cases "p_len p = 0")
  case True
  then have "pipe_bytes p = []" by (simp add: pipe_bytes_def)
  with True assms show ?thesis by (cases b) (auto simp: pipe_read_locked_def delivered_def pipe_open_def)
next
  case False
  obtain p' where p': "pipe_read b p (replicate k 0) k
      = Some (Ret (int (min k (p_len p)),
                   take (min k (p_len p)) (pipe_bytes p) @ drop (min k (p_len p)) (replicate k 0)), p')"
      "pipe_inv p'" "pipe_frame p p'" "pipe_bytes p' = drop (min k (p_len p)) (pipe_bytes p)"
    using pipe_read_spec [of p k "replicate k 0" b] assms False by (auto simp: pipe_open_def)
  have m: "take (min k (p_len p)) (pipe_bytes p) = take k (pipe_bytes p)"
      "drop (min k (p_len p)) (pipe_bytes p) = drop k (pipe_bytes p)"
    by (simp_all add: min_def)
  show ?thesis using p' assms unfolding m
    by (auto simp: pipe_read_def delivered_def pipe_frame_def pipe_open_def min_def)
qed

lemma pipe_get_exact:
  assumes "pipe_open p" and "case g of Read k \<Rightarrow> True | Wake k \<Rightarrow> b = Hosted \<and> 0 < p_waiters p \<and> 0 < k"
  shows "\<exists>p'. pipe_get b g p = Some (take (case g of Read k \<Rightarrow> k | Wake k \<Rightarrow> k) (pipe_bytes p), p') \<and> pipe_open p' \<and>
    pipe_bytes p' = drop (case g of Read k \<Rightarrow> k | Wake k \<Rightarrow> k) (pipe_bytes p) \<and> p_cap p' = p_cap p"
proof (cases g)
  case (Read k)
  then show ?thesis using assms pipe_read_locked_exact [OF assms(1), of k b]
    by (cases "k = 0") (auto simp: pipe_read_def delivered_def)
next
  case (Wake k)
  then show ?thesis using assms pipe_read_locked_exact [of "p\<lparr>p_waiters := p_waiters p - 1\<rparr>" k Hosted]
    by (auto simp: pipe_read_wake_def)
qed

interpretation pipe_fifo: bounded_fifo pipe_open pipe_bytes p_cap "\<lambda>_ xs. xs" "pipe_put b" "pipe_get b" "(=)" for b
proof
  fix p :: pipe and xs :: "u8 list" and g :: read_op
  assume p: "pipe_open p"
  show "length (pipe_bytes p) \<le> p_cap p" using p by (simp add: pipe_inv_def pipe_open_def)
  show "\<exists>n p'. pipe_put b xs p = Some (n, p') \<and> pipe_open p' \<and> n \<le> length xs \<and>
      pipe_bytes p' = pipe_bytes p @ take n xs \<and> p_cap p' = p_cap p"
    using pipe_put_exact [OF p, of b xs] by (metis min.cobounded1)
  show "\<exists>ys gone p'. pipe_get b g p = Some (ys, p') \<and> pipe_open p' \<and>
      pipe_bytes p = gone @ pipe_bytes p' \<and> list_all2 (=) ys gone \<and> p_cap p' = p_cap p"
  proof (cases "case g of Read k \<Rightarrow> True | Wake k \<Rightarrow> b = Hosted \<and> 0 < p_waiters p \<and> 0 < k")
    case True
    then show ?thesis using pipe_get_exact [OF p True] by (auto simp: list.rel_eq)
  next
    case False
    then show ?thesis using p by (cases g) auto
  qed
qed

section \<open>Message queues\<close>

text \<open>The slots of a message buffer, and the messages in it, oldest first.\<close>

definition chunks :: "u8 list \<Rightarrow> nat \<Rightarrow> nat \<Rightarrow> u8 list list" where
  "chunks buf n sz = map (\<lambda>i. take sz (drop (i * sz) buf)) [0..<n]"

definition msgq_inv :: "msgq \<Rightarrow> bool" where
  "msgq_inv q \<longleftrightarrow> 0 < q_max_messages q \<and> 0 < q_message_size q \<and>
     length (q_buf q) = q_max_messages q * q_message_size q \<and> q_head q < q_max_messages q \<and>
     q_len q \<le> q_max_messages q \<and> q_tail q = (q_head q + q_len q) mod q_max_messages q"

definition msgq_msgs :: "msgq \<Rightarrow> u8 list list" where
  "msgq_msgs q = ring_contents (chunks (q_buf q) (q_max_messages q) (q_message_size q))
                   (q_max_messages q) (q_head q) (q_len q)"

text \<open>A message is stored padded with zeros to the size of a slot.\<close>

definition padded :: "nat \<Rightarrow> u8 list \<Rightarrow> u8 list" where
  "padded n msg = msg @ replicate (n - length msg) 0"

lemma slot_bound: "i < n \<Longrightarrow> i * sz + sz \<le> n * (sz :: nat)"
  by (metis add.commute mult_Suc mult_le_mono1 Suc_leI)

lemma length_chunks [simp]: "length (chunks buf n sz) = n"
  by (simp add: chunks_def)

lemma nth_chunks: "i < n \<Longrightarrow> chunks buf n sz ! i = take sz (drop (i * sz) buf)"
  by (simp add: chunks_def)

lemma chunks_bcopy:
  assumes "length buf = n * sz" and "t < n" and "length src = sz" and "bcopy buf (t * sz) src = Some buf'"
  shows "chunks buf' n sz = (chunks buf n sz)[t := src]"
proof (rule nth_equalityI)
  fix i
  assume "i < length (chunks buf' n sz)"
  then have i: "i < n" by (simp add: chunks_def)
  have len: "length buf' = n * sz" using bcopy_length [OF assms(4)] assms(1) by simp
  have sl: "bslice b (i * sz) sz = Some (chunks b n sz ! i)" if "length b = n * sz" for b
    using slot_bound [OF i, of sz] that i by (simp add: bslice_def nth_chunks)
  show "chunks buf' n sz ! i = (chunks buf n sz)[t := src] ! i"
  proof (cases "i = t")
    case True
    then show ?thesis using bslice_bcopy_same [OF assms(4)] sl [OF len] assms(2,3) by (simp add: chunks_def)
  next
    case False
    then have "i * sz + sz \<le> t * sz \<or> t * sz + sz \<le> i * sz"
      using slot_bound [of i t sz] slot_bound [of t i sz] by linarith
    then have "bslice buf' (i * sz) sz = bslice buf (i * sz) sz"
      using bslice_bcopy_other [OF assms(4)] assms(3) by blast
    then show ?thesis using sl [OF len] sl [OF assms(1)] False by simp
  qed
qed (simp add: chunks_def)

lemma bcopy_twice:
  assumes "bcopy buf off (replicate n 0) = Some buf1" and "length src \<le> n"
  shows "bcopy buf1 off src = bcopy buf off (src @ replicate (n - length src) 0)"
  using assms by (auto simp: bcopy_def min_def split: if_splits)

definition msgq_frame :: "msgq \<Rightarrow> msgq \<Rightarrow> bool" where
  "msgq_frame q q' \<longleftrightarrow> q_max_messages q' = q_max_messages q \<and> q_message_size q' = q_message_size q \<and>
     q_closing q' = q_closing q \<and> q_waiters q' = q_waiters q"

lemma msgq_send_spec:
  assumes q: "msgq_inv q" and n: "0 < n" "n \<le> q_message_size q" "n \<le> length msg"
    and "\<not> q_closing q" "q_len q < q_max_messages q"
  shows "\<exists>q'. msgq_send b q msg n = Some (0, q') \<and> msgq_inv q' \<and> msgq_frame q q' \<and>
           msgq_msgs q' = msgq_msgs q @ [padded (q_message_size q) (take n msg)]"
proof -
  let ?sz = "q_message_size q" and ?mx = "q_max_messages q"
  let ?m = "padded ?sz (take n msg)"
  have t: "q_tail q < ?mx" and len: "length (q_buf q) = ?mx * ?sz"
    using q by (auto simp: msgq_inv_def)
  have lm: "length ?m = ?sz" using n by (simp add: padded_def)
  obtain buf1 where b1: "bcopy (q_buf q) (q_tail q * ?sz) (replicate ?sz 0) = Some buf1"
    using slot_bound [OF t, of ?sz] len by (simp add: bcopy_Some)
  obtain buf2 where b2: "bcopy (q_buf q) (q_tail q * ?sz) ?m = Some buf2"
    using slot_bound [OF t, of ?sz] len lm by (simp add: bcopy_Some)
  have b3: "bcopy buf1 (q_tail q * ?sz) (take n msg) = Some buf2"
    using bcopy_twice [OF b1, of "take n msg"] b2 n by (simp add: padded_def)
  let ?q = "q\<lparr>q_buf := buf2, q_tail := (q_tail q + 1) mod ?mx, q_len := q_len q + 1\<rparr>"
  have "msgq_send b q msg n = Some (0, ?q)"
    using assms b1 b3 by (auto simp: msgq_send_def min_size_def bslice_def Let_def not_less le_less)
  moreover have "msgq_inv ?q"
    using q assms(6) bcopy_length [OF b2] by (auto simp: msgq_inv_def mod_Suc_eq)
  moreover have "msgq_msgs ?q = msgq_msgs q @ [?m]"
    using ring_push [of "q_len q" ?mx "chunks (q_buf q) ?mx ?sz" "q_tail q" "q_head q" ?m] q assms(6)
    by (simp add: msgq_msgs_def chunks_bcopy [OF len t lm b2] msgq_inv_def)
  ultimately show ?thesis by (auto simp: msgq_frame_def)
qed

lemma msgq_take_spec:
  assumes q: "msgq_inv q" and n: "n \<le> length dst" and "0 < q_len q"
  shows "\<exists>q'. msgq_take q dst n
             = Some (Ret (0, take (min n (q_message_size q)) (hd (msgq_msgs q)) @ drop (min n (q_message_size q)) dst), q') \<and>
           msgq_inv q' \<and> msgq_frame q q' \<and> msgq_msgs q' = tl (msgq_msgs q)"
proof -
  let ?sz = "q_message_size q" and ?mx = "q_max_messages q"
  let ?m = "min n ?sz"
  obtain k where k: "q_len q = Suc k" using assms(3) by (cases "q_len q") auto
  have h: "q_head q < ?mx" and len: "length (q_buf q) = ?mx * ?sz" using q by (auto simp: msgq_inv_def)
  have m: "msgq_msgs q = take ?sz (drop (q_head q * ?sz) (q_buf q))
        # ring_contents (chunks (q_buf q) ?mx ?sz) ?mx (Suc (q_head q) mod ?mx) (q_len q - 1)"
    using ring_pop [OF assms(3), of "chunks (q_buf q) ?mx ?sz" ?mx "q_head q"] h
    by (simp add: msgq_msgs_def nth_chunks)
  let ?q = "q\<lparr>q_head := (q_head q + 1) mod ?mx, q_len := q_len q - 1\<rparr>"
  have "min_size n ?sz = ?m" by (simp add: min_size_def)
  moreover have "bslice (q_buf q) (q_head q * ?sz) ?m = Some (take ?m (hd (msgq_msgs q)))"
    using slot_bound [OF h, of ?sz] len by (simp add: bslice_def m)
  moreover have "length (take ?m (hd (msgq_msgs q))) = ?m"
    using slot_bound [OF h, of ?sz] len by (simp add: m)
  ultimately have "msgq_take q dst n = Some (Ret (0, take ?m (hd (msgq_msgs q)) @ drop ?m dst), ?q)"
    using assms by (simp add: msgq_take_def bcopy_def)
  moreover have "(Suc (q_head q) mod ?mx + k) mod ?mx = (q_head q + Suc k) mod ?mx"
    by (simp add: mod_add_left_eq)
  then have "msgq_inv ?q" using q k by (simp add: msgq_inv_def)
  moreover have "msgq_msgs ?q = tl (msgq_msgs q)" by (simp add: m) (simp add: msgq_msgs_def)
  ultimately show ?thesis by (auto simp: msgq_frame_def)
qed

lemma msgq_create_inv:
  assumes "msgq_create malloc sp b ca mx sz = Some q" and "\<And>k bs. malloc k = Some bs \<Longrightarrow> length bs = k"
    and "mx * sz < 2 ^ 64"
  shows "msgq_inv q" and "msgq_msgs q = []" and "\<not> q_closing q"
  using assms by (auto simp: msgq_create_def msgq_inv_def msgq_msgs_def split: if_splits option.splits)

text \<open>
  Sending a message and receiving the next one into a cleared buffer of \<open>sz\<close> bytes with a
  timeout, as the operations of a bounded buffer of messages, in either build. \<open>Wake_Recv sz rc\<close>
  is a hosted receiver that found the queue empty and now returns from
  \<open>pthread_cond_timedwait\<close> with \<open>rc\<close>. A receive delivers the size it asked for together with
  the bytes stored, or nothing when it fails or has to wait.
\<close>

datatype recv_op = Recv nat nat | Wake_Recv nat int

definition msgq_put :: "build \<Rightarrow> u8 list \<Rightarrow> msgq \<Rightarrow> (nat \<times> msgq) option" where
  "msgq_put b msg q = map_option (\<lambda>(r, q'). (if r = 0 then 1 else 0, q')) (msgq_send b q msg (length msg))"

definition received :: "nat \<Rightarrow> (int \<times> u8 list) outcome \<times> msgq \<Rightarrow> (nat \<times> u8 list) list \<times> msgq" where
  "received sz r = (case fst r of
     Ret (n, dst) \<Rightarrow> (if n = 0 then [(sz, take (q_message_size (snd r)) dst)] else [], snd r)
   | Block \<Rightarrow> ([], snd r))"

fun msgq_get :: "build \<Rightarrow> recv_op \<Rightarrow> msgq \<Rightarrow> ((nat \<times> u8 list) list \<times> msgq) option" where
  "msgq_get b (Recv sz t) q = map_option (received sz) (msgq_receive b q (replicate sz 0) sz t)"
| "msgq_get b (Wake_Recv sz rc) q =
     (if b = Hosted \<and> 0 < q_waiters q \<and> 0 < sz
      then map_option (received sz) (msgq_receive_wake q (replicate sz 0) sz rc)
      else Some ([], q))"

text \<open>The bytes a receive of size \<open>n\<close> stores are the first \<open>n\<close> of the message it takes out.\<close>

definition truncated :: "nat \<times> u8 list \<Rightarrow> u8 list \<Rightarrow> bool" where
  "truncated d m \<longleftrightarrow> snd d = take (fst d) m"

definition msgq_open :: "msgq \<Rightarrow> bool" where
  "msgq_open q \<longleftrightarrow> msgq_inv q \<and> \<not> q_closing q"

definition msgq_items :: "msgq \<Rightarrow> u8 list \<Rightarrow> u8 list list" where
  "msgq_items q msg = [padded (q_message_size q) msg]"

lemma hd_msgq_length:
  assumes "msgq_inv q" and "0 < q_len q"
  shows "length (hd (msgq_msgs q)) = q_message_size q" and "msgq_msgs q = hd (msgq_msgs q) # tl (msgq_msgs q)"
proof -
  have h: "q_head q < q_max_messages q" using assms(1) by (simp add: msgq_inv_def)
  have m: "hd (msgq_msgs q) = take (q_message_size q) (drop (q_head q * q_message_size q) (q_buf q))"
    unfolding msgq_msgs_def using h by (subst ring_pop [OF assms(2)]) (simp add: nth_chunks)
  show "length (hd (msgq_msgs q)) = q_message_size q"
    using slot_bound [OF h, of "q_message_size q"] assms(1) by (simp add: m msgq_inv_def)
  have "length (msgq_msgs q) \<noteq> 0" using assms(2) by (simp add: msgq_msgs_def)
  then show "msgq_msgs q = hd (msgq_msgs q) # tl (msgq_msgs q)" by auto
qed

lemma msgq_waiters_simps [simp]:
  "msgq_inv (q\<lparr>q_waiters := w\<rparr>) = msgq_inv q" "msgq_msgs (q\<lparr>q_waiters := w\<rparr>) = msgq_msgs q"
  "msgq_open (q\<lparr>q_waiters := w\<rparr>) = msgq_open q"
  by (simp_all add: msgq_inv_def msgq_msgs_def msgq_open_def)

lemma length_msgq_msgs [simp]: "length (msgq_msgs q) = q_len q"
  by (simp add: msgq_msgs_def)

text \<open>A send accepts a message of a possible size when a slot is free; a receive takes the oldest
  message out, if there is one.\<close>

lemma msgq_put_exact:
  assumes "msgq_open q"
  shows "\<exists>q'. msgq_put b msg q
      = Some (if 0 < length msg \<and> length msg \<le> q_message_size q \<and> q_len q < q_max_messages q then 1 else 0, q') \<and>
    msgq_open q' \<and> q_max_messages q' = q_max_messages q \<and> q_message_size q' = q_message_size q \<and>
    msgq_msgs q' = msgq_msgs q @
      (if 0 < length msg \<and> length msg \<le> q_message_size q \<and> q_len q < q_max_messages q then msgq_items q msg else [])"
proof (cases "0 < length msg \<and> length msg \<le> q_message_size q \<and> q_len q < q_max_messages q")
  case True
  then show ?thesis using msgq_send_spec [of q "length msg" msg b] assms
    by (auto simp: msgq_put_def msgq_items_def msgq_frame_def msgq_open_def)
next
  case False
  then have "msgq_send b q msg (length msg) = Some (- 1, q)" using assms by (auto simp: msgq_send_def msgq_open_def)
  with assms False show ?thesis by (simp add: msgq_put_def)
qed

lemma msgq_take_exact:
  assumes "msgq_open q" and "0 < sz"
  shows "\<exists>r q'. msgq_take q (replicate sz 0) sz = Some (r, q') \<and>
    received sz (r, q') = (map (\<lambda>m. (sz, take sz m)) (take 1 (msgq_msgs q)), q') \<and> msgq_open q' \<and>
    msgq_msgs q' = drop 1 (msgq_msgs q) \<and> q_max_messages q' = q_max_messages q \<and> q_message_size q' = q_message_size q"
proof (cases "q_len q = 0")
  case True
  then have "msgq_msgs q = []" by (simp add: msgq_msgs_def)
  then show ?thesis using True assms by (simp add: msgq_take_def received_def)
next
  case False
  then have l: "0 < q_len q" by simp
  have i: "msgq_inv q" using assms(1) by (simp add: msgq_open_def)
  obtain q' where q': "msgq_take q (replicate sz 0) sz
      = Some (Ret (0, take (min sz (q_message_size q)) (hd (msgq_msgs q)) @ drop (min sz (q_message_size q)) (replicate sz 0)), q')"
      "msgq_inv q'" "msgq_frame q q'" "msgq_msgs q' = tl (msgq_msgs q)"
    using msgq_take_spec [OF i, of sz "replicate sz 0"] l by auto
  note h = hd_msgq_length [OF i l]
  have f: "q_message_size q' = q_message_size q" "q_max_messages q' = q_max_messages q" "q_closing q' = q_closing q"
    using q'(3) by (simp_all add: msgq_frame_def)
  have "take 1 (msgq_msgs q) = [hd (msgq_msgs q)]" by (subst h(2)) simp
  moreover have "take (q_message_size q) (take (min sz (q_message_size q)) (hd (msgq_msgs q))
      @ drop (min sz (q_message_size q)) (replicate sz 0)) = take sz (hd (msgq_msgs q))"
    using h(1) by (cases "sz \<le> q_message_size q") (simp_all add: min_def)
  ultimately have "received sz (Ret (0, take (min sz (q_message_size q)) (hd (msgq_msgs q))
      @ drop (min sz (q_message_size q)) (replicate sz 0)), q') = (map (\<lambda>m. (sz, take sz m)) (take 1 (msgq_msgs q)), q')"
    by (simp add: received_def f(1))
  then show ?thesis using q' f assms(1) by (auto simp: msgq_open_def drop_Suc)
qed

definition takes :: "build \<Rightarrow> recv_op \<Rightarrow> msgq \<Rightarrow> bool" where
  "takes b g q \<longleftrightarrow> (case g of
     Recv sz t \<Rightarrow> 0 < sz
   | Wake_Recv sz rc \<Rightarrow> b = Hosted \<and> 0 < q_waiters q \<and> 0 < sz \<and> rc = 0)"

definition recv_size :: "recv_op \<Rightarrow> nat" where
  "recv_size g = (case g of Recv sz t \<Rightarrow> sz | Wake_Recv sz rc \<Rightarrow> sz)"

lemma msgq_get_exact:
  assumes "msgq_open q"
  shows "\<exists>q'. msgq_get b g q = Some (map (\<lambda>m. (recv_size g, take (recv_size g) m))
        (if takes b g q then take 1 (msgq_msgs q) else []), q') \<and> msgq_open q' \<and>
    msgq_msgs q' = (if takes b g q then drop 1 (msgq_msgs q) else msgq_msgs q) \<and>
    q_max_messages q' = q_max_messages q \<and> q_message_size q' = q_message_size q"
proof -
  have e: "msgq_msgs q = []" if "q_len q = 0" using that by (simp add: msgq_msgs_def)
  have c: "\<not> q_closing q" using assms by (simp add: msgq_open_def)
  show ?thesis
  proof (cases g)
    case (Recv sz t)
    show ?thesis
    proof (cases "sz = 0 \<or> q_len q = 0")
      case True
      then show ?thesis using assms c e unfolding Recv
        by (auto simp: msgq_receive_def msgq_take_def received_def takes_def)
    next
      case False
      then show ?thesis using msgq_take_exact [OF assms, of sz] c unfolding Recv
        by (auto simp: msgq_receive_def takes_def recv_size_def)
    qed
  next
    case (Wake_Recv sz rc)
    let ?q = "q\<lparr>q_waiters := q_waiters q - 1\<rparr>"
    show ?thesis
    proof (cases "q_len q = 0")
      case True
      then show ?thesis using assms c e unfolding Wake_Recv
        by (auto simp: msgq_receive_wake_def msgq_take_def received_def takes_def Let_def)
    next
      case False
      then show ?thesis using msgq_take_exact [of ?q sz] c assms unfolding Wake_Recv
        by (auto simp: msgq_receive_wake_def received_def takes_def recv_size_def Let_def)
    qed
  qed
qed

interpretation msgq_fifo: bounded_fifo "\<lambda>q. msgq_open q \<and> q_message_size q = sz"
  msgq_msgs q_max_messages msgq_items "msgq_put b" "msgq_get b" truncated for b sz
proof
  fix q :: msgq and msg :: "u8 list" and g :: recv_op
  assume i: "msgq_open q \<and> q_message_size q = sz"
  then have q: "msgq_open q" ..
  show "length (msgq_msgs q) \<le> q_max_messages q" using q by (simp add: msgq_inv_def msgq_open_def)
  show "\<exists>n q'. msgq_put b msg q = Some (n, q') \<and> (msgq_open q' \<and> q_message_size q' = sz) \<and> n \<le> length (msgq_items q msg) \<and>
      msgq_msgs q' = msgq_msgs q @ take n (msgq_items q msg) \<and> q_max_messages q' = q_max_messages q"
    using msgq_put_exact [OF q, of b msg] i by (auto simp: msgq_items_def split: if_splits)
  obtain q' where g: "msgq_get b g q = Some (map (\<lambda>m. (recv_size g, take (recv_size g) m))
        (if takes b g q then take 1 (msgq_msgs q) else []), q')" "msgq_open q'"
      "msgq_msgs q' = (if takes b g q then drop 1 (msgq_msgs q) else msgq_msgs q)" "q_max_messages q' = q_max_messages q" "q_message_size q' = q_message_size q"
    using msgq_get_exact [OF q, of b g] by blast
  have "list_all2 truncated (map (\<lambda>m. (recv_size g, take (recv_size g) m)) ms) ms" for ms
    by (simp add: list_all2_map1 truncated_def list.rel_refl)
  then show "\<exists>ys gone q'. msgq_get b g q = Some (ys, q') \<and> (msgq_open q' \<and> q_message_size q' = sz) \<and> msgq_msgs q = gone @ msgq_msgs q' \<and>
      list_all2 truncated ys gone \<and> q_max_messages q' = q_max_messages q"
    using g i by (intro exI [of _ "map (\<lambda>m. (recv_size g, take (recv_size g) m)) (if takes b g q then take 1 (msgq_msgs q) else [])"]
      exI [of _ "if takes b g q then take 1 (msgq_msgs q) else []"] exI [of _ q']) (simp split: if_splits)
qed

section \<open>Properties\<close>

text \<open>C11: A pipe is a byte stream, in both builds: for any sequence of writes, reads and, in the hosted
  build, wake-ups of waiting readers on a new pipe of \<open>n\<close> bytes that is not being destroyed, no
  access leaves its buffer, the bytes delivered followed by the bytes still in the pipe are
  exactly the bytes accepted, in order, and the pipe never holds more than \<open>n\<close> bytes. At every
  point a write accepts as many bytes as there is room for, and a read, or a waiting reader that
  wakes up, delivers the oldest bytes, as many as it asked for and as there are (none from an
  empty pipe, where the kernel's reader fails and the hosted reader waits).\<close>

theorem pipe_stream:
  assumes "pipe_create malloc sp n = Some p" and "\<And>k bs. malloc k = Some bs \<Longrightarrow> length bs = k"
  shows "\<exists>sent recv p'. fifo_run (\<lambda>_ xs. xs) (pipe_put b) (pipe_get b) ops p = Some (sent, recv, p') \<and>
           sent = recv @ pipe_bytes p' \<and> length (pipe_bytes p') \<le> n \<and>
           (\<forall>xs. \<exists>p''. pipe_put b xs p' = Some (min (length xs) (n - length (pipe_bytes p')), p'')) \<and>
           (\<forall>k. \<exists>p''. pipe_get b (Read k) p' = Some (take k (pipe_bytes p'), p'')) \<and>
           (\<forall>k. b = Hosted \<and> 0 < p_waiters p' \<and> 0 < k \<longrightarrow> (\<exists>p''. pipe_get b (Wake k) p' = Some (take k (pipe_bytes p'), p'')))"
proof -
  note c = pipe_create_inv [OF assms]
  have "\<not> p_closing p" using assms(1) by (auto simp: pipe_create_def split: if_splits option.splits)
  then have "pipe_open p" using c by (simp add: pipe_open_def)
  then obtain sent recv gone p' where r: "fifo_run (\<lambda>_ xs. xs) (pipe_put b) (pipe_get b) ops p = Some (sent, recv, p')"
      "pipe_open p'" "pipe_bytes p @ sent = gone @ pipe_bytes p'" "list_all2 (=) recv gone"
      "length (pipe_bytes p') \<le> p_cap p" "p_cap p' = p_cap p"
    using pipe_fifo.stream [of p b ops] by blast
  have "\<exists>p''. pipe_put b xs p' = Some (min (length xs) (n - length (pipe_bytes p')), p'')" for xs
    using pipe_put_exact [OF r(2), of b xs] r(6) c(3) by auto
  moreover have "\<exists>p''. pipe_get b (Read k) p' = Some (take k (pipe_bytes p'), p'')" for k
    using pipe_get_exact [OF r(2), of b "Read k"] by (simp del: pipe_get.simps) blast
  moreover have "\<exists>p''. pipe_get b (Wake k) p' = Some (take k (pipe_bytes p'), p'')"
    if "b = Hosted \<and> 0 < p_waiters p' \<and> 0 < k" for k
    using pipe_get_exact [OF r(2), of b "Wake k"] that by (simp del: pipe_get.simps) blast
  moreover have "sent = recv @ pipe_bytes p'" "length (pipe_bytes p') \<le> n"
    using r(3,4,5) c(2,3) by (simp_all add: list.rel_eq)
  ultimately show ?thesis using r(1) by blast
qed

theorem pipe_stream_witness:
  "\<exists>p sent recv p'. pipe_create (\<lambda>k. Some (replicate k 0)) True 2 = Some p \<and>
     fifo_run (\<lambda>_ xs. xs) (pipe_put Hosted) (pipe_get Hosted) [Get (Read 4), Put [1, 2, 3], Get (Wake 1), Put [4], Get (Read 5)] p
       = Some (sent, recv, p') \<and>
     sent = recv @ pipe_bytes p' \<and> length (pipe_bytes p') \<le> 2"
proof -
  obtain p where p: "pipe_create (\<lambda>k. Some (replicate k 0)) True 2 = Some p" by (simp add: pipe_create_def)
  show ?thesis
    using pipe_stream [OF p, of Hosted "[Get (Read 4), Put [1, 2, 3], Get (Wake 1), Put [4], Get (Read 5)]"] p by auto
qed



text \<open>Reading from a pipe on every branch, in both builds: no request is answered with
  \<open>-1\<close>; an empty pipe gives \<open>-1\<close> in the kernel and in a closing hosted pipe and makes the
  reader wait otherwise; a pipe with bytes delivers as many of the oldest as asked for and
  available into the front of the buffer.\<close>

lemma pipe_read_branches:
  assumes "pipe_inv p" and "cnt \<le> length dst"
  shows "\<exists>p'. pipe_read b p dst cnt =
    Some (if cnt = 0 then (Ret (- 1, dst), p)
          else if p_len p = 0
          then if b = Kernel \<or> p_closing p then (Ret (- 1, dst), p)
               else (Block, p\<lparr>p_waiters := p_waiters p + 1\<rparr>)
          else (Ret (int (min cnt (p_len p)),
                     take (min cnt (p_len p)) (pipe_bytes p) @ drop (min cnt (p_len p)) dst), p')) \<and>
    (0 < cnt \<and> 0 < p_len p \<longrightarrow> pipe_inv p' \<and> pipe_bytes p' = drop (min cnt (p_len p)) (pipe_bytes p))"
proof (cases "cnt = 0 \<or> p_len p = 0")
  case True
  then show ?thesis by (cases b) (auto simp: pipe_read_def pipe_read_locked_def)
next
  case False
  then show ?thesis using pipe_read_spec [OF assms, of b] by auto
qed

text \<open>C19: The size computation of \<open>msgq_create\<close> can wrap: when the product of the two sizes,
  taken modulo \<open>2^64\<close>, is smaller than one message, the queue is created and the first
  message sent to it is written outside the buffer.\<close>

theorem msgq_create_overflow:
  assumes "msgq_create malloc sp b ca mx sz = Some q" and "\<And>k bs. malloc k = Some bs \<Longrightarrow> length bs = k"
    and "mx * sz mod 2 ^ 64 < sz" and "0 < n" and "n \<le> sz" and "n \<le> length msg"
  shows "msgq_send b q msg n = None"
proof -
  have "length (q_buf q) < sz" "q_tail q = 0" "q_len q = 0" "0 < q_max_messages q" "q_message_size q = sz"
      "\<not> q_closing q"
    using assms(1,2,3) by (auto simp: msgq_create_def split: if_splits option.splits)
  then show ?thesis using assms(4-6) by (simp add: msgq_send_def bcopy_def)
qed

theorem msgq_create_overflow_witness:
  "\<exists>q. msgq_create (\<lambda>k. Some (replicate k 0)) True Hosted True (2 ^ 32) (2 ^ 32) = Some q \<and>
       msgq_send Hosted q [65] 1 = None"
proof -
  obtain q where q: "msgq_create (\<lambda>k. Some (replicate k 0)) True Hosted True (2 ^ 32) (2 ^ 32) = Some q"
    by (simp add: msgq_create_def)
  show ?thesis using msgq_create_overflow [OF q, of 1 "[65]"] q by simp
qed

text \<open>The deadline of a timed receive is normalised and exactly \<open>timeout_ms\<close> milliseconds
  after the time it starts from.\<close>

lemma make_abs_timeout_correct:
  assumes "0 \<le> ns" and "ns < 1000000000" and "make_abs_timeout (s, ns) ms = (s', ns')"
  shows "0 \<le> ns' \<and> ns' < 1000000000 \<and> s' * 1000000000 + ns' = s * 1000000000 + ns + int ms * 1000000"
proof -
  have "ms = 1000 * (ms div 1000) + ms mod 1000" by simp
  then have "int ms = 1000 * int (ms div 1000) + int (ms mod 1000)" by (metis of_nat_add of_nat_mult of_nat_numeral)
  moreover have "int (ms mod 1000) < 1000" by simp
  ultimately show ?thesis using assms by (auto simp: make_abs_timeout_def Let_def split: if_splits)
qed

end
