(* ===== verification/Sys_Call.thy ===== *)
theory Sys_Call
  imports Sys_VRT Sys_IPC Mem_Asm
begin

text \<open>
  The system call layer of \<open>kernel/core/sys/syscall.c\<close> on top of the resource table, the
  pipes and the message queues: the kernel objects live in a heap indexed by their address,
  the callers' buffers in a flat memory of which only a part, \<open>e_user\<close>, belongs to the
  caller. A call that reaches an object through a stale or wrongly typed pointer, or that
  touches a byte outside the caller's memory, has no result (\<open>None\<close>); the invariant shows that
  the first cannot happen, and that the second happens only when the caller names such a byte.
  In the hosted build calls can wait inside an operation: a run is a sequence of calls and of
  wake-ups of waiting calls.
\<close>

section \<open>The code\<close>

datatype fl_syscall_no =
    FL_SYS_WRITE
  | FL_SYS_READ
  | FL_SYS_PIPE_CREATE
  | FL_SYS_PIPE_READ
  | FL_SYS_PIPE_WRITE
  | FL_SYS_MSGQ_CREATE
  | FL_SYS_MSGQ_SEND
  | FL_SYS_MSGQ_RECV
  | FL_SYS_CLOSE
  | FL_SYS_OTHER int

datatype kobj = KPipe pipe | KMsgq msgq

record sys =
  s_vrt :: vrt
  s_heap :: "ptr \<rightharpoonup> kobj"
  s_mem :: memory

text \<open>
  What a call takes from outside: the address the allocator returns for a new object
  (\<open>NULL\<close> when it fails), the blocks it returns for buffers, whether the condition
  attribute calls succeed, and the host's \<open>write\<close> and \<open>read\<close> on the standard streams
  (the number of bytes, negative on error, and for \<open>read\<close> the bytes stored). \<open>e_user\<close> says
  which bytes of the memory the caller may name: memory that is mapped and holds neither the
  resource table nor any pipe or queue. The code checks no address against it; an access
  elsewhere reads or overwrites something of someone else, and is undefined here.
\<close>

record env =
  e_struct :: ptr
  e_malloc :: "nat \<Rightarrow> u8 list option"
  e_cattr :: bool
  e_write :: "u8 list \<Rightarrow> int"
  e_read :: "nat \<Rightarrow> int \<times> u8 list"
  e_user :: "u64 \<Rightarrow> bool"

definition user_ok :: "env \<Rightarrow> u64 \<Rightarrow> nat \<Rightarrow> bool" where
  "user_ok e a n \<longleftrightarrow> (\<forall>i < n. e_user e (a + of_nat i))"

definition fl_sys_bootstrap :: "sys \<Rightarrow> sys" where
  "fl_sys_bootstrap s = s\<lparr>s_vrt := vrt_init (s_vrt s)\<rparr>"

definition fl_sys_shutdown :: "sys \<Rightarrow> sys" where
  "fl_sys_shutdown s = s\<lparr>s_vrt := vrt_shutdown (s_vrt s)\<rparr>"

text \<open>The object behind a handle of the given type: the test every operation on a handle
  starts with (\<open>Some None\<close> when it fails), followed by the access to the object.\<close>

definition sys_lookup :: "sys \<Rightarrow> vrt_type \<Rightarrow> u64 \<Rightarrow> (ptr \<times> kobj) option option" where
  "sys_lookup s t h = do {
     r \<leftarrow> vrt_get (s_vrt s) h;
     case r of
       None \<Rightarrow> Some None
     | Some entry \<Rightarrow>
         if v_type entry \<noteq> t \<or> v_resource entry = NULL then Some None
         else do { obj \<leftarrow> s_heap s (v_resource entry); Some (Some (v_resource entry, obj)) }
   }"

definition sys_pipe_create :: "build \<Rightarrow> env \<Rightarrow> sys \<Rightarrow> u64 \<Rightarrow> (int outcome \<times> sys) option" where
  "sys_pipe_create b e s a0 =
     (let sz = unat a0
      in case pipe_create (e_malloc e) (e_struct e \<noteq> NULL) sz of
           None \<Rightarrow> Some (Ret (- 1), s)
         | Some p \<Rightarrow> do {
             let s = s\<lparr>s_heap := (s_heap s)(e_struct e \<mapsto> KPipe p)\<rparr>;
             (h, v) \<leftarrow> vrt_alloc (s_vrt s) VRT_TYPE_PIPE (e_struct e) (Some ''pipe'') sz;
             let s = s\<lparr>s_vrt := v\<rparr>;
             if h = VRT_HANDLE_INVALID
             then (case pipe_destroy b p of
                     (Ret _, _) \<Rightarrow> Some (Ret (- 1), s\<lparr>s_heap := (s_heap s)(e_struct e := None)\<rparr>)
                   | (Block, p) \<Rightarrow> Some (Block, s\<lparr>s_heap := (s_heap s)(e_struct e \<mapsto> KPipe p)\<rparr>))
             else Some (Ret (int (unat h)), s)
           })"

text \<open>The end of a read or receive: the object is stored back, and unless the call waits, the
  bytes are stored into the caller's buffer, of which \<open>k n\<close> bytes are touched.\<close>

definition sys_deliver ::
  "env \<Rightarrow> sys \<Rightarrow> ptr \<Rightarrow> u64 \<Rightarrow> (int \<Rightarrow> nat) \<Rightarrow> kobj \<Rightarrow> (int \<times> u8 list) outcome \<Rightarrow> (int outcome \<times> sys) option" where
  "sys_deliver e s res buf k obj r =
     (let s = s\<lparr>s_heap := (s_heap s)(res \<mapsto> obj)\<rparr>
      in case r of
           Block \<Rightarrow> Some (Block, s)
         | Ret (n, bs) \<Rightarrow>
             if user_ok e buf (k n) then Some (Ret n, s\<lparr>s_mem := mem_write (s_mem s) buf bs\<rparr>) else None)"

definition sys_pipe_read :: "build \<Rightarrow> env \<Rightarrow> sys \<Rightarrow> u64 \<Rightarrow> u64 \<Rightarrow> u64 \<Rightarrow> (int outcome \<times> sys) option" where
  "sys_pipe_read b e s h buf cnt = do {
     r \<leftarrow> sys_lookup s VRT_TYPE_PIPE h;
     case r of
       None \<Rightarrow> Some (Ret (- 1), s)
     | Some (res, KMsgq q) \<Rightarrow> None
     | Some (res, KPipe p) \<Rightarrow>
         if buf = NULL then Some (Ret (- 1), s)
         else do {
           (r, p) \<leftarrow> pipe_read b p (mem_read (s_mem s) buf (unat cnt)) (unat cnt);
           sys_deliver e s res buf nat (KPipe p) r
         }
   }"

definition sys_pipe_write :: "build \<Rightarrow> env \<Rightarrow> sys \<Rightarrow> u64 \<Rightarrow> u64 \<Rightarrow> u64 \<Rightarrow> (int outcome \<times> sys) option" where
  "sys_pipe_write b e s h buf cnt = do {
     r \<leftarrow> sys_lookup s VRT_TYPE_PIPE h;
     case r of
       None \<Rightarrow> Some (Ret (- 1), s)
     | Some (res, KMsgq q) \<Rightarrow> None
     | Some (res, KPipe p) \<Rightarrow>
         if buf = NULL then Some (Ret (- 1), s)
         else do {
           (n, p) \<leftarrow> pipe_write b p (mem_read (s_mem s) buf (unat cnt)) (unat cnt);
           if user_ok e buf (nat n) then Some (Ret n, s\<lparr>s_heap := (s_heap s)(res \<mapsto> KPipe p)\<rparr>) else None
         }
   }"

definition sys_msgq_create :: "build \<Rightarrow> env \<Rightarrow> sys \<Rightarrow> u64 \<Rightarrow> u64 \<Rightarrow> (int outcome \<times> sys) option" where
  "sys_msgq_create b e s a0 a1 =
     (case msgq_create (e_malloc e) (e_struct e \<noteq> NULL) b (e_cattr e) (unat a0) (unat a1) of
        None \<Rightarrow> Some (Ret (- 1), s)
      | Some q \<Rightarrow> do {
          let s = s\<lparr>s_heap := (s_heap s)(e_struct e \<mapsto> KMsgq q)\<rparr>;
          (h, v) \<leftarrow> vrt_alloc (s_vrt s) VRT_TYPE_MSGQ (e_struct e) (Some ''msgq'') (unat a1);
          let s = s\<lparr>s_vrt := v\<rparr>;
          if h = VRT_HANDLE_INVALID
          then (case msgq_destroy b q of
                  (Ret _, _) \<Rightarrow> Some (Ret (- 1), s\<lparr>s_heap := (s_heap s)(e_struct e := None)\<rparr>)
                | (Block, q) \<Rightarrow> Some (Block, s\<lparr>s_heap := (s_heap s)(e_struct e \<mapsto> KMsgq q)\<rparr>))
          else Some (Ret (int (unat h)), s)
        })"

definition sys_msgq_send :: "build \<Rightarrow> env \<Rightarrow> sys \<Rightarrow> u64 \<Rightarrow> u64 \<Rightarrow> u64 \<Rightarrow> (int outcome \<times> sys) option" where
  "sys_msgq_send b e s h msg sz = do {
     r \<leftarrow> sys_lookup s VRT_TYPE_MSGQ h;
     case r of
       None \<Rightarrow> Some (Ret (- 1), s)
     | Some (res, KPipe p) \<Rightarrow> None
     | Some (res, KMsgq q) \<Rightarrow>
         if msg = NULL then Some (Ret (- 1), s)
         else do {
           (n, q) \<leftarrow> msgq_send b q (mem_read (s_mem s) msg (unat sz)) (unat sz);
           if user_ok e msg (if n = 0 then unat sz else 0)
           then Some (Ret n, s\<lparr>s_heap := (s_heap s)(res \<mapsto> KMsgq q)\<rparr>) else None
         }
   }"

definition recv_bytes :: "msgq \<Rightarrow> u64 \<Rightarrow> int \<Rightarrow> nat" where
  "recv_bytes q sz n = (if n = 0 then min_size (unat sz) (q_message_size q) else 0)"

definition sys_msgq_recv :: "build \<Rightarrow> env \<Rightarrow> sys \<Rightarrow> u64 \<Rightarrow> u64 \<Rightarrow> u64 \<Rightarrow> u64 \<Rightarrow> (int outcome \<times> sys) option" where
  "sys_msgq_recv b e s h msg sz timeout_ms = do {
     r \<leftarrow> sys_lookup s VRT_TYPE_MSGQ h;
     case r of
       None \<Rightarrow> Some (Ret (- 1), s)
     | Some (res, KPipe p) \<Rightarrow> None
     | Some (res, KMsgq q) \<Rightarrow>
         if msg = NULL then Some (Ret (- 1), s)
         else do {
           (r, q) \<leftarrow> msgq_receive b q (mem_read (s_mem s) msg (unat sz)) (unat sz) (unat timeout_ms);
           sys_deliver e s res msg (recv_bytes q sz) (KMsgq q) r
         }
   }"

text \<open>The part of \<open>FL_SYS_CLOSE\<close> after \<open>vrt_get\<close>; \<open>entry\<close> is the local copy of the table entry. A
  call that waits in the destroy function continues here when it wakes up.\<close>

definition sys_close_entry :: "build \<Rightarrow> sys \<Rightarrow> u64 \<Rightarrow> vrt_entry \<Rightarrow> (int outcome \<times> sys) option" where
  "sys_close_entry b s h entry =
     (let res = v_resource entry;
          release = (do { v \<leftarrow> vrt_free (s_vrt s) h;
                          Some (Ret 0, s\<lparr>s_vrt := v, s_heap := (s_heap s)(res := None)\<rparr>) })
      in if v_type entry = VRT_TYPE_PIPE
         then do {
           obj \<leftarrow> s_heap s res;
           case obj of
             KMsgq q \<Rightarrow> None
           | KPipe p \<Rightarrow> (case pipe_destroy b p of
               (Ret _, _) \<Rightarrow> release
             | (Block, p) \<Rightarrow> Some (Block, s\<lparr>s_heap := (s_heap s)(res \<mapsto> KPipe p)\<rparr>))
         }
         else if v_type entry = VRT_TYPE_MSGQ
         then do {
           obj \<leftarrow> s_heap s res;
           case obj of
             KPipe p \<Rightarrow> None
           | KMsgq q \<Rightarrow> (case msgq_destroy b q of
               (Ret _, _) \<Rightarrow> release
             | (Block, q) \<Rightarrow> Some (Block, s\<lparr>s_heap := (s_heap s)(res \<mapsto> KMsgq q)\<rparr>))
         }
         else Some (Ret (- 1), s))"

definition sys_close :: "build \<Rightarrow> sys \<Rightarrow> u64 \<Rightarrow> (int outcome \<times> sys) option" where
  "sys_close b s h = do {
     r \<leftarrow> vrt_get (s_vrt s) h;
     case r of
       None \<Rightarrow> Some (Ret (- 1), s)
     | Some entry \<Rightarrow> sys_close_entry b s h entry
   }"

definition fl_syscall_dispatch ::
  "build \<Rightarrow> env \<Rightarrow> sys \<Rightarrow> fl_syscall_no \<Rightarrow> u64 \<Rightarrow> u64 \<Rightarrow> u64 \<Rightarrow> u64 \<Rightarrow> (int outcome \<times> sys) option" where
  "fl_syscall_dispatch b e s no a0 a1 a2 a3 =
     (case no of
        FL_SYS_WRITE \<Rightarrow>
          if a0 = NULL then Some (Ret (- 1), s)
          else if \<not> user_ok e a0 (unat a1) then None
          else let wr = e_write e (mem_read (s_mem s) a0 (unat a1))
               in Some (Ret (if wr < 0 then - 1 else wr), s)
      | FL_SYS_READ \<Rightarrow>
          if a0 = NULL then Some (Ret (- 1), s)
          else if \<not> user_ok e a0 (unat a1) then None
          else let (rd, bs) = e_read e (unat a1)
               in if rd < 0 then Some (Ret (- 1), s)
                  else Some (Ret rd, s\<lparr>s_mem := mem_write (s_mem s) a0 (take (nat rd) bs)\<rparr>)
      | FL_SYS_PIPE_CREATE \<Rightarrow> sys_pipe_create b e s a0
      | FL_SYS_PIPE_READ \<Rightarrow> sys_pipe_read b e s a0 a1 a2
      | FL_SYS_PIPE_WRITE \<Rightarrow> sys_pipe_write b e s a0 a1 a2
      | FL_SYS_MSGQ_CREATE \<Rightarrow> sys_msgq_create b e s a0 a1
      | FL_SYS_MSGQ_SEND \<Rightarrow> sys_msgq_send b e s a0 a1 a2
      | FL_SYS_MSGQ_RECV \<Rightarrow> sys_msgq_recv b e s a0 a1 a2 a3
      | FL_SYS_CLOSE \<Rightarrow> sys_close b s a0
      | FL_SYS_OTHER n \<Rightarrow> Some (Ret (- 1), s))"

text \<open>
  The calls that wait in a condition variable of the hosted build: a reader and a receiver with
  the object they hold and their buffer, and a close with its handle and its copy of the table
  entry. \<open>sys_resume\<close> is what such a call does when it wakes up, \<open>rc\<close> being the result of
  \<open>pthread_cond_timedwait\<close>.
\<close>

datatype waiter =
    Reader ptr u64 u64
  | Receiver ptr u64 u64
  | Closer u64 vrt_entry

definition sys_waiter :: "sys \<Rightarrow> fl_syscall_no \<Rightarrow> u64 \<Rightarrow> u64 \<Rightarrow> u64 \<Rightarrow> waiter option" where
  "sys_waiter s no a0 a1 a2 =
     (case vrt_get (s_vrt s) a0 of
        Some (Some entry) \<Rightarrow>
          (case no of
             FL_SYS_PIPE_READ \<Rightarrow> Some (Reader (v_resource entry) a1 a2)
           | FL_SYS_MSGQ_RECV \<Rightarrow> Some (Receiver (v_resource entry) a1 a2)
           | FL_SYS_CLOSE \<Rightarrow> Some (Closer a0 entry)
           | _ \<Rightarrow> None)
      | _ \<Rightarrow> None)"

fun sys_resume :: "build \<Rightarrow> env \<Rightarrow> sys \<Rightarrow> waiter \<Rightarrow> int \<Rightarrow> (int outcome \<times> sys) option" where
  "sys_resume b e s (Reader res buf cnt) rc =
     (case s_heap s res of
        Some (KPipe p) \<Rightarrow> do {
          (r, p) \<leftarrow> pipe_read_wake p (mem_read (s_mem s) buf (unat cnt)) (unat cnt);
          sys_deliver e s res buf nat (KPipe p) r
        }
      | _ \<Rightarrow> None)"
| "sys_resume b e s (Receiver res msg sz) rc =
     (case s_heap s res of
        Some (KMsgq q) \<Rightarrow> do {
          (r, q) \<leftarrow> msgq_receive_wake q (mem_read (s_mem s) msg (unat sz)) (unat sz) rc;
          sys_deliver e s res msg (recv_bytes q sz) (KMsgq q) r
        }
      | _ \<Rightarrow> None)"
| "sys_resume b e s (Closer h entry) rc = sys_close_entry b s h entry"

text \<open>A run: a new call, or the wake-up of one of the waiting calls.\<close>

datatype sys_event =
    Call env fl_syscall_no u64 u64 u64 u64
  | Wakeup env nat int

type_synonym sys_state = "sys \<times> waiter list"

definition drop_nth :: "nat \<Rightarrow> 'a list \<Rightarrow> 'a list" where
  "drop_nth i xs = take i xs @ drop (Suc i) xs"

fun sys_step :: "build \<Rightarrow> sys_event \<Rightarrow> sys_state \<Rightarrow> (int outcome \<times> sys_state) option" where
  "sys_step b (Call e no a0 a1 a2 a3) (s, ws) = do {
     (r, s') \<leftarrow> fl_syscall_dispatch b e s no a0 a1 a2 a3;
     case r of
       Block \<Rightarrow> do { w \<leftarrow> sys_waiter s no a0 a1 a2; Some (r, s', ws @ [w]) }
     | Ret n \<Rightarrow> Some (r, s', ws)
   }"
| "sys_step b (Wakeup e i rc) (s, ws) =
     (if i < length ws then do {
        (r, s') \<leftarrow> sys_resume b e s (ws ! i) rc;
        Some (r, s', case r of Block \<Rightarrow> ws | Ret n \<Rightarrow> drop_nth i ws)
      }
      else Some (Block, s, ws))"

fun sys_run :: "build \<Rightarrow> sys_event list \<Rightarrow> sys_state \<Rightarrow> (int outcome list \<times> sys_state) option" where
  "sys_run b [] st = Some ([], st)"
| "sys_run b (ev # evs) st = do {
     (r, st') \<leftarrow> sys_step b ev st;
     (rs, st'') \<leftarrow> sys_run b evs st';
     Some (r # rs, st'')
   }"

section \<open>Every operation keeps its object intact\<close>

lemma pipe_write_any:
  assumes "pipe_inv p" and "n \<le> length src"
  shows "\<exists>r p'. pipe_write b p src n = Some (r, p') \<and> pipe_inv p' \<and> pipe_frame p p' \<and> nat r \<le> n"
proof (cases "n = 0 \<or> b = Hosted \<and> p_closing p")
  case True
  then show ?thesis using assms by (auto simp: pipe_write_def pipe_frame_def)
next
  case False
  then show ?thesis using pipe_write_loop_spec [OF assms, of 0] by (auto simp: pipe_write_def)
qed

text \<open>A read by its result: one that waits is counted, one that returns is not and stores no more
  than it was asked for.\<close>

definition pipe_read_result :: "build \<Rightarrow> pipe \<Rightarrow> nat \<Rightarrow> (int \<times> u8 list) outcome \<Rightarrow> pipe \<Rightarrow> bool" where
  "pipe_read_result b p n r p' \<longleftrightarrow> pipe_inv p' \<and> p_closing p' = p_closing p \<and>
     (case r of
        Block \<Rightarrow> b = Hosted \<and> p_waiters p' = p_waiters p + 1
      | Ret (k, bs) \<Rightarrow> p_waiters p' = p_waiters p \<and> nat k \<le> n)"

lemma pipe_read_locked_any:
  assumes "pipe_inv p" and "n \<le> length dst"
  shows "\<exists>r p'. pipe_read_locked b p dst n = Some (r, p') \<and> pipe_read_result b p n r p'"
proof (cases "p_len p = 0")
  case True
  then show ?thesis using assms by (cases b) (auto simp: pipe_read_locked_def pipe_read_result_def)
next
  case False
  then show ?thesis using pipe_read_loop_spec [OF assms, of 0] assms
    by (cases b) (fastforce simp: pipe_read_locked_def pipe_read_result_def pipe_frame_def)+
qed

lemma pipe_read_any:
  assumes "pipe_inv p" and "n \<le> length dst"
  shows "\<exists>r p'. pipe_read b p dst n = Some (r, p') \<and> pipe_read_result b p n r p'"
  using pipe_read_locked_any [OF assms, of b] assms by (auto simp: pipe_read_def pipe_read_result_def)

lemma pipe_read_wake_any:
  assumes "pipe_inv p" and "n \<le> length dst" and "0 < p_waiters p"
  shows "\<exists>r p'. pipe_read_wake p dst n = Some (r, p') \<and>
    pipe_read_result Hosted (p\<lparr>p_waiters := p_waiters p - 1\<rparr>) n r p'"
  using pipe_read_locked_any [of "p\<lparr>p_waiters := p_waiters p - 1\<rparr>" n dst Hosted] assms by (simp add: pipe_read_wake_def)

lemma msgq_send_any:
  assumes "msgq_inv q" and "n \<le> length msg"
  shows "\<exists>r q'. msgq_send b q msg n = Some (r, q') \<and> msgq_inv q' \<and> msgq_frame q q'"
proof (cases "n = 0 \<or> n > q_message_size q \<or> b = Hosted \<and> q_closing q \<or> q_len q \<ge> q_max_messages q")
  case True
  then show ?thesis using assms by (auto simp: msgq_send_def msgq_frame_def)
next
  case False
  have "\<exists>r q'. msgq_send Kernel q msg n = Some (r, q') \<and> msgq_inv q' \<and> msgq_frame q q'"
  proof -
    have i: "msgq_inv (q\<lparr>q_closing := False\<rparr>)" using assms(1) by (simp add: msgq_inv_def)
    obtain q' where "msgq_send Kernel (q\<lparr>q_closing := False\<rparr>) msg n = Some (0, q')" "msgq_inv q'"
      using msgq_send_spec [OF i, of n msg Kernel] False assms(2) by auto
    then show ?thesis
      by (cases q) (auto simp: msgq_send_def msgq_inv_def msgq_frame_def bind_eq_Some_conv Let_def split: if_splits)
  qed
  moreover have "msgq_send b q msg n = msgq_send Kernel q msg n" using False by (auto simp: msgq_send_def)
  ultimately show ?thesis by simp
qed

definition msgq_recv_result :: "build \<Rightarrow> msgq \<Rightarrow> (int \<times> u8 list) outcome \<Rightarrow> msgq \<Rightarrow> bool" where
  "msgq_recv_result b q r q' \<longleftrightarrow> msgq_inv q' \<and> q_closing q' = q_closing q \<and> q_message_size q' = q_message_size q \<and>
     (case r of
        Block \<Rightarrow> b = Hosted \<and> q_waiters q' = q_waiters q + 1
      | Ret k \<Rightarrow> q_waiters q' = q_waiters q)"

lemma msgq_take_any:
  assumes "msgq_inv q" and "n \<le> length dst"
  shows "\<exists>r q'. msgq_take q dst n = Some (r, q') \<and> msgq_recv_result b q r q'"
proof (cases "q_len q = 0")
  case True
  then show ?thesis using assms by (simp add: msgq_take_def msgq_recv_result_def)
next
  case False
  then show ?thesis using msgq_take_spec [OF assms] by (auto simp: msgq_recv_result_def msgq_frame_def)
qed

lemma msgq_receive_any:
  assumes "msgq_inv q" and "n \<le> length dst"
  shows "\<exists>r q'. msgq_receive b q dst n t = Some (r, q') \<and> msgq_recv_result b q r q'"
  using msgq_take_any [OF assms, of b] assms(1) by (cases b) (auto simp: msgq_receive_def msgq_recv_result_def)

lemma msgq_receive_wake_any:
  assumes "msgq_inv q" and "n \<le> length dst" and "0 < q_waiters q"
  shows "\<exists>r q'. msgq_receive_wake q dst n rc = Some (r, q') \<and>
    msgq_recv_result Hosted (q\<lparr>q_waiters := q_waiters q - 1\<rparr>) r q'"
  using msgq_take_any [of "q\<lparr>q_waiters := q_waiters q - 1\<rparr>" n dst Hosted] assms
  by (auto simp: msgq_receive_wake_def msgq_recv_result_def Let_def)

section \<open>No dangling handle, no lost object\<close>

fun obj_type :: "kobj \<Rightarrow> vrt_type" where
  "obj_type (KPipe p) = VRT_TYPE_PIPE"
| "obj_type (KMsgq q) = VRT_TYPE_MSGQ"

fun obj_inv :: "kobj \<Rightarrow> bool" where
  "obj_inv (KPipe p) = pipe_inv p"
| "obj_inv (KMsgq q) = msgq_inv q"

abbreviation handles :: "sys \<Rightarrow> u64 \<rightharpoonup> vrt_entry" where
  "handles s \<equiv> vrt_map (s_vrt s)"

text \<open>
  The invariant: every live handle leads to an object of its type that is well formed, no
  two handles share an object, and every object of the heap has a handle.
\<close>

definition sys_inv :: "sys \<Rightarrow> bool" where
  "sys_inv s \<longleftrightarrow> vrt_inv (s_vrt s) \<and> s_inited (s_vrt s) \<and>
     (\<forall>h e. handles s h = Some e \<longrightarrow>
        (\<exists>obj. s_heap s (v_resource e) = Some obj \<and> obj_type obj = v_type e \<and> obj_inv obj)) \<and>
     (\<forall>h h' e e'. handles s h = Some e \<and> handles s h' = Some e' \<and> v_resource e = v_resource e' \<longrightarrow> h = h') \<and>
     (\<forall>r obj. s_heap s r = Some obj \<longrightarrow> (\<exists>h e. handles s h = Some e \<and> v_resource e = r))"

lemma sys_invD:
  assumes "sys_inv s"
  shows "vrt_inv (s_vrt s)" and "s_inited (s_vrt s)"
    and "handles s h = Some e \<Longrightarrow> \<exists>obj. s_heap s (v_resource e) = Some obj \<and> obj_type obj = v_type e \<and> obj_inv obj"
    and "handles s h = Some e \<Longrightarrow> handles s h' = Some e' \<Longrightarrow> v_resource e = v_resource e' \<Longrightarrow> h = h'"
    and "s_heap s r = Some obj \<Longrightarrow> \<exists>h e. handles s h = Some e \<and> v_resource e = r"
  using assms unfolding sys_inv_def by blast+

lemma sys_invI:
  assumes "vrt_inv (s_vrt s)" and "s_inited (s_vrt s)"
    and "\<And>h e. handles s h = Some e \<Longrightarrow>
           \<exists>obj. s_heap s (v_resource e) = Some obj \<and> obj_type obj = v_type e \<and> obj_inv obj"
    and "\<And>h e h' e'. handles s h = Some e \<Longrightarrow> handles s h' = Some e' \<Longrightarrow> v_resource e = v_resource e' \<Longrightarrow> h = h'"
    and "\<And>r obj. s_heap s r = Some obj \<Longrightarrow> \<exists>h e. handles s h = Some e \<and> v_resource e = r"
  shows "sys_inv s"
  using assms unfolding sys_inv_def by blast

lemma sys_inv_obj: "sys_inv s \<Longrightarrow> s_heap s r = Some obj \<Longrightarrow> obj_inv obj"
  using sys_invD(3,5) by (metis option.inject)

lemma handle_resource: "handles s h = Some e \<Longrightarrow> v_resource e \<noteq> NULL"
  by (auto simp: vrt_map_def split: if_splits)

lemma sys_inv_update:
  assumes s: "sys_inv s" and o: "s_heap s r = Some obj" "obj_type obj' = obj_type obj" "obj_inv obj'"
  shows "sys_inv (s\<lparr>s_heap := (s_heap s)(r \<mapsto> obj'), s_mem := m\<rparr>)"
proof -
  let ?s = "s\<lparr>s_heap := (s_heap s)(r \<mapsto> obj'), s_mem := m\<rparr>"
  have "\<exists>obj. s_heap ?s (v_resource e) = Some obj \<and> obj_type obj = v_type e \<and> obj_inv obj"
    if "handles s h = Some e" for h e
    using sys_invD(3) [OF s that] o by auto
  moreover have "\<exists>h e. handles s h = Some e \<and> v_resource e = x" if "s_heap ?s x = Some y" for x y
    using sys_invD(5) [OF s] o(1) that by (cases "x = r") auto
  ultimately show ?thesis
    using sys_invD(1,2) [OF s] sys_invD(4) [OF s] unfolding sys_inv_def by simp
qed

lemma sys_inv_update': "sys_inv s \<Longrightarrow> s_heap s r = Some obj \<Longrightarrow> obj_type obj' = obj_type obj \<Longrightarrow>
    obj_inv obj' \<Longrightarrow> sys_inv (s\<lparr>s_heap := (s_heap s)(r \<mapsto> obj')\<rparr>)"
  using sys_inv_update [of s r obj obj' "s_mem s"] by simp

lemma sys_inv_mem: "sys_inv s \<Longrightarrow> sys_inv (s\<lparr>s_mem := m\<rparr>)"
  unfolding sys_inv_def by simp

lemma sys_lookup_inv:
  assumes s: "sys_inv s"
  shows "sys_lookup s t h = Some None \<or>
    (\<exists>e obj. handles s h = Some e \<and> v_type e = t \<and> s_heap s (v_resource e) = Some obj \<and> obj_type obj = t \<and>
             obj_inv obj \<and> sys_lookup s t h = Some (Some (v_resource e, obj)))"
proof (cases "handles s h")
  case None
  then show ?thesis using vrt_tab.get_live [OF sys_invD(1) [OF s]] by (simp add: sys_lookup_def)
next
  case (Some e)
  then show ?thesis
    using vrt_tab.get_live [OF sys_invD(1) [OF s]] sys_invD(3) [OF s Some] handle_resource [OF Some]
    by (auto simp: sys_lookup_def)
qed

lemma sys_inv_add:
  assumes s: "sys_inv s" and r: "s_heap s (v_resource e) = None"
    and v: "vrt_inv v" "s_inited v" "vrt_map v = (handles s)(h \<mapsto> e)" "handles s h = None"
    and o: "obj_type obj = v_type e" "obj_inv obj"
  shows "sys_inv (s\<lparr>s_heap := (s_heap s)(v_resource e \<mapsto> obj), s_vrt := v\<rparr>)" (is "sys_inv ?s")
proof (rule sys_invI)
  have fresh: "v_resource e' \<noteq> v_resource e" if "handles s k = Some e'" for k e'
    using sys_invD(3) [OF s that] r by (metis option.distinct(1))
  have hs: "handles ?s k = (if k = h then Some e else handles s k)" for k using v(3) by simp
  show "vrt_inv (s_vrt ?s)" "s_inited (s_vrt ?s)" using v by simp_all
  fix k e1
  assume "handles ?s k = Some e1"
  then have k: "if k = h then e1 = e else handles s k = Some e1" unfolding hs by (simp split: if_splits)
  show "\<exists>obj. s_heap ?s (v_resource e1) = Some obj \<and> obj_type obj = v_type e1 \<and> obj_inv obj"
  proof (cases "k = h")
    case True
    then show ?thesis using k o by simp
  next
    case False
    then have k': "handles s k = Some e1" using k by simp
    show ?thesis using sys_invD(3) [OF s k'] fresh [OF k'] by simp
  qed
  fix k' e2
  assume "handles ?s k' = Some e2" and eq: "v_resource e1 = v_resource e2"
  then have k': "if k' = h then e2 = e else handles s k' = Some e2" unfolding hs by (simp split: if_splits)
  show "k = k'"
  proof (cases "k = h")
    case True
    then have "v_resource e2 = v_resource e" using k eq by simp
    then show ?thesis using k' fresh [of k' e2] True by (simp split: if_splits)
  next
    case False
    then have h: "handles s k = Some e1" using k by simp
    have "v_resource e2 \<noteq> v_resource e" using fresh [OF h] eq by simp
    then have "handles s k' = Some e2" using k' by (auto split: if_splits)
    then show ?thesis using sys_invD(4) [OF s h _ eq] by simp
  qed
next
  fix x y
  assume xy: "s_heap ?s x = Some y"
  show "\<exists>k e'. handles ?s k = Some e' \<and> v_resource e' = x"
  proof (cases "x = v_resource e")
    case True
    then show ?thesis using v(3) by (intro exI [of _ h] exI [of _ e]) simp
  next
    case False
    then have y: "s_heap s x = Some y" using xy by simp
    obtain k e' where k: "handles s k = Some e'" "v_resource e' = x" using sys_invD(5) [OF s y] by blast
    then have "k \<noteq> h" using v(4) by auto
    then show ?thesis using k v(3) by (intro exI [of _ k] exI [of _ e']) simp
  qed
qed

lemma sys_inv_del:
  assumes s: "sys_inv s" and h: "handles s h = Some e"
    and v: "vrt_inv v" "s_inited v" "vrt_map v = (handles s)(h := None)"
  shows "sys_inv (s\<lparr>s_vrt := v, s_heap := (s_heap s)(v_resource e := None)\<rparr>)" (is "sys_inv ?s")
proof (rule sys_invI)
  have m: "handles ?s k = Some e' \<longleftrightarrow> handles s k = Some e' \<and> k \<noteq> h" for k e' using v(3) by auto
  show "vrt_inv (s_vrt ?s)" "s_inited (s_vrt ?s)" using v by simp_all
  fix k e1
  assume "handles ?s k = Some e1"
  then have k: "handles s k = Some e1" "k \<noteq> h" unfolding m by blast+
  then have "v_resource e1 \<noteq> v_resource e" using sys_invD(4) [OF s h k(1)] by metis
  then show "\<exists>obj. s_heap ?s (v_resource e1) = Some obj \<and> obj_type obj = v_type e1 \<and> obj_inv obj"
    using sys_invD(3) [OF s k(1)] by simp
  fix k' e2
  assume "handles ?s k' = Some e2" and "v_resource e1 = v_resource e2"
  then show "k = k'" using sys_invD(4) [OF s k(1), of k' e2] unfolding m by blast
next
  fix x y
  assume xy: "s_heap ?s x = Some y"
  then have x: "x \<noteq> v_resource e" and y: "s_heap s x = Some y" by (auto split: if_splits)
  obtain k e' where k: "handles s k = Some e'" "v_resource e' = x" using sys_invD(5) [OF s y] by blast
  then have "k \<noteq> h" using x h by auto
  then show "\<exists>k e'. handles ?s k = Some e' \<and> v_resource e' = x"
    using k v(3) by (intro exI [of _ k] exI [of _ e']) simp
qed

text \<open>What the calls rely on of the allocator: the address of a new object is not in use, and a
  block has the size asked for.\<close>

definition env_ok :: "env \<Rightarrow> sys \<Rightarrow> bool" where
  "env_ok e s \<longleftrightarrow> (e_struct e \<noteq> NULL \<longrightarrow> s_heap s (e_struct e) = None) \<and>
     (\<forall>k bs. e_malloc e k = Some bs \<longrightarrow> length bs = k)"

text \<open>The table does not leave a new object without a handle: it gets a fresh one or is released.\<close>

lemma sys_create:
  assumes s: "sys_inv s" and r: "s_heap s r = None" "r \<noteq> NULL" and o: "obj_inv obj"
  obtains h v where "vrt_alloc (s_vrt s) (obj_type obj) r path sz = Some (h, v)"
    and "h = VRT_HANDLE_INVALID \<Longrightarrow> v = s_vrt s"
    and "h \<noteq> VRT_HANDLE_INVALID \<Longrightarrow> sys_inv (s\<lparr>s_heap := (s_heap s)(r \<mapsto> obj), s_vrt := v\<rparr>) \<and>
           handles s h = None \<and> (\<exists>e. v_resource e = r \<and> v_type e = obj_type obj \<and> vrt_map v = (handles s)(h \<mapsto> e))"
proof -
  obtain h v where a: "vrt_alloc (s_vrt s) (obj_type obj) r path sz = Some (h, v)" "vrt_inv v" "s_inited v"
      "if \<forall>k < of_nat VRT_MAX_HANDLES. handles s k \<noteq> None then h = VRT_HANDLE_INVALID \<and> v = s_vrt s
       else h < of_nat VRT_MAX_HANDLES \<and> handles s h = None \<and>
          (\<exists>e. v_type e = obj_type obj \<and> v_resource e = r \<and> v_size e = sz \<and> vrt_map v = (handles s)(h \<mapsto> e))"
    using vrt_alloc_map [OF sys_invD(1,2) [OF s] r(2), of "obj_type obj" path sz] by blast
  show thesis
  proof (cases "\<forall>k < of_nat VRT_MAX_HANDLES. handles s k \<noteq> None")
    case True
    show thesis using a(4) [unfolded if_P [OF True]] by (intro that [OF a(1)]) blast+
  next
    case False
    obtain e where e: "handles s h = None" "h < 256" "v_type e = obj_type obj" "v_resource e = r"
        "vrt_map v = (handles s)(h \<mapsto> e)"
      using a(4) [unfolded if_not_P [OF False]] by auto
    have "sys_inv (s\<lparr>s_heap := (s_heap s)(v_resource e \<mapsto> obj), s_vrt := v\<rparr>)"
      by (rule sys_inv_add [OF s _ a(2,3) e(5,1)]) (use e r o in auto)
    moreover have "h \<noteq> VRT_HANDLE_INVALID" using e(2) by auto
    ultimately show thesis using e by (intro that [OF a(1)]) auto
  qed
qed

section \<open>The invariant is kept by every call\<close>

lemma destroy_unused:
  "p_waiters p = 0 \<Longrightarrow> fst (pipe_destroy b p) = Ret ()" "q_waiters q = 0 \<Longrightarrow> fst (msgq_destroy b q) = Ret ()"
  by (cases b; simp add: pipe_destroy_def msgq_destroy_def)+

lemma closing_inv:
  "pipe_inv (p\<lparr>p_closing := c\<rparr>) = pipe_inv p" "msgq_inv (q\<lparr>q_closing := c\<rparr>) = msgq_inv q"
  by (simp_all add: pipe_inv_def msgq_inv_def)

lemma destroy_inv: "pipe_inv (snd (pipe_destroy b p)) = pipe_inv p" "msgq_inv (snd (msgq_destroy b q)) = msgq_inv q"
  by (cases b; simp add: pipe_destroy_def msgq_destroy_def Let_def closing_inv)+

lemma fun_upd_undo: "m r = None \<Longrightarrow> m(r := None) = m"
  by auto

fun obj_waiters :: "kobj \<Rightarrow> nat" where
  "obj_waiters (KPipe p) = p_waiters p"
| "obj_waiters (KMsgq q) = q_waiters q"

fun obj_closing :: "kobj \<Rightarrow> bool" where
  "obj_closing (KPipe p) = p_closing p"
| "obj_closing (KMsgq q) = q_closing q"

text \<open>What the operations on an object do to the state: they replace it by a well-formed one of
  its type, with \<open>k\<close> more waiting calls and marked as closing when \<open>c\<close>, and may write to the
  caller's memory.\<close>

definition obj_step :: "sys \<Rightarrow> ptr \<Rightarrow> int \<Rightarrow> bool \<Rightarrow> sys \<Rightarrow> bool" where
  "obj_step s res k c s' \<longleftrightarrow>
     (\<exists>obj obj' m. s_heap s res = Some obj \<and> obj_type obj' = obj_type obj \<and> obj_inv obj' \<and>
        int (obj_waiters obj') = int (obj_waiters obj) + k \<and> obj_closing obj' = (obj_closing obj \<or> c) \<and>
        s' = s\<lparr>s_heap := (s_heap s)(res \<mapsto> obj'), s_mem := m\<rparr>)"

lemma obj_step_inv: "sys_inv s \<Longrightarrow> obj_step s res k c s' \<Longrightarrow> sys_inv s'"
  using sys_inv_update by (auto simp: obj_step_def)

lemma obj_stepI:
  assumes "s_heap s res = Some obj" and "obj_type obj' = obj_type obj" and "obj_inv obj'"
    and "int (obj_waiters obj') = int (obj_waiters obj) + k" and "obj_closing obj' = (obj_closing obj \<or> c)"
  shows "obj_step s res k c (s\<lparr>s_heap := (s_heap s)(res \<mapsto> obj'), s_mem := m\<rparr>)"
    and "obj_step s res k c (s\<lparr>s_heap := (s_heap s)(res \<mapsto> obj')\<rparr>)"
proof -
  show 1: "obj_step s res k c (s\<lparr>s_heap := (s_heap s)(res \<mapsto> obj'), s_mem := m\<rparr>)" for m
    using assms unfolding obj_step_def by blast
  show "obj_step s res k c (s\<lparr>s_heap := (s_heap s)(res \<mapsto> obj')\<rparr>)"
    using 1 [of "s_mem s"] by simp
qed

text \<open>A result that is defined whenever \<open>ok\<close> holds, and good whenever it is defined.\<close>

definition safe_or :: "bool \<Rightarrow> ('a \<Rightarrow> bool) \<Rightarrow> 'a option \<Rightarrow> bool" where
  "safe_or ok Q m \<longleftrightarrow> (case m of None \<Rightarrow> \<not> ok | Some x \<Rightarrow> Q x)"

lemma safe_or_simps [simp]:
  "safe_or ok Q (Some x) = Q x" "safe_or ok Q None = (\<not> ok)"
  "safe_or ok Q (if c then m1 else m2) = (if c then safe_or ok Q m1 else safe_or ok Q m2)"
  by (simp_all add: safe_or_def)

lemma safe_orD:
  assumes "safe_or ok Q m"
  shows "ok \<Longrightarrow> \<exists>x. m = Some x \<and> Q x" and "m = Some x \<Longrightarrow> Q x"
  using assms by (auto simp: safe_or_def split: option.splits)

lemma safe_or_mono: "safe_or ok Q m \<Longrightarrow> (ok' \<Longrightarrow> ok) \<Longrightarrow> (\<And>x. Q x \<Longrightarrow> Q' x) \<Longrightarrow> safe_or ok' Q' m"
  by (auto simp: safe_or_def split: option.splits)

lemma user_ok_mono: "user_ok e a n \<Longrightarrow> m \<le> n \<Longrightarrow> user_ok e a m"
  by (simp add: user_ok_def)

lemma sys_deliver_step:
  assumes "s_heap s res = Some obj" and "obj_type obj' = obj_type obj" and "obj_inv obj'"
    and "obj_closing obj' = obj_closing obj"
    and "\<And>n bs. r = Ret (n, bs) \<Longrightarrow> k n \<le> cnt"
    and "int (obj_waiters obj') = int (obj_waiters obj) + d"
  shows "safe_or (user_ok e buf cnt) (\<lambda>(r', s'). (case r of Block \<Rightarrow> r' = Block | Ret (n, bs) \<Rightarrow> r' = Ret n) \<and> obj_step s res d False s')
           (sys_deliver e s res buf k obj' r)"
proof (cases r)
  case Block
  then show ?thesis using obj_stepI(2) [OF assms(1-3,6), of False] assms(4) by (simp add: sys_deliver_def)
next
  case (Ret x)
  obtain n bs where x: "x = (n, bs)" by (cases x)
  then have "user_ok e buf (k n)" if "user_ok e buf cnt" using user_ok_mono [OF that] assms(5) Ret by simp
  then show ?thesis using obj_stepI(1) [OF assms(1-3,6), of False] assms(4) Ret x by (auto simp: sys_deliver_def Let_def)
qed

text \<open>What a call does to the table and the objects: nothing; a new object behind a fresh handle; an
  operation on the object behind its handle, or the start of a wait in it; the start of a wait
  for the readers of an object that is being closed; the release of an object.\<close>

definition op_type :: "fl_syscall_no \<Rightarrow> vrt_type" where
  "op_type no = (if no = FL_SYS_PIPE_READ \<or> no = FL_SYS_PIPE_WRITE then VRT_TYPE_PIPE else VRT_TYPE_MSGQ)"

inductive call_step :: "build \<Rightarrow> sys \<Rightarrow> fl_syscall_no \<Rightarrow> u64 \<Rightarrow> int outcome \<Rightarrow> sys \<Rightarrow> bool"
  for b s no h where
  quiet: "(no = FL_SYS_CLOSE \<longrightarrow> n \<noteq> 0) \<Longrightarrow> call_step b s no h (Ret n) (s\<lparr>s_mem := m\<rparr>)"
| create: "no \<in> {FL_SYS_PIPE_CREATE, FL_SYS_MSGQ_CREATE} \<Longrightarrow> handles s g = None \<Longrightarrow> s_heap s (v_resource en) = None \<Longrightarrow>
    handles s' = (handles s)(g \<mapsto> en) \<Longrightarrow> s_heap s' = (s_heap s)(v_resource en \<mapsto> obj) \<Longrightarrow>
    obj_waiters obj = 0 \<Longrightarrow> \<not> obj_closing obj \<Longrightarrow> sys_inv s' \<Longrightarrow> call_step b s no h (Ret (int (unat g))) s'"
| use: "no \<in> {FL_SYS_PIPE_READ, FL_SYS_PIPE_WRITE, FL_SYS_MSGQ_SEND, FL_SYS_MSGQ_RECV} \<Longrightarrow>
    handles s h = Some en \<Longrightarrow> obj_step s (v_resource en) 0 False s' \<Longrightarrow> call_step b s no h (Ret n) s'"
| wait: "b = Hosted \<Longrightarrow> no \<in> {FL_SYS_PIPE_READ, FL_SYS_MSGQ_RECV} \<Longrightarrow> handles s h = Some en \<Longrightarrow>
    v_type en = op_type no \<Longrightarrow> obj_step s (v_resource en) 1 False s' \<Longrightarrow> call_step b s no h Block s'"
| drain: "b = Hosted \<Longrightarrow> no = FL_SYS_CLOSE \<Longrightarrow> handles s h = Some en \<Longrightarrow>
    obj_step s (v_resource en) 0 True s' \<Longrightarrow> call_step b s no h Block s'"
| close: "no = FL_SYS_CLOSE \<Longrightarrow> handles s h = Some en \<Longrightarrow> s_heap s (v_resource en) = Some obj \<Longrightarrow>
    (b = Hosted \<longrightarrow> obj_waiters obj = 0) \<Longrightarrow> vrt_inv v \<Longrightarrow> s_inited v \<Longrightarrow> vrt_map v = (handles s)(h := None) \<Longrightarrow>
    call_step b s no h (Ret 0) (s\<lparr>s_vrt := v, s_heap := (s_heap s)(v_resource en := None)\<rparr>)"

lemma call_step_refl: "(no = FL_SYS_CLOSE \<longrightarrow> n \<noteq> 0) \<Longrightarrow> call_step b s no h (Ret n) s"
  using call_step.quiet [of no n b s h "s_mem s"] by simp

lemma call_step_inv:
  assumes "sys_inv s" and "call_step b s no h r s'"
  shows "sys_inv s'"
  using assms(2)
proof cases
  case (close en obj v)
  then show ?thesis using sys_inv_del [OF assms(1)] by simp
qed (use assms(1) sys_inv_mem obj_step_inv in blast)+

lemma lookup_pipe:
  assumes "sys_inv s"
  obtains "sys_lookup s VRT_TYPE_PIPE h = Some None"
  | e p where "handles s h = Some e" "s_heap s (v_resource e) = Some (KPipe p)" "pipe_inv p"
      "sys_lookup s VRT_TYPE_PIPE h = Some (Some (v_resource e, KPipe p))"
proof -
  from sys_lookup_inv [OF assms, of VRT_TYPE_PIPE h] show thesis
  proof (elim disjE exE conjE)
    fix e obj
    assume "handles s h = Some e" "s_heap s (v_resource e) = Some obj" "obj_type obj = VRT_TYPE_PIPE"
      "obj_inv obj" "sys_lookup s VRT_TYPE_PIPE h = Some (Some (v_resource e, obj))"
    then show thesis by (cases obj) (simp_all add: that(2))
  qed (rule that(1))
qed

lemma lookup_msgq:
  assumes "sys_inv s"
  obtains "sys_lookup s VRT_TYPE_MSGQ h = Some None"
  | e q where "handles s h = Some e" "s_heap s (v_resource e) = Some (KMsgq q)" "msgq_inv q"
      "sys_lookup s VRT_TYPE_MSGQ h = Some (Some (v_resource e, KMsgq q))"
proof -
  from sys_lookup_inv [OF assms, of VRT_TYPE_MSGQ h] show thesis
  proof (elim disjE exE conjE)
    fix e obj
    assume "handles s h = Some e" "s_heap s (v_resource e) = Some obj" "obj_type obj = VRT_TYPE_MSGQ"
      "obj_inv obj" "sys_lookup s VRT_TYPE_MSGQ h = Some (Some (v_resource e, obj))"
    then show thesis by (cases obj) (simp_all add: that(2))
  qed (rule that(1))
qed


lemma handle_type:
  assumes "sys_inv s" and "handles s h = Some e" and "s_heap s (v_resource e) = Some obj"
  shows "v_type e = obj_type obj"
  using sys_invD(3) [OF assms(1,2)] assms(3) by simp

lemma sys_pipe_read_step:
  assumes s: "sys_inv s"
  shows "safe_or (buf = NULL \<or> user_ok e buf (unat cnt)) (\<lambda>(r, s'). call_step b s FL_SYS_PIPE_READ h r s')
           (sys_pipe_read b e s h buf cnt)"
proof (rule lookup_pipe [OF s, of h])
  fix en p
  assume l: "handles s h = Some en" "s_heap s (v_resource en) = Some (KPipe p)" "pipe_inv p"
    "sys_lookup s VRT_TYPE_PIPE h = Some (Some (v_resource en, KPipe p))"
  have ty: "v_type en = op_type FL_SYS_PIPE_READ" using handle_type [OF s l(1,2)] by (simp add: op_type_def)
  obtain r p' where r: "pipe_read b p (mem_read (s_mem s) buf (unat cnt)) (unat cnt) = Some (r, p')"
      "pipe_read_result b p (unat cnt) r p'"
    using pipe_read_any [OF l(3), of "unat cnt" "mem_read (s_mem s) buf (unat cnt)" b] by auto
  have d: "safe_or (user_ok e buf (unat cnt)) (\<lambda>(r', s'). (case r of Block \<Rightarrow> r' = Block | Ret (n, bs) \<Rightarrow> r' = Ret n) \<and>
      obj_step s (v_resource en) (if r = Block then 1 else 0) False s') (sys_deliver e s (v_resource en) buf nat (KPipe p') r)"
    by (rule sys_deliver_step [OF l(2)]) (use r(2) in \<open>auto simp: pipe_read_result_def split: outcome.splits\<close>)
  have "safe_or (user_ok e buf (unat cnt)) (\<lambda>(r', s'). call_step b s FL_SYS_PIPE_READ h r' s')
      (sys_deliver e s (v_resource en) buf nat (KPipe p') r)"
    by (rule safe_or_mono [OF d]) (use r(2) l(1) ty in \<open>auto simp: pipe_read_result_def intro: call_step.intros split: outcome.splits\<close>)
  then show ?thesis using l(4) r(1) by (auto simp: sys_pipe_read_def call_step_refl)
qed (simp add: sys_pipe_read_def call_step_refl)

lemma sys_pipe_write_step:
  assumes s: "sys_inv s"
  shows "safe_or (buf = NULL \<or> user_ok e buf (unat cnt)) (\<lambda>(r, s'). call_step b s FL_SYS_PIPE_WRITE h r s')
           (sys_pipe_write b e s h buf cnt)"
proof (rule lookup_pipe [OF s, of h])
  fix en p
  assume l: "handles s h = Some en" "s_heap s (v_resource en) = Some (KPipe p)" "pipe_inv p"
    "sys_lookup s VRT_TYPE_PIPE h = Some (Some (v_resource en, KPipe p))"
  obtain n p' where r: "pipe_write b p (mem_read (s_mem s) buf (unat cnt)) (unat cnt) = Some (n, p')" "pipe_inv p'"
      "pipe_frame p p'" "nat n \<le> unat cnt"
    using pipe_write_any [OF l(3), of "unat cnt" "mem_read (s_mem s) buf (unat cnt)" b] by auto
  have "obj_step s (v_resource en) 0 False (s\<lparr>s_heap := (s_heap s)(v_resource en \<mapsto> KPipe p')\<rparr>)"
    by (rule obj_stepI(2) [OF l(2)]) (use r in \<open>simp_all add: pipe_frame_def\<close>)
  then have "call_step b s FL_SYS_PIPE_WRITE h (Ret n) (s\<lparr>s_heap := (s_heap s)(v_resource en \<mapsto> KPipe p')\<rparr>)"
    using call_step.use [OF _ l(1)] by simp
  then show ?thesis using l(4) r user_ok_mono by (auto simp: sys_pipe_write_def call_step_refl)
qed (simp add: sys_pipe_write_def call_step_refl)

lemma sys_msgq_send_step:
  assumes s: "sys_inv s"
  shows "safe_or (msg = NULL \<or> user_ok e msg (unat sz)) (\<lambda>(r, s'). call_step b s FL_SYS_MSGQ_SEND h r s')
           (sys_msgq_send b e s h msg sz)"
proof (rule lookup_msgq [OF s, of h])
  fix en q
  assume l: "handles s h = Some en" "s_heap s (v_resource en) = Some (KMsgq q)" "msgq_inv q"
    "sys_lookup s VRT_TYPE_MSGQ h = Some (Some (v_resource en, KMsgq q))"
  obtain n q' where r: "msgq_send b q (mem_read (s_mem s) msg (unat sz)) (unat sz) = Some (n, q')" "msgq_inv q'"
      "msgq_frame q q'"
    using msgq_send_any [OF l(3), of "unat sz" "mem_read (s_mem s) msg (unat sz)" b] by auto
  have "obj_step s (v_resource en) 0 False (s\<lparr>s_heap := (s_heap s)(v_resource en \<mapsto> KMsgq q')\<rparr>)"
    by (rule obj_stepI(2) [OF l(2)]) (use r in \<open>simp_all add: msgq_frame_def\<close>)
  then have "call_step b s FL_SYS_MSGQ_SEND h (Ret n) (s\<lparr>s_heap := (s_heap s)(v_resource en \<mapsto> KMsgq q')\<rparr>)"
    using call_step.use [OF _ l(1)] by simp
  moreover have "user_ok e msg (if n = 0 then unat sz else 0)" if "user_ok e msg (unat sz)"
    using that by (simp add: user_ok_def)
  ultimately show ?thesis using l(4) r(1) by (auto simp: sys_msgq_send_def call_step_refl)
qed (simp add: sys_msgq_send_def call_step_refl)

lemma sys_msgq_recv_step:
  assumes s: "sys_inv s"
  shows "safe_or (msg = NULL \<or> user_ok e msg (unat sz)) (\<lambda>(r, s'). call_step b s FL_SYS_MSGQ_RECV h r s')
           (sys_msgq_recv b e s h msg sz t)"
proof (rule lookup_msgq [OF s, of h])
  fix en q
  assume l: "handles s h = Some en" "s_heap s (v_resource en) = Some (KMsgq q)" "msgq_inv q"
    "sys_lookup s VRT_TYPE_MSGQ h = Some (Some (v_resource en, KMsgq q))"
  have ty: "v_type en = op_type FL_SYS_MSGQ_RECV" using handle_type [OF s l(1,2)] by (simp add: op_type_def)
  obtain r q' where r: "msgq_receive b q (mem_read (s_mem s) msg (unat sz)) (unat sz) (unat t) = Some (r, q')"
      "msgq_recv_result b q r q'"
    using msgq_receive_any [OF l(3), of "unat sz" "mem_read (s_mem s) msg (unat sz)" b "unat t"] by auto
  have d: "safe_or (user_ok e msg (unat sz)) (\<lambda>(r', s'). (case r of Block \<Rightarrow> r' = Block | Ret (n, bs) \<Rightarrow> r' = Ret n) \<and>
      obj_step s (v_resource en) (if r = Block then 1 else 0) False s')
      (sys_deliver e s (v_resource en) msg (recv_bytes q' sz) (KMsgq q') r)"
    by (rule sys_deliver_step [OF l(2)])
      (use r(2) in \<open>auto simp: msgq_recv_result_def recv_bytes_def min_size_def split: outcome.splits\<close>)
  have "safe_or (user_ok e msg (unat sz)) (\<lambda>(r', s'). call_step b s FL_SYS_MSGQ_RECV h r' s')
      (sys_deliver e s (v_resource en) msg (recv_bytes q' sz) (KMsgq q') r)"
    by (rule safe_or_mono [OF d]) (use r(2) l(1) ty in \<open>auto simp: msgq_recv_result_def intro: call_step.intros split: outcome.splits\<close>)
  then show ?thesis using l(4) r(1) by (auto simp: sys_msgq_recv_def call_step_refl)
qed (simp add: sys_msgq_recv_def call_step_refl)

text \<open>Closing a handle: the state after it, and what a waiting close leads to.\<close>

lemma destroy_step:
  assumes s: "sys_inv s" and h: "handles s h = Some en"
  shows "\<exists>r s'. sys_close_entry b s h en = Some (r, s') \<and> call_step b s FL_SYS_CLOSE h r s' \<and> (r = Block \<or> r = Ret 0)"
proof -
  obtain obj where o: "s_heap s (v_resource en) = Some obj" "obj_type obj = v_type en" "obj_inv obj"
    using sys_invD(3) [OF s h] by blast
  obtain v where v: "vrt_free (s_vrt s) h = Some v" "vrt_inv v" "s_inited v" "vrt_map v = (handles s)(h := None)"
    using vrt_free_map [OF sys_invD(1) [OF s], of h] sys_invD(2) [OF s] by blast
  have c: "call_step b s FL_SYS_CLOSE h (Ret 0) (s\<lparr>s_vrt := v, s_heap := (s_heap s)(v_resource en := None)\<rparr>)"
    if "b = Hosted \<longrightarrow> obj_waiters obj = 0"
    using call_step.close [OF _ h o(1) that v(2-4)] by simp
  have w: "call_step b s FL_SYS_CLOSE h Block (s\<lparr>s_heap := (s_heap s)(v_resource en \<mapsto> obj')\<rparr>)"
    if "b = Hosted" "obj_type obj' = obj_type obj" "obj_inv obj'" "obj_waiters obj' = obj_waiters obj" "obj_closing obj'" for obj'
    using call_step.drain [OF that(1) _ h obj_stepI(2) [OF o(1) that(2,3), of 0 True]] that(4,5) by simp
  show ?thesis
  proof (cases obj)
    case (KPipe p)
    then show ?thesis using o v(1) c w [of "KPipe (p\<lparr>p_closing := True\<rparr>)"]
      by (cases b) (auto simp: sys_close_entry_def pipe_destroy_def closing_inv Let_def)
  next
    case (KMsgq q)
    then show ?thesis using o v(1) c w [of "KMsgq (q\<lparr>q_closing := True\<rparr>)"]
      by (cases b) (auto simp: sys_close_entry_def msgq_destroy_def closing_inv Let_def)
  qed
qed

lemma sys_close_step:
  assumes s: "sys_inv s"
  shows "\<exists>r s'. sys_close b s h = Some (r, s') \<and> call_step b s FL_SYS_CLOSE h r s'"
proof (cases "handles s h")
  case None
  then show ?thesis using vrt_tab.get_live [OF sys_invD(1) [OF s]] call_step_refl by (simp add: sys_close_def)
next
  case (Some e)
  then show ?thesis using destroy_step [OF s Some, of b] vrt_tab.get_live [OF sys_invD(1) [OF s]] by (auto simp: sys_close_def)
qed

lemma sys_pipe_create_step:
  assumes s: "sys_inv s" and e: "env_ok e s"
  shows "\<exists>r s'. sys_pipe_create b e s a0 = Some (r, s') \<and> call_step b s FL_SYS_PIPE_CREATE h r s'"
proof (cases "pipe_create (e_malloc e) (e_struct e \<noteq> NULL) (unat a0)")
  case None
  then show ?thesis by (simp add: sys_pipe_create_def call_step_refl)
next
  case (Some p)
  have r: "e_struct e \<noteq> NULL" "s_heap s (e_struct e) = None" and w: "p_waiters p = 0" "\<not> p_closing p"
    using Some e by (auto simp: pipe_create_def env_ok_def split: if_splits option.splits)
  have "pipe_inv p" using pipe_create_inv(1) [OF Some] e by (simp add: env_ok_def)
  then have o: "obj_inv (KPipe p)" by simp
  obtain g v where a: "vrt_alloc (s_vrt s) (obj_type (KPipe p)) (e_struct e) (Some ''pipe'') (unat a0) = Some (g, v)"
      "g = VRT_HANDLE_INVALID \<Longrightarrow> v = s_vrt s"
      "g \<noteq> VRT_HANDLE_INVALID \<Longrightarrow> sys_inv (s\<lparr>s_heap := (s_heap s)(e_struct e \<mapsto> KPipe p), s_vrt := v\<rparr>) \<and> handles s g = None \<and>
         (\<exists>en. v_resource en = e_struct e \<and> v_type en = obj_type (KPipe p) \<and> vrt_map v = (handles s)(g \<mapsto> en))"
    by (rule sys_create [OF s r(2,1) o, of "Some ''pipe''" "unat a0"]) blast
  obtain p' where d: "pipe_destroy b p = (Ret (), p')" using destroy_unused(1) [OF w(1), of b] by (metis prod.collapse)
  show ?thesis
  proof (cases "g = VRT_HANDLE_INVALID")
    case True
    then show ?thesis using a(1,2) Some d r(2) by (simp add: sys_pipe_create_def fun_upd_undo call_step_refl)
  next
    case False
    then obtain en where en: "v_resource en = e_struct e" "vrt_map v = (handles s)(g \<mapsto> en)" using a(3) by blast
    have "call_step b s FL_SYS_PIPE_CREATE h (Ret (int (unat g))) (s\<lparr>s_heap := (s_heap s)(e_struct e \<mapsto> KPipe p), s_vrt := v\<rparr>)"
      by (rule call_step.create [of _ _ g en _ "KPipe p"]) (use a(3) [OF False] en r w in simp_all)
    then show ?thesis using a(1) Some False by (simp add: sys_pipe_create_def)
  qed
qed

lemma sys_msgq_create_step:
  assumes s: "sys_inv s" and e: "env_ok e s" and n: "unat a0 * unat a1 < 2 ^ 64"
  shows "\<exists>r s'. sys_msgq_create b e s a0 a1 = Some (r, s') \<and> call_step b s FL_SYS_MSGQ_CREATE h r s'"
proof (cases "msgq_create (e_malloc e) (e_struct e \<noteq> NULL) b (e_cattr e) (unat a0) (unat a1)")
  case None
  then show ?thesis by (simp add: sys_msgq_create_def call_step_refl)
next
  case (Some q)
  have r: "e_struct e \<noteq> NULL" "s_heap s (e_struct e) = None" and w: "q_waiters q = 0" "\<not> q_closing q"
    using Some e by (auto simp: msgq_create_def env_ok_def split: if_splits option.splits)
  have "msgq_inv q" using msgq_create_inv(1) [OF Some _ n] e by (simp add: env_ok_def)
  then have o: "obj_inv (KMsgq q)" by simp
  obtain g v where a: "vrt_alloc (s_vrt s) (obj_type (KMsgq q)) (e_struct e) (Some ''msgq'') (unat a1) = Some (g, v)"
      "g = VRT_HANDLE_INVALID \<Longrightarrow> v = s_vrt s"
      "g \<noteq> VRT_HANDLE_INVALID \<Longrightarrow> sys_inv (s\<lparr>s_heap := (s_heap s)(e_struct e \<mapsto> KMsgq q), s_vrt := v\<rparr>) \<and> handles s g = None \<and>
         (\<exists>en. v_resource en = e_struct e \<and> v_type en = obj_type (KMsgq q) \<and> vrt_map v = (handles s)(g \<mapsto> en))"
    by (rule sys_create [OF s r(2,1) o, of "Some ''msgq''" "unat a1"]) blast
  obtain q' where d: "msgq_destroy b q = (Ret (), q')" using destroy_unused(2) [OF w(1), of b] by (metis prod.collapse)
  show ?thesis
  proof (cases "g = VRT_HANDLE_INVALID")
    case True
    then show ?thesis using a(1,2) Some d r(2) by (simp add: sys_msgq_create_def fun_upd_undo call_step_refl)
  next
    case False
    then obtain en where en: "v_resource en = e_struct e" "vrt_map v = (handles s)(g \<mapsto> en)" using a(3) by blast
    have "call_step b s FL_SYS_MSGQ_CREATE h (Ret (int (unat g))) (s\<lparr>s_heap := (s_heap s)(e_struct e \<mapsto> KMsgq q), s_vrt := v\<rparr>)"
      by (rule call_step.create [of _ _ g en _ "KMsgq q"]) (use a(3) [OF False] en r w in simp_all)
    then show ?thesis using a(1) Some False by (simp add: sys_msgq_create_def)
  qed
qed

abbreviation sys_start :: "memory \<Rightarrow> sys" where
  "sys_start m \<equiv> fl_sys_bootstrap \<lparr>s_vrt = vrt_static, s_heap = Map.empty, s_mem = m\<rparr>"

lemma sys_start_handles: "handles (sys_start m) h = None"
  using unat_handle [of h]
  by (simp add: vrt_map_def fl_sys_bootstrap_def vrt_init_def vrt_static_def zero_entry_def)

lemma sys_start_inv: "sys_inv (sys_start m)"
proof (rule sys_invI)
  show "vrt_inv (s_vrt (sys_start m))" "s_inited (s_vrt (sys_start m))"
    by (simp_all add: fl_sys_bootstrap_def vrt_init_def vrt_static_def vrt_inv_def)
  show "\<exists>h e. handles (sys_start m) h = Some e \<and> v_resource e = r" if "s_heap (sys_start m) r = Some obj" for r obj
    using that by (simp add: fl_sys_bootstrap_def)
qed (simp_all add: sys_start_handles)

text \<open>What the calls rely on of their caller: the sizes of a message queue do not wrap, and the
  buffers lie in the caller's memory.\<close>

definition call_ok :: "fl_syscall_no \<Rightarrow> u64 \<Rightarrow> u64 \<Rightarrow> bool" where
  "call_ok no a0 a1 \<longleftrightarrow> (no = FL_SYS_MSGQ_CREATE \<longrightarrow> unat a0 * unat a1 < 2 ^ 64)"

definition buf_ok :: "env \<Rightarrow> fl_syscall_no \<Rightarrow> u64 \<Rightarrow> u64 \<Rightarrow> u64 \<Rightarrow> bool" where
  "buf_ok e no a0 a1 a2 \<longleftrightarrow>
     (no \<in> {FL_SYS_WRITE, FL_SYS_READ} \<longrightarrow> a0 = NULL \<or> user_ok e a0 (unat a1)) \<and>
     (no \<in> {FL_SYS_PIPE_READ, FL_SYS_PIPE_WRITE, FL_SYS_MSGQ_SEND, FL_SYS_MSGQ_RECV} \<longrightarrow> a1 = NULL \<or> user_ok e a1 (unat a2))"

abbreviation handle_ops :: "fl_syscall_no set" where
  "handle_ops \<equiv> {FL_SYS_PIPE_READ, FL_SYS_PIPE_WRITE, FL_SYS_MSGQ_SEND, FL_SYS_MSGQ_RECV, FL_SYS_CLOSE}"

lemma sys_op_step:
  assumes s: "sys_inv s" and "no \<in> handle_ops"
  shows "safe_or (buf_ok e no a0 a1 a2) (\<lambda>(r, s'). call_step b s no a0 r s') (fl_syscall_dispatch b e s no a0 a1 a2 a3)"
  using assms(2) sys_pipe_read_step [OF s, of a1 e a2 b a0] sys_pipe_write_step [OF s, of a1 e a2 b a0]
    sys_msgq_send_step [OF s, of a1 e a2 b a0] sys_msgq_recv_step [OF s, of a1 e a2 b a0 a3] sys_close_step [OF s, of b a0]
  by (auto simp: fl_syscall_dispatch_def buf_ok_def)

lemma sys_dispatch_step:
  assumes s: "sys_inv s" and e: "env_ok e s" and c: "call_ok no a0 a1"
  shows "safe_or (buf_ok e no a0 a1 a2) (\<lambda>(r, s'). call_step b s no a0 r s') (fl_syscall_dispatch b e s no a0 a1 a2 a3)"
proof (cases "no \<in> handle_ops")
  case False
  show ?thesis
  proof (cases no)
    case FL_SYS_READ
    obtain rd bs where "e_read e (unat a1) = (rd, bs)" by fastforce
    then show ?thesis by (auto simp: fl_syscall_dispatch_def FL_SYS_READ buf_ok_def intro: call_step.quiet call_step_refl)
  next
    case FL_SYS_PIPE_CREATE
    then show ?thesis using sys_pipe_create_step [OF s e, of b a0 a0] by (auto simp: fl_syscall_dispatch_def)
  next
    case FL_SYS_MSGQ_CREATE
    then show ?thesis using sys_msgq_create_step [OF s e, of a0 a1 b a0] c by (auto simp: fl_syscall_dispatch_def call_ok_def)
  qed (use False in \<open>auto simp: fl_syscall_dispatch_def buf_ok_def Let_def intro: call_step_refl\<close>)
qed (rule sys_op_step [OF s])

lemma sys_dispatch_inv:
  assumes "sys_inv s" and "env_ok e s" and "call_ok no a0 a1" and "buf_ok e no a0 a1 a2"
  shows "\<exists>r s'. fl_syscall_dispatch b e s no a0 a1 a2 a3 = Some (r, s') \<and> sys_inv s'"
  using safe_orD(1) [OF sys_dispatch_step [OF assms(1-3), of a2 b a3] assms(4)] call_step_inv [OF assms(1)] by blast

section \<open>Runs with waiting calls\<close>

fun waits_in :: "ptr \<Rightarrow> waiter \<Rightarrow> bool" where
  "waits_in r (Reader res buf cnt) = (res = r)"
| "waits_in r (Receiver res msg sz) = (res = r)"
| "waits_in r (Closer h entry) = False"

fun closes :: "ptr \<Rightarrow> waiter \<Rightarrow> bool" where
  "closes r (Closer h entry) = (v_resource entry = r)"
| "closes r _ = False"

definition readers :: "ptr \<Rightarrow> waiter list \<Rightarrow> nat" where
  "readers r ws = length (filter (waits_in r) ws)"

definition closers :: "ptr \<Rightarrow> waiter list \<Rightarrow> nat" where
  "closers r ws = length (filter (closes r) ws)"

fun waiter_ok :: "sys \<Rightarrow> waiter \<Rightarrow> bool" where
  "waiter_ok s (Reader res buf cnt) = (\<exists>p. s_heap s res = Some (KPipe p))"
| "waiter_ok s (Receiver res msg sz) = (\<exists>q. s_heap s res = Some (KMsgq q))"
| "waiter_ok s (Closer h entry) = (handles s h = Some entry)"

text \<open>The invariant of runs: besides the invariant of the table, the object a call waits in is still
  there, every object counts exactly the calls that wait in it, and it is marked as closing
  exactly when one close waits for them. Nothing waits in the kernel build.\<close>

definition run_inv :: "build \<Rightarrow> sys_state \<Rightarrow> bool" where
  "run_inv b st \<longleftrightarrow> (case st of (s, ws) \<Rightarrow>
     sys_inv s \<and> (b = Kernel \<longrightarrow> ws = []) \<and> (\<forall>w \<in> set ws. waiter_ok s w) \<and>
     (\<forall>r obj. s_heap s r = Some obj \<longrightarrow>
        obj_waiters obj = readers r ws \<and> closers r ws = (if obj_closing obj then 1 else 0)))"

text \<open>What a run relies on: of the allocator, that the address of a new object is not in use and
  that blocks have their size; of the callers, what \<open>call_ok\<close> and \<open>buf_ok\<close> say, also for the
  buffers of a call that wakes up, and that no handle is closed while another close of it
  still waits.\<close>

definition closing_handle :: "sys \<Rightarrow> u64 \<Rightarrow> bool" where
  "closing_handle s h \<longleftrightarrow> (\<exists>en obj. handles s h = Some en \<and> s_heap s (v_resource en) = Some obj \<and> obj_closing obj)"

fun waiter_buf_ok :: "env \<Rightarrow> waiter \<Rightarrow> bool" where
  "waiter_buf_ok e (Reader res buf cnt) = user_ok e buf (unat cnt)"
| "waiter_buf_ok e (Receiver res msg sz) = user_ok e msg (unat sz)"
| "waiter_buf_ok e (Closer h entry) = True"

fun event_ok :: "sys_event \<Rightarrow> sys_state \<Rightarrow> bool" where
  "event_ok (Call e no a0 a1 a2 a3) (s, ws) \<longleftrightarrow>
     env_ok e s \<and> call_ok no a0 a1 \<and> buf_ok e no a0 a1 a2 \<and> (no = FL_SYS_CLOSE \<longrightarrow> \<not> closing_handle s a0)"
| "event_ok (Wakeup e i rc) (s, ws) \<longleftrightarrow> (i < length ws \<longrightarrow> waiter_buf_ok e (ws ! i))"

fun events_ok :: "build \<Rightarrow> sys_event list \<Rightarrow> sys_state \<Rightarrow> bool" where
  "events_ok b [] st \<longleftrightarrow> True"
| "events_ok b (ev # evs) st \<longleftrightarrow>
     event_ok ev st \<and> (case sys_step b ev st of None \<Rightarrow> True | Some (r, st') \<Rightarrow> events_ok b evs st')"

lemma run_invD:
  assumes "run_inv b (s, ws)"
  shows "sys_inv s" and "b = Kernel \<Longrightarrow> ws = []" and "w \<in> set ws \<Longrightarrow> waiter_ok s w"
    and "s_heap s r = Some obj \<Longrightarrow> obj_waiters obj = readers r ws"
    and "s_heap s r = Some obj \<Longrightarrow> closers r ws = (if obj_closing obj then 1 else 0)"
  using assms unfolding run_inv_def by auto

lemma run_invI:
  assumes "sys_inv s" and "b = Kernel \<Longrightarrow> ws = []" and "\<And>w. w \<in> set ws \<Longrightarrow> waiter_ok s w"
    and "\<And>r obj. s_heap s r = Some obj \<Longrightarrow> obj_waiters obj = readers r ws"
    and "\<And>r obj. s_heap s r = Some obj \<Longrightarrow> closers r ws = (if obj_closing obj then 1 else 0)"
  shows "run_inv b (s, ws)"
  using assms unfolding run_inv_def by auto

text \<open>No call waits in an object that does not exist, and none closes it.\<close>

lemma no_waiter_in:
  assumes "run_inv b (s, ws)" and "s_heap s r = None"
  shows "readers r ws = 0" and "closers r ws = 0"
proof -
  have "\<not> waits_in r w \<and> \<not> closes r w" if "w \<in> set ws" for w
    using run_invD(3) [OF assms(1) that] assms(2) sys_invD(3) [OF run_invD(1) [OF assms(1)]] by (cases w) force+
  then show "readers r ws = 0" "closers r ws = 0" by (auto simp: readers_def closers_def filter_empty_conv)
qed

lemma waiter_ok_update:
  assumes "obj_step s res k c s'" and "waiter_ok s w"
  shows "waiter_ok s' w"
proof -
  obtain obj obj' m where o: "s_heap s res = Some obj" "obj_type obj' = obj_type obj"
      "s' = s\<lparr>s_heap := (s_heap s)(res \<mapsto> obj'), s_mem := m\<rparr>"
    using assms(1) unfolding obj_step_def by blast
  then show ?thesis using assms(2) by (cases w; cases obj; cases obj') auto
qed

text \<open>An operation on one object keeps the invariant when the list of waiting calls follows the
  counts.\<close>

lemma run_inv_obj:
  assumes r: "run_inv b (s, ws)" and o: "obj_step s res k c s'"
    and b: "b = Kernel \<Longrightarrow> ws' = []" and w: "\<And>w. w \<in> set ws' \<Longrightarrow> w \<in> set ws \<or> waiter_ok s w"
    and rd: "\<And>x. int (readers x ws') = int (readers x ws) + (if x = res then k else 0)"
    and cl: "\<And>x. closers x ws' = closers x ws + (if x = res \<and> c then 1 else 0)"
    and nc: "c \<Longrightarrow> closers res ws = 0"
  shows "run_inv b (s', ws')"
proof -
  obtain obj obj' m where e: "s_heap s res = Some obj" "int (obj_waiters obj') = int (obj_waiters obj) + k"
      "obj_closing obj' = (obj_closing obj \<or> c)" "s' = s\<lparr>s_heap := (s_heap s)(res \<mapsto> obj'), s_mem := m\<rparr>"
    using o unfolding obj_step_def by blast
  note D = run_invD [OF r]
  show ?thesis
  proof (rule run_invI)
    show "sys_inv s'" by (rule obj_step_inv [OF D(1) o])
    show "waiter_ok s' w'" if "w' \<in> set ws'" for w' using w [OF that] D(3) waiter_ok_update [OF o] by blast
    fix x y
    assume "s_heap s' x = Some y"
    then have y: "if x = res then y = obj' else s_heap s x = Some y" using e(4) by (auto split: if_splits)
    show "obj_waiters y = readers x ws'" using y D(4) [of x] D(4) [OF e(1)] rd [of x] e(2) by (auto split: if_splits)
    show "closers x ws' = (if obj_closing y then 1 else 0)"
      using y D(5) [of x] D(5) [OF e(1)] cl [of x] e(3) nc by (auto split: if_splits)
  qed (rule b)
qed

lemma readers_append: "readers x (ws @ [w]) = readers x ws + (if waits_in x w then 1 else 0)"
  and closers_append: "closers x (ws @ [w]) = closers x ws + (if closes x w then 1 else 0)"
  by (simp_all add: readers_def closers_def)

lemma drop_nth_count:
  assumes "i < length ws"
  shows "readers x ws = readers x (drop_nth i ws) + (if waits_in x (ws ! i) then 1 else 0)"
    and "closers x ws = closers x (drop_nth i ws) + (if closes x (ws ! i) then 1 else 0)"
    and "set (drop_nth i ws) \<subseteq> set ws"
proof -
  have *: "ws = take i ws @ ws ! i # drop (Suc i) ws" by (rule id_take_nth_drop [OF assms])
  show "readers x ws = readers x (drop_nth i ws) + (if waits_in x (ws ! i) then 1 else 0)"
    unfolding readers_def drop_nth_def by (subst (1) *) simp
  show "closers x ws = closers x (drop_nth i ws) + (if closes x (ws ! i) then 1 else 0)"
    unfolding closers_def drop_nth_def by (subst (1) *) simp
  show "set (drop_nth i ws) \<subseteq> set ws" using set_take_subset set_drop_subset by (fastforce simp: drop_nth_def)
qed

text \<open>The release of an object nothing waits in, by a close that was not waiting or by the one that
  was.\<close>

lemma run_inv_close:
  assumes r: "run_inv b (s, ws)" and h: "handles s h = Some en" and v: "vrt_inv v" "s_inited v" "vrt_map v = (handles s)(h := None)"
    and z: "readers (v_resource en) ws = 0" and ws: "set ws' \<subseteq> set ws" "b = Kernel \<Longrightarrow> ws' = []"
    and c: "closers (v_resource en) ws' = 0"
    and cnt: "\<And>x. x \<noteq> v_resource en \<Longrightarrow> readers x ws' = readers x ws \<and> closers x ws' = closers x ws"
  shows "run_inv b (s\<lparr>s_vrt := v, s_heap := (s_heap s)(v_resource en := None)\<rparr>, ws')" (is "run_inv b (?s, ws')")
proof (rule run_invI)
  note D = run_invD [OF r]
  show "sys_inv ?s" by (rule sys_inv_del [OF D(1) h v])
  fix w
  assume w: "w \<in> set ws'"
  then have "\<not> waits_in (v_resource en) w" "\<not> closes (v_resource en) w"
    using z c ws(1) by (auto simp: readers_def closers_def filter_empty_conv)
  moreover have "waiter_ok s w" using w ws(1) D(3) by blast
  ultimately show "waiter_ok ?s w" using h v(3) by (cases w) auto
next
  note D = run_invD [OF r]
  fix x y
  assume "s_heap ?s x = Some y"
  then have "x \<noteq> v_resource en" "s_heap s x = Some y" by (auto split: if_splits)
  then show "obj_waiters y = readers x ws'" "closers x ws' = (if obj_closing y then 1 else 0)"
    using D(4,5) cnt by auto
qed (rule ws(2))

lemma run_inv_mem: "run_inv b (s, ws) \<Longrightarrow> run_inv b (s\<lparr>s_mem := m\<rparr>, ws)"
proof -
  have "waiter_ok (s\<lparr>s_mem := m\<rparr>) w = waiter_ok s w" for w by (cases w) simp_all
  then show "run_inv b (s, ws) \<Longrightarrow> run_inv b (s\<lparr>s_mem := m\<rparr>, ws)" by (simp add: run_inv_def sys_inv_mem)
qed

lemma run_inv_create:
  assumes r: "run_inv b (s, ws)" and h: "handles s g = None" "s_heap s (v_resource en) = None"
    and s': "handles s' = (handles s)(g \<mapsto> en)" "s_heap s' = (s_heap s)(v_resource en \<mapsto> obj)" "sys_inv s'"
    and o: "obj_waiters obj = 0" "\<not> obj_closing obj"
  shows "run_inv b (s', ws)"
proof (rule run_invI)
  note D = run_invD [OF r] and N = no_waiter_in [OF r h(2)]
  show "waiter_ok s' w" if "w \<in> set ws" for w using D(3) [OF that] h s'(1,2) by (cases w) auto
  fix x y
  assume "s_heap s' x = Some y"
  then have "if x = v_resource en then y = obj else s_heap s x = Some y" using s'(2) by (auto split: if_splits)
  then show "obj_waiters y = readers x ws" "closers x ws = (if obj_closing y then 1 else 0)"
    using D(4,5) N o by (auto split: if_splits)
qed (use s'(3) run_invD(2) [OF r] in auto)

text \<open>A handle that is not in use stays so unless a create call returns its number.\<close>

fun hands_out :: "u64 \<Rightarrow> sys_event \<Rightarrow> int outcome \<Rightarrow> bool" where
  "hands_out h (Call e no a0 a1 a2 a3) r \<longleftrightarrow> no \<in> {FL_SYS_PIPE_CREATE, FL_SYS_MSGQ_CREATE} \<and> r = Ret (int (unat h))"
| "hands_out h (Wakeup e i rc) r \<longleftrightarrow> False"

lemma obj_step_handles: "obj_step s res k c s' \<Longrightarrow> handles s' = handles s"
  by (auto simp: obj_step_def)

lemma sys_call_run:
  assumes r: "run_inv b (s, ws)" and ok: "event_ok (Call e no a0 a1 a2 a3) (s, ws)"
  shows "\<exists>x s' ws'. sys_step b (Call e no a0 a1 a2 a3) (s, ws) = Some (x, s', ws') \<and> run_inv b (s', ws') \<and>
    (\<forall>h. handles s h = None \<and> \<not> hands_out h (Call e no a0 a1 a2 a3) x \<longrightarrow> handles s' h = None)"
proof -
  note D = run_invD [OF r]
  obtain x s' where d: "fl_syscall_dispatch b e s no a0 a1 a2 a3 = Some (x, s')" and c: "call_step b s no a0 x s'"
    using safe_orD(1) [OF sys_dispatch_step [OF D(1)]] ok by fastforce
  have nc: "closers (v_resource en) ws = 0" if "no = FL_SYS_CLOSE" "handles s a0 = Some en" for en
    using ok that sys_invD(3) [OF D(1) that(2)] D(5) by (fastforce simp: closing_handle_def)
  have g: "vrt_get (s_vrt s) a0 = Some (handles s a0)" using vrt_get_map [OF sys_invD(1) [OF D(1)]] .
  from c show ?thesis
  proof cases
    case (quiet n m)
    then show ?thesis using d run_inv_mem [OF r] by simp
  next
    case (create g en obj)
    have "run_inv b (s', ws)" by (rule run_inv_create [OF r create(3,4,5,6,9,7,8)])
    then show ?thesis using d create(1,2,5) by auto
  next
    case (use en n)
    have "run_inv b (s', ws)" by (rule run_inv_obj [OF r use(4)]) (use D(2) in auto)
    then show ?thesis using d use(1) obj_step_handles [OF use(4)] by simp
  next
    case (wait en)
    let ?w = "if no = FL_SYS_PIPE_READ then Reader (v_resource en) a1 a2 else Receiver (v_resource en) a1 a2"
    have w: "sys_waiter s no a0 a1 a2 = Some ?w" using wait(3,4) g by (auto simp: sys_waiter_def)
    obtain obj where "s_heap s (v_resource en) = Some obj" "obj_type obj = v_type en" using sys_invD(3) [OF D(1) wait(4)] by blast
    then have "waiter_ok s ?w" using wait(3,5) by (cases obj) (auto simp: op_type_def)
    then have "run_inv b (s', ws @ [?w])"
      by (intro run_inv_obj [OF r wait(6)]) (use wait(2) in \<open>auto simp: readers_append closers_append\<close>)
    then show ?thesis using d wait(1) w obj_step_handles [OF wait(6)] by simp
  next
    case (drain en)
    have w: "sys_waiter s no a0 a1 a2 = Some (Closer a0 en)" using drain(3,4) g by (simp add: sys_waiter_def)
    have "run_inv b (s', ws @ [Closer a0 en])"
      by (rule run_inv_obj [OF r drain(5)]) (use drain nc in \<open>auto simp: readers_append closers_append\<close>)
    then show ?thesis using d drain(1) w obj_step_handles [OF drain(5)] by simp
  next
    case (close en obj v)
    have "readers (v_resource en) ws = 0" using D(2) D(4) [OF close(5)] close(6) by (cases b) (auto simp: readers_def)
    then have "run_inv b (s', ws)"
      unfolding close(2) by (intro run_inv_close [OF r close(4,7,8,9)]) (use D(2) nc [OF close(3,4)] in auto)
    then show ?thesis using d close(1,2,9) by simp
  qed
qed

lemma sys_resume_run:
  assumes r: "run_inv b (s, ws)" and i: "i < length ws" and ok: "waiter_buf_ok e (ws ! i)"
  shows "\<exists>x s'. sys_resume b e s (ws ! i) rc = Some (x, s') \<and>
    run_inv b (s', case x of Block \<Rightarrow> ws | Ret n \<Rightarrow> drop_nth i ws) \<and>
    (\<forall>h. handles s h = None \<longrightarrow> handles s' h = None)"
proof -
  note D = run_invD [OF r] and N = drop_nth_count [OF i]
  have b: "b = Hosted" using D(2) i by (cases b) auto
  have w: "waiter_ok s (ws ! i)" using D(3) i by simp
  have op: "run_inv b (s', case x of Block \<Rightarrow> ws | Ret n \<Rightarrow> drop_nth i ws) \<and> (\<forall>h. handles s h = None \<longrightarrow> handles s' h = None)"
    if "obj_step s res (if x = Block then 0 else - 1) False s'" "\<And>y. waits_in y (ws ! i) = (res = y)" "\<And>y. \<not> closes y (ws ! i)"
    for res s' and x :: "int outcome"
  proof -
    have "run_inv b (s', case x of Block \<Rightarrow> ws | Ret n \<Rightarrow> drop_nth i ws)"
      by (rule run_inv_obj [OF r that(1)]) (use b N that in \<open>cases x; auto\<close>)+
    then show ?thesis using obj_step_handles [OF that(1)] by simp
  qed
  show ?thesis
  proof (cases "ws ! i")
    case (Reader res buf cnt)
    obtain p where p: "s_heap s res = Some (KPipe p)" using w Reader by auto
    have pos: "0 < p_waiters p" and pi: "pipe_inv p"
      using D(4) [OF p] N(1) [of res] Reader sys_inv_obj [OF D(1) p] by auto
    obtain x p' where x: "pipe_read_wake p (mem_read (s_mem s) buf (unat cnt)) (unat cnt) = Some (x, p')"
        "pipe_read_result Hosted (p\<lparr>p_waiters := p_waiters p - 1\<rparr>) (unat cnt) x p'"
      using pipe_read_wake_any [OF pi _ pos, of "unat cnt" "mem_read (s_mem s) buf (unat cnt)"] by auto
    have "safe_or (user_ok e buf (unat cnt)) (\<lambda>(y, s'). (case x of Block \<Rightarrow> y = Block | Ret (n, bs) \<Rightarrow> y = Ret n) \<and>
        obj_step s res (if x = Block then 0 else - 1) False s') (sys_deliver e s res buf nat (KPipe p') x)"
      by (rule sys_deliver_step [OF p]) (use x(2) pos in \<open>auto simp: pipe_read_result_def split: outcome.splits\<close>)
    then show ?thesis using op [of res] ok x(1) p Reader b
      by (cases x) (fastforce dest: safe_orD(1))+
  next
    case (Receiver res msg sz)
    obtain q where q: "s_heap s res = Some (KMsgq q)" using w Receiver by auto
    have pos: "0 < q_waiters q" and qi: "msgq_inv q"
      using D(4) [OF q] N(1) [of res] Receiver sys_inv_obj [OF D(1) q] by auto
    obtain x q' where x: "msgq_receive_wake q (mem_read (s_mem s) msg (unat sz)) (unat sz) rc = Some (x, q')"
        "msgq_recv_result Hosted (q\<lparr>q_waiters := q_waiters q - 1\<rparr>) x q'"
      using msgq_receive_wake_any [OF qi _ pos, of "unat sz" "mem_read (s_mem s) msg (unat sz)" rc] by auto
    have "safe_or (user_ok e msg (unat sz)) (\<lambda>(y, s'). (case x of Block \<Rightarrow> y = Block | Ret (n, bs) \<Rightarrow> y = Ret n) \<and>
        obj_step s res (if x = Block then 0 else - 1) False s') (sys_deliver e s res msg (recv_bytes q' sz) (KMsgq q') x)"
      by (rule sys_deliver_step [OF q])
        (use x(2) pos in \<open>auto simp: msgq_recv_result_def recv_bytes_def min_size_def split: outcome.splits\<close>)
    then show ?thesis using op [of res] ok x(1) q Receiver b
      by (cases x) (fastforce dest: safe_orD(1))+
  next
    case (Closer h en)
    have h: "handles s h = Some en" using w Closer by simp
    obtain obj where o: "s_heap s (v_resource en) = Some obj" using sys_invD(3) [OF D(1) h] by blast
    have cl: "obj_closing obj" "closers (v_resource en) ws = 1"
      using N(2) [of "v_resource en"] D(5) [OF o] Closer by (auto split: if_splits)
    obtain x s' where x: "sys_close_entry b s h en = Some (x, s')" "call_step b s FL_SYS_CLOSE h x s'" "x = Block \<or> x = Ret 0"
      using destroy_step [OF D(1) h, of b] by blast
    from x(2) have "run_inv b (s', case x of Block \<Rightarrow> ws | Ret n \<Rightarrow> drop_nth i ws) \<and> (\<forall>h. handles s h = None \<longrightarrow> handles s' h = None)"
    proof cases
      case (drain en')
      then have "obj_step s (v_resource en) 0 False s'" using h o cl(1) by (auto simp: obj_step_def)
      then show ?thesis using run_inv_obj [OF r, of _ 0 False s' ws] b drain(1) obj_step_handles by simp
    next
      case (close en' obj' v)
      have "run_inv b (s', drop_nth i ws)" unfolding close(2)
        by (rule run_inv_close [OF r close(4,7,8,9)])
          (use D(4) [OF close(5)] close(4,6) h b N cl Closer in \<open>auto split: if_splits\<close>)
      then show ?thesis using close(1,2,9) by simp
    qed (use x(3) in auto)
    then show ?thesis using x(1) Closer by auto
  qed
qed

lemma sys_event_run:
  assumes "run_inv b (s, ws)" and "event_ok ev (s, ws)"
  shows "\<exists>x s' ws'. sys_step b ev (s, ws) = Some (x, s', ws') \<and> run_inv b (s', ws') \<and>
    (\<forall>h. handles s h = None \<and> \<not> hands_out h ev x \<longrightarrow> handles s' h = None)"
proof (cases ev)
  case (Call e no a0 a1 a2 a3)
  then show ?thesis using sys_call_run [OF assms(1)] assms(2) by blast
next
  case (Wakeup e i rc)
  show ?thesis
  proof (cases "i < length ws")
    case True
    then show ?thesis using sys_resume_run [OF assms(1) True, of e rc] assms(2) Wakeup by auto
  qed (use Wakeup assms(1) in simp)
qed

lemma sys_run_ok:
  assumes "run_inv b (s, ws)" and "events_ok b evs (s, ws)"
  shows "\<exists>rs s' ws'. sys_run b evs (s, ws) = Some (rs, s', ws') \<and> run_inv b (s', ws') \<and>
    (\<forall>h. handles s h = None \<and> list_all2 (\<lambda>ev r. \<not> hands_out h ev r) evs rs \<longrightarrow> handles s' h = None)"
  using assms
proof (induction evs arbitrary: s ws)
  case (Cons ev evs)
  obtain x s1 ws1 where 1: "sys_step b ev (s, ws) = Some (x, s1, ws1)" "run_inv b (s1, ws1)"
      "\<And>h. handles s h = None \<Longrightarrow> \<not> hands_out h ev x \<Longrightarrow> handles s1 h = None"
    using sys_event_run [OF Cons.prems(1), of ev] Cons.prems(2) by auto
  then have "events_ok b evs (s1, ws1)" using Cons.prems(2) by simp
  from Cons.IH [OF 1(2) this] show ?case using 1(1,3) by fastforce
qed simp

lemma run_inv_start: "run_inv b (sys_start m, [])"
  by (rule run_invI [OF sys_start_inv]) (simp_all add: fl_sys_bootstrap_def)

text \<open>The object behind a handle.\<close>

definition sys_obj :: "sys \<Rightarrow> u64 \<Rightarrow> kobj option" where
  "sys_obj s h = (case handles s h of None \<Rightarrow> None | Some e \<Rightarrow> s_heap s (v_resource e))"

lemma call_step_other:
  assumes s: "sys_inv s" and c: "call_step b s no h r s'" and no: "no \<in> handle_ops" and ne: "k \<noteq> h"
  shows "sys_obj s' k = sys_obj s k"
proof -
  have ne': "v_resource e' \<noteq> v_resource en" if "handles s h = Some en" "handles s k = Some e'" for en e'
    using sys_invD(4) [OF s that(2,1)] ne by blast
  have op: "sys_obj s' k = sys_obj s k" if "handles s h = Some en" "obj_step s (v_resource en) d x s'" for en d x
    using that ne' by (auto simp: sys_obj_def obj_step_def split: option.splits)
  from c show ?thesis
  proof cases
    case (close en obj v)
    then show ?thesis using ne ne' by (auto simp: sys_obj_def split: option.splits)
  next
    case (quiet n m)
    then show ?thesis by (cases "handles s k") (simp_all add: sys_obj_def)
  qed (use no op in auto)
qed

section \<open>Memory written by a call\<close>

lemma pipe_read_loop_length:
  "pipe_read_loop dst cnt r p = Some (n, bs, p') \<Longrightarrow> length bs = length dst"
proof (induction dst cnt r p rule: pipe_read_loop.induct)
  case (1 dst cnt r p)
  show ?case
  proof (cases "r < cnt \<and> p_len p > 0")
    case True
    then obtain b dst1 where a: "aget (p_buf p) (int (p_head p)) = Some b" "aset dst (int r) b = Some dst1"
        "pipe_read_loop dst1 cnt (r + 1) (p\<lparr>p_head := (p_head p + 1) mod p_cap p, p_len := p_len p - 1\<rparr>) = Some (n, bs, p')"
      using "1.prems" by (subst (asm) pipe_read_loop.simps) (auto simp: bind_eq_Some_conv)
    then show ?thesis using "1.IH" [OF True a] aset_length [OF a(2)] by simp
  next
    case False
    then show ?thesis using "1.prems" by (subst (asm) pipe_read_loop.simps) auto
  qed
qed

lemma pipe_read_length: "pipe_read b p dst n = Some (Ret (r, bs), p') \<Longrightarrow> length bs = length dst"
  by (cases b) (auto simp: pipe_read_def pipe_read_locked_def bind_eq_Some_conv pipe_read_loop_length split: if_splits)

lemma msgq_receive_length: "msgq_receive b q dst n t = Some (Ret (r, bs), q') \<Longrightarrow> length bs = length dst"
  by (auto simp: msgq_receive_def msgq_take_def bind_eq_Some_conv Let_def bcopy_length split: if_splits)

lemma mem_write_outside: "length bs \<le> unat (x - a) \<Longrightarrow> mem_write m a bs x = m x"
  by (simp add: mem_write_def mem_fill_def)

lemma sys_deliver_mem:
  assumes "sys_deliver e s res buf k obj o' = Some (r, s')" and "\<And>n bs. o' = Ret (n, bs) \<Longrightarrow> length bs \<le> unat (x - buf)"
  shows "s_mem s' x = s_mem s x"
  using assms mem_write_outside [of _ x buf]
  by (cases o') (auto simp: sys_deliver_def Let_def split: if_splits)

lemma sys_pipe_read_mem:
  assumes d: "sys_pipe_read b e s h buf cnt = Some (r, s')" and x: "buf = NULL \<or> unat cnt \<le> unat (x - buf)"
  shows "s_mem s' x = s_mem s x"
proof -
  obtain lk where lk: "sys_lookup s VRT_TYPE_PIPE h = Some lk" using d by (cases "sys_lookup s VRT_TYPE_PIPE h") (simp_all add: sys_pipe_read_def)
  show ?thesis
  proof (cases "lk = None \<or> buf = NULL")
    case True
    then show ?thesis using d lk by (auto simp: sys_pipe_read_def split: option.split_asm kobj.split_asm)
  next
    case False
    then obtain res p where l: "lk = Some (res, KPipe p)" using d lk by (cases lk; cases "snd (the lk)") (auto simp: sys_pipe_read_def)
    obtain o' p' where o: "pipe_read b p (mem_read (s_mem s) buf (unat cnt)) (unat cnt) = Some (o', p')"
        "sys_deliver e s res buf nat (KPipe p') o' = Some (r, s')"
      using d lk l False by (auto simp: sys_pipe_read_def bind_eq_Some_conv)
    show ?thesis using sys_deliver_mem [OF o(2)] o(1) False x pipe_read_length by fastforce
  qed
qed

lemma sys_msgq_recv_mem:
  assumes d: "sys_msgq_recv b e s h buf cnt t = Some (r, s')" and x: "buf = NULL \<or> unat cnt \<le> unat (x - buf)"
  shows "s_mem s' x = s_mem s x"
proof -
  obtain lk where lk: "sys_lookup s VRT_TYPE_MSGQ h = Some lk" using d by (cases "sys_lookup s VRT_TYPE_MSGQ h") (simp_all add: sys_msgq_recv_def)
  show ?thesis
  proof (cases "lk = None \<or> buf = NULL")
    case True
    then show ?thesis using d lk by (auto simp: sys_msgq_recv_def split: option.split_asm kobj.split_asm)
  next
    case False
    then obtain res p where l: "lk = Some (res, KMsgq p)" using d lk by (cases lk; cases "snd (the lk)") (auto simp: sys_msgq_recv_def)
    obtain o' p' where o: "msgq_receive b p (mem_read (s_mem s) buf (unat cnt)) (unat cnt) (unat t) = Some (o', p')"
        "sys_deliver e s res buf (recv_bytes p' cnt) (KMsgq p') o' = Some (r, s')"
      using d lk l False by (auto simp: sys_msgq_recv_def bind_eq_Some_conv)
    show ?thesis using sys_deliver_mem [OF o(2)] o(1) False x msgq_receive_length by fastforce
  qed
qed

lemma sys_close_mem:
  assumes d: "sys_close b s h = Some (r, s')"
  shows "s_mem s' = s_mem s"
proof -
  obtain g where g: "vrt_get (s_vrt s) h = Some g" using d by (auto simp: sys_close_def bind_eq_Some_conv)
  have "s_mem s' = s_mem s" if e: "sys_close_entry b s h en = Some (r, s')" for en
  proof (cases "v_type en = VRT_TYPE_PIPE \<or> v_type en = VRT_TYPE_MSGQ")
    case True
    then obtain obj where "s_heap s (v_resource en) = Some obj" using e by (auto simp: sys_close_entry_def bind_eq_Some_conv Let_def)
    then show ?thesis
      using e True by (cases obj; cases "pipe_destroy b (case obj of KPipe p \<Rightarrow> p)"; cases "msgq_destroy b (case obj of KMsgq q \<Rightarrow> q)";
        cases "fst (pipe_destroy b (case obj of KPipe p \<Rightarrow> p))"; cases "fst (msgq_destroy b (case obj of KMsgq q \<Rightarrow> q))")
        (auto simp: sys_close_entry_def bind_eq_Some_conv Let_def)
  qed (use e in \<open>simp add: sys_close_entry_def Let_def\<close>)
  then show ?thesis using d g by (cases g) (auto simp: sys_close_def)
qed

text \<open>A call writes to the user memory only through the buffer it was given; \<open>read\<close> of the host
  delivers no more bytes than it was asked for.\<close>

lemma sys_dispatch_mem:
  assumes d: "fl_syscall_dispatch b e s no a0 a1 a2 a3 = Some (r, s')"
    and rd: "\<And>n. fst (e_read e n) \<le> int n"
    and x0: "no = FL_SYS_READ \<Longrightarrow> a0 = NULL \<or> unat a1 \<le> unat (x - a0)"
    and x1: "no = FL_SYS_PIPE_READ \<or> no = FL_SYS_MSGQ_RECV \<Longrightarrow> a1 = NULL \<or> unat a2 \<le> unat (x - a1)"
  shows "s_mem s' x = s_mem s x"
proof (cases no)
  case FL_SYS_READ
  obtain n bs where r: "e_read e (unat a1) = (n, bs)" by fastforce
  then have "nat n \<le> unat a1" using rd [of "unat a1"] by (simp only: nat_le_iff fst_conv)
  then have "length (take (nat n) bs) \<le> unat a1" by simp
  then show ?thesis using d x0 r mem_write_outside [of "take (nat n) bs" x a0 "s_mem s"]
    by (auto simp: fl_syscall_dispatch_def FL_SYS_READ Let_def split: if_split_asm)
next
  case FL_SYS_PIPE_READ
  then show ?thesis using d x1 sys_pipe_read_mem by (simp add: fl_syscall_dispatch_def)
next
  case FL_SYS_MSGQ_RECV
  then show ?thesis using d x1 sys_msgq_recv_mem by (simp add: fl_syscall_dispatch_def)
next
  case FL_SYS_PIPE_CREATE
  then show ?thesis using d
    by (auto simp: fl_syscall_dispatch_def sys_pipe_create_def bind_eq_Some_conv Let_def split: option.split_asm if_split_asm outcome.split_asm prod.split_asm)
next
  case FL_SYS_MSGQ_CREATE
  then show ?thesis using d
    by (auto simp: fl_syscall_dispatch_def sys_msgq_create_def bind_eq_Some_conv Let_def split: option.split_asm if_split_asm outcome.split_asm prod.split_asm)
next
  case FL_SYS_PIPE_WRITE
  then have "sys_pipe_write b e s a0 a1 a2 = Some (r, s')" using d by (simp add: fl_syscall_dispatch_def)
  moreover obtain lk where "sys_lookup s VRT_TYPE_PIPE a0 = Some lk" using calculation by (auto simp: sys_pipe_write_def bind_eq_Some_conv)
  ultimately show ?thesis
    by (cases lk; cases "snd (the lk)") (auto simp: sys_pipe_write_def bind_eq_Some_conv split: if_split_asm)
next
  case FL_SYS_MSGQ_SEND
  then have "sys_msgq_send b e s a0 a1 a2 = Some (r, s')" using d by (simp add: fl_syscall_dispatch_def)
  moreover obtain lk where "sys_lookup s VRT_TYPE_MSGQ a0 = Some lk" using calculation by (auto simp: sys_msgq_send_def bind_eq_Some_conv)
  ultimately show ?thesis
    by (cases lk; cases "snd (the lk)") (auto simp: sys_msgq_send_def bind_eq_Some_conv split: if_split_asm)
next
  case FL_SYS_CLOSE
  then show ?thesis using d sys_close_mem by (simp add: fl_syscall_dispatch_def)
qed (use d in \<open>auto simp: fl_syscall_dispatch_def Let_def split: if_split_asm\<close>)

section \<open>Properties\<close>

text \<open>A state with one open pipe, for the applications below.\<close>

definition demo_env :: env where
  "demo_env = \<lparr>e_struct = 4096, e_malloc = (\<lambda>k. Some (replicate k 0)), e_cattr = True,
               e_write = (\<lambda>bs. int (length bs)), e_read = (\<lambda>n. (0, [])), e_user = (\<lambda>a. a < 4096)\<rparr>"

definition demo_pipe :: pipe where
  "demo_pipe = \<lparr>p_buf = replicate 16 0, p_cap = 16, p_head = 0, p_tail = 0, p_len = 0, p_closing = False, p_waiters = 0\<rparr>"

lemma demo_user: "unat a + n \<le> 4096 \<Longrightarrow> user_ok (demo_env\<lparr>e_struct := x\<rparr>) a n"
proof -
  have "a + of_nat i < 4096" if "i < n" "unat a + n \<le> 4096" for i
  proof -
    have i: "unat (of_nat i :: u64) = i" using that by (simp add: unat_of_nat)
    then have "unat (a + of_nat i) = unat a + i" using that by (subst unat_add_lem [THEN iffD1]) (auto simp: i)
    then show ?thesis using that by (simp add: word_less_nat_alt)
  qed
  then show "unat a + n \<le> 4096 \<Longrightarrow> user_ok (demo_env\<lparr>e_struct := x\<rparr>) a n" by (simp add: user_ok_def demo_env_def)
qed

definition demo_entry :: "ptr \<Rightarrow> vrt_entry" where
  "demo_entry r = zero_entry\<lparr>v_type := VRT_TYPE_PIPE, v_resource := r, v_size := 16,
                             v_path := strncpy_path (v_path zero_entry) ''pipe''\<rparr>"

lemma demo_create:
  assumes v: "s_table (s_vrt s) = replicate 256 zero_entry" "s_inited (s_vrt s)" and r: "r \<noteq> NULL"
  shows "fl_syscall_dispatch b (demo_env\<lparr>e_struct := r\<rparr>) s FL_SYS_PIPE_CREATE 16 0 0 0
      = Some (Ret 0, s\<lparr>s_heap := (s_heap s)(r \<mapsto> KPipe demo_pipe),
                       s_vrt := (s_vrt s)\<lparr>s_table := (replicate 256 zero_entry)[0 := demo_entry r]\<rparr>\<rparr>)"
proof -
  have sc: "vrt_scan (replicate 256 zero_entry) 0 = Some (Some 0)"
    by (subst vrt_scan.simps) (simp add: aget_def zero_entry_def)
  have a: "vrt_alloc (s_vrt s) VRT_TYPE_PIPE r (Some ''pipe'') 16
      = Some (0, (s_vrt s)\<lparr>s_table := (replicate 256 zero_entry)[0 := demo_entry r]\<rparr>)"
    using sc r by (simp add: vrt_alloc_def v aget_def aset_def demo_entry_def)
  have c: "pipe_create (\<lambda>k. Some (replicate k 0)) True 16 = Some demo_pipe"
    by (simp add: pipe_create_def demo_pipe_def)
  show ?thesis using a c r by (simp add: fl_syscall_dispatch_def sys_pipe_create_def demo_env_def)
qed

lemma demo_create2:
  assumes v: "s_table (s_vrt s) = (replicate 256 zero_entry)[0 := demo_entry r0]" "s_inited (s_vrt s)" and r: "r \<noteq> NULL" "r0 \<noteq> NULL"
  shows "fl_syscall_dispatch b (demo_env\<lparr>e_struct := r\<rparr>) s FL_SYS_PIPE_CREATE 16 0 0 0
      = Some (Ret 1, s\<lparr>s_heap := (s_heap s)(r \<mapsto> KPipe demo_pipe),
                       s_vrt := (s_vrt s)\<lparr>s_table := ((replicate 256 zero_entry)[0 := demo_entry r0])[1 := demo_entry r]\<rparr>\<rparr>)"
proof -
  have "vrt_scan ((replicate 256 zero_entry)[0 := demo_entry r0]) 1 = Some (Some 1)"
    by (subst vrt_scan.simps) (simp add: aget_def zero_entry_def)
  then have sc: "vrt_scan ((replicate 256 zero_entry)[0 := demo_entry r0]) 0 = Some (Some 1)"
    by (subst vrt_scan.simps) (use r(2) in \<open>simp add: aget_def demo_entry_def\<close>)
  have a: "vrt_alloc (s_vrt s) VRT_TYPE_PIPE r (Some ''pipe'') 16
      = Some (1, (s_vrt s)\<lparr>s_table := ((replicate 256 zero_entry)[0 := demo_entry r0])[1 := demo_entry r]\<rparr>)"
    using sc r by (simp add: vrt_alloc_def v aget_def aset_def demo_entry_def [of r])
  have c: "pipe_create (\<lambda>k. Some (replicate k 0)) True 16 = Some demo_pipe"
    by (simp add: pipe_create_def demo_pipe_def)
  show ?thesis using a c r by (simp add: fl_syscall_dispatch_def sys_pipe_create_def demo_env_def)
qed

lemma demo_state:
  "\<exists>s. fl_syscall_dispatch b demo_env (sys_start m) FL_SYS_PIPE_CREATE 16 0 0 0 = Some (Ret 0, s) \<and>
     sys_inv s \<and> run_inv b (s, []) \<and> sys_obj s 0 = Some (KPipe demo_pipe) \<and> s_inited (s_vrt s) \<and>
     s_table (s_vrt s) = (replicate 256 zero_entry)[0 := demo_entry 4096] \<and> s_heap s = [4096 \<mapsto> KPipe demo_pipe] \<and>
     event_ok (Call demo_env FL_SYS_PIPE_CREATE 16 0 0 0) (sys_start m, [])"
proof -
  have e: "event_ok (Call demo_env FL_SYS_PIPE_CREATE 16 0 0 0) (sys_start m, [])"
    by (simp add: env_ok_def demo_env_def fl_sys_bootstrap_def call_ok_def buf_ok_def)
  have d: "demo_env\<lparr>e_struct := 4096\<rparr> = demo_env" by (simp add: demo_env_def)
  have v: "s_table (s_vrt (sys_start m)) = replicate 256 zero_entry" "s_inited (s_vrt (sys_start m))"
    by (simp_all add: fl_sys_bootstrap_def vrt_init_def vrt_static_def)
  obtain s where s: "fl_syscall_dispatch b demo_env (sys_start m) FL_SYS_PIPE_CREATE 16 0 0 0 = Some (Ret 0, s)"
      "s_table (s_vrt s) = (replicate 256 zero_entry)[0 := demo_entry 4096]" "s_heap s = [4096 \<mapsto> KPipe demo_pipe]"
      "s_inited (s_vrt s)"
    using demo_create [OF v, of 4096 b, unfolded d] v(2) by (simp add: fl_sys_bootstrap_def)
  have "run_inv b (s, [])" using sys_event_run [OF run_inv_start e, of b] s(1) by auto
  moreover have "sys_obj s 0 = Some (KPipe demo_pipe)" using s(2,3) by (simp add: sys_obj_def vrt_map_def demo_entry_def)
  ultimately show ?thesis using s e run_invD(1) by blast
qed



text \<open>C13: Isolation of handles: an operation on one handle (read, write, send, receive, close)
  leaves the object behind every other handle as it was.\<close>

theorem sys_isolation:
  assumes "sys_inv s" and "no \<in> {FL_SYS_PIPE_READ, FL_SYS_PIPE_WRITE, FL_SYS_MSGQ_SEND, FL_SYS_MSGQ_RECV, FL_SYS_CLOSE}"
    and "k \<noteq> h" and "fl_syscall_dispatch b e s no h a1 a2 a3 = Some (r, s')"
  shows "sys_obj s' k = sys_obj s k"
  using call_step_other [OF assms(1) _ assms(2,3)] safe_orD(2) [OF sys_op_step [OF assms(1,2)] assms(4)] by blast

theorem sys_isolation_witness:
  "\<exists>s s1 r s2. fl_syscall_dispatch Kernel demo_env (sys_start (\<lambda>_. 0)) FL_SYS_PIPE_CREATE 16 0 0 0 = Some (Ret 0, s) \<and>
     fl_syscall_dispatch Kernel (demo_env\<lparr>e_struct := 8192\<rparr>) s FL_SYS_PIPE_CREATE 16 0 0 0 = Some (Ret 1, s1) \<and>
     fl_syscall_dispatch Kernel demo_env s1 FL_SYS_CLOSE 1 0 0 0 = Some (r, s2) \<and>
     sys_obj s1 1 = Some (KPipe demo_pipe) \<and> sys_obj s2 0 = Some (KPipe demo_pipe)"
proof -
  obtain s where s: "fl_syscall_dispatch Kernel demo_env (sys_start (\<lambda>_. 0)) FL_SYS_PIPE_CREATE 16 0 0 0 = Some (Ret 0, s)"
      "sys_inv s" "s_inited (s_vrt s)" "s_table (s_vrt s) = (replicate 256 zero_entry)[0 := demo_entry 4096]"
      "s_heap s = [4096 \<mapsto> KPipe demo_pipe]"
    using demo_state [of Kernel "\<lambda>_. 0"] by blast
  let ?e = "demo_env\<lparr>e_struct := 8192\<rparr>"
  obtain s1 where s1: "fl_syscall_dispatch Kernel ?e s FL_SYS_PIPE_CREATE 16 0 0 0 = Some (Ret 1, s1)"
      "sys_obj s1 0 = Some (KPipe demo_pipe)" "sys_obj s1 1 = Some (KPipe demo_pipe)"
    using demo_create2 [OF s(4,3), of 8192 Kernel] s(5) by (auto simp: sys_obj_def vrt_map_def demo_entry_def)
  have "env_ok ?e s" using s(5) by (simp add: env_ok_def demo_env_def)
  then have i1: "sys_inv s1"
    using sys_dispatch_inv [OF s(2), of ?e FL_SYS_PIPE_CREATE 16 0 0 Kernel 0] s1(1) by (auto simp: call_ok_def buf_ok_def)
  obtain r s2 where d: "fl_syscall_dispatch Kernel demo_env s1 FL_SYS_CLOSE 1 0 0 0 = Some (r, s2)"
    using sys_close_step [OF i1, of Kernel 1] by (auto simp: fl_syscall_dispatch_def)
  show ?thesis using sys_isolation [OF i1 _ _ d, of 0] s(1) s1 d by auto
qed

text \<open>C14: A closed handle is dead: once \<open>FL_SYS_CLOSE\<close> of a handle, which no other close is waiting for, has
  returned \<open>0\<close>, the object it led to is no longer in the heap, and after any further run of
  calls and wake-ups in which no create call returned the number of the handle, every
  operation on it, a second close included, returns \<open>-1\<close> and changes nothing.\<close>

theorem sys_closed_handle:
  assumes "run_inv b (s, ws)" and "\<not> closing_handle s h"
    and "fl_syscall_dispatch b e s FL_SYS_CLOSE h a1 a2 a3 = Some (Ret 0, s')"
    and "events_ok b evs (s', ws)" and "sys_run b evs (s', ws) = Some (rs, s'', ws'')"
    and "list_all2 (\<lambda>ev r. \<not> hands_out h ev r) evs rs"
    and "no \<in> {FL_SYS_PIPE_READ, FL_SYS_PIPE_WRITE, FL_SYS_MSGQ_SEND, FL_SYS_MSGQ_RECV, FL_SYS_CLOSE}"
  shows "(\<exists>en. vrt_get (s_vrt s) h = Some (Some en) \<and> s_heap s (v_resource en) \<noteq> None \<and> s_heap s' (v_resource en) = None) \<and>
    fl_syscall_dispatch b e' s'' no h b1 b2 b3 = Some (Ret (- 1), s'')"
proof -
  have s: "sys_inv s" by (rule run_invD(1) [OF assms(1)])
  let ?en = "e\<lparr>e_struct := NULL, e_malloc := \<lambda>_. None\<rparr>"
  have ok: "event_ok (Call ?en FL_SYS_CLOSE h a1 a2 a3) (s, ws)" using assms(2) by (simp add: env_ok_def call_ok_def buf_ok_def)
  have cl: "fl_syscall_dispatch b ?en s FL_SYS_CLOSE h a1 a2 a3 = Some (Ret 0, s')" using assms(3) by (simp add: fl_syscall_dispatch_def)
  then have r': "run_inv b (s', ws)" using sys_call_run [OF assms(1) ok] by auto
  have "call_step b s FL_SYS_CLOSE h (Ret 0) s'" using safe_orD(2) [OF sys_op_step [OF s] assms(3)] by simp
  then obtain en v obj where en: "handles s h = Some en" "s_heap s (v_resource en) = Some obj" "vrt_map v = (handles s)(h := None)"
      "s' = s\<lparr>s_vrt := v, s_heap := (s_heap s)(v_resource en := None)\<rparr>"
    by (cases rule: call_step.cases) auto
  have "handles s' h = None" using en by simp
  then have d: "run_inv b (s'', ws'')" "handles s'' h = None" using sys_run_ok [OF r' assms(4)] assms(5,6) by auto
  then have "vrt_get (s_vrt s'') h = Some None" using vrt_get_map [OF sys_invD(1) [OF run_invD(1) [OF d(1)]]] by simp
  then have "fl_syscall_dispatch b e' s'' no h b1 b2 b3 = Some (Ret (- 1), s'')"
    using assms(7) by (auto simp: fl_syscall_dispatch_def sys_pipe_read_def sys_pipe_write_def sys_msgq_send_def
        sys_msgq_recv_def sys_close_def sys_lookup_def)
  then show ?thesis using en vrt_get_map [OF sys_invD(1) [OF s], of h] by simp
qed

theorem sys_closed_handle_witness:
  "\<exists>s s' rs s'' ws''. fl_syscall_dispatch Kernel demo_env (sys_start (\<lambda>_. 0)) FL_SYS_PIPE_CREATE 16 0 0 0 = Some (Ret 0, s) \<and>
     fl_syscall_dispatch Kernel demo_env s FL_SYS_CLOSE 0 0 0 0 = Some (Ret 0, s') \<and>
     sys_run Kernel [Call (demo_env\<lparr>e_struct := NULL\<rparr>) FL_SYS_PIPE_CREATE 16 0 0 0] (s', []) = Some (rs, s'', ws'') \<and>
     fl_syscall_dispatch Kernel demo_env s'' FL_SYS_CLOSE 0 0 0 0 = Some (Ret (- 1), s'')"
proof -
  obtain s where s: "fl_syscall_dispatch Kernel demo_env (sys_start (\<lambda>_. 0)) FL_SYS_PIPE_CREATE 16 0 0 0 = Some (Ret 0, s)"
      "run_inv Kernel (s, [])" "sys_obj s 0 = Some (KPipe demo_pipe)" "sys_inv s"
    using demo_state [of Kernel "\<lambda>_. 0"] by blast
  obtain en where en: "handles s 0 = Some en" "s_heap s (v_resource en) = Some (KPipe demo_pipe)"
    using s(3) by (auto simp: sys_obj_def split: option.splits)
  have t: "v_type en = VRT_TYPE_PIPE" using handle_type [OF s(4) en] by simp
  obtain v where "vrt_free (s_vrt s) 0 = Some v" using vrt_free_map [OF sys_invD(1) [OF s(4)], of 0] by blast
  then obtain s' where d: "fl_syscall_dispatch Kernel demo_env s FL_SYS_CLOSE 0 0 0 0 = Some (Ret 0, s')"
    using vrt_get_map [OF sys_invD(1) [OF s(4)], of 0] en t
    by (auto simp: fl_syscall_dispatch_def sys_close_def sys_close_entry_def pipe_destroy_def)
  have nc: "\<not> closing_handle s 0" using en by (auto simp: closing_handle_def demo_pipe_def)
  let ?e = "demo_env\<lparr>e_struct := NULL\<rparr>"
  have ok: "events_ok Kernel [Call ?e FL_SYS_PIPE_CREATE 16 0 0 0] (s', [])"
    by (auto simp: env_ok_def call_ok_def buf_ok_def demo_env_def split: option.splits)
  have r: "sys_run Kernel [Call ?e FL_SYS_PIPE_CREATE 16 0 0 0] (s', []) = Some ([Ret (- 1)], s', [])"
    by (simp add: fl_syscall_dispatch_def sys_pipe_create_def pipe_create_def)
  show ?thesis using sys_closed_handle [OF s(2) nc d ok r, of FL_SYS_CLOSE demo_env 0 0 0] s(1) d r by auto
qed

text \<open>C15: A pipe carries user data through the system calls: after writing \<open>n\<close> bytes from one
  buffer to an empty pipe with room for them and reading \<open>n\<close> bytes into a second buffer, both
  calls report \<open>n\<close> and the second buffer holds the bytes of the first, when both buffers lie in
  the caller's memory.\<close>

theorem sys_pipe_roundtrip:
  assumes "sys_inv s" and "sys_obj s h = Some (KPipe p)" and "p_len p = 0" and "\<not> p_closing p"
    and "0 < n" and "unat n \<le> p_cap p" and "src \<noteq> NULL" and "dst \<noteq> NULL"
    and "user_ok e src (unat n)" and "user_ok e dst (unat n)"
  shows "\<exists>s1 s2. fl_syscall_dispatch b e s FL_SYS_PIPE_WRITE h src n 0 = Some (Ret (int (unat n)), s1) \<and>
     fl_syscall_dispatch b e s1 FL_SYS_PIPE_READ h dst n 0 = Some (Ret (int (unat n)), s2) \<and>
     mem_read (s_mem s2) dst (unat n) = mem_read (s_mem s) src (unat n)"
proof -
  obtain en where en: "handles s h = Some en" "s_heap s (v_resource en) = Some (KPipe p)"
    using assms(2) by (auto simp: sys_obj_def split: option.splits)
  have p: "pipe_inv p" and t: "v_type en = VRT_TYPE_PIPE" and g: "vrt_get (s_vrt s) h = Some (Some en)"
    using sys_invD(3) [OF assms(1) en(1)] en vrt_get_map [OF sys_invD(1) [OF assms(1)]] by auto
  have nz: "v_resource en \<noteq> NULL" using en(1) by (rule handle_resource)
  have n: "0 < unat n" using assms(5) by (simp add: word_greater_zero_iff unat_gt_0)
  let ?bs = "mem_read (s_mem s) src (unat n)"
  obtain p1 where p1: "pipe_write b p ?bs (unat n) = Some (int (unat n), p1)" "pipe_inv p1" "pipe_bytes p1 = ?bs"
    using pipe_write_spec [OF p, of "unat n" ?bs b] n assms(3,4,6) by (auto simp: pipe_bytes_def min_def)
  let ?s1 = "s\<lparr>s_heap := (s_heap s)(v_resource en \<mapsto> KPipe p1)\<rparr>"
  have l1: "p_len p1 = unat n" using p1(3) length_pipe_bytes [of p1] by simp
  let ?ds = "mem_read (s_mem s) dst (unat n)"
  obtain p2 where p2: "pipe_read b p1 ?ds (unat n) = Some (Ret (int (unat n), ?bs), p2)"
    using pipe_read_spec [OF p1(2), of "unat n" ?ds b] n l1 p1(3) by (auto simp: min_def)
  have "fl_syscall_dispatch b e s FL_SYS_PIPE_WRITE h src n 0 = Some (Ret (int (unat n)), ?s1)"
    using g t nz en(2) assms(7,9) p1(1) by (simp add: fl_syscall_dispatch_def sys_pipe_write_def sys_lookup_def)
  moreover have "fl_syscall_dispatch b e ?s1 FL_SYS_PIPE_READ h dst n 0
      = Some (Ret (int (unat n)), ?s1\<lparr>s_heap := (s_heap ?s1)(v_resource en \<mapsto> KPipe p2), s_mem := mem_write (s_mem s) dst ?bs\<rparr>)"
    using g t nz assms(8,10) p2 by (simp add: fl_syscall_dispatch_def sys_pipe_read_def sys_lookup_def sys_deliver_def)
  moreover have "mem_read (mem_write (s_mem s) dst ?bs) dst (unat n) = ?bs"
    using mem_read_write [of ?bs "s_mem s" dst] unsigned_less [of n] by simp
  ultimately show ?thesis by (intro exI conjI) (assumption, assumption, simp)
qed

theorem sys_pipe_roundtrip_witness:
  "\<exists>s s1 s2. fl_syscall_dispatch Kernel demo_env (sys_start (\<lambda>x. ucast x)) FL_SYS_PIPE_CREATE 16 0 0 0 = Some (Ret 0, s) \<and>
     fl_syscall_dispatch Kernel demo_env s FL_SYS_PIPE_WRITE 0 32 3 0 = Some (Ret 3, s1) \<and>
     fl_syscall_dispatch Kernel demo_env s1 FL_SYS_PIPE_READ 0 64 3 0 = Some (Ret 3, s2) \<and>
     mem_read (s_mem s2) 64 3 = mem_read (s_mem s) 32 3"
proof -
  obtain s where s: "fl_syscall_dispatch Kernel demo_env (sys_start (\<lambda>x. ucast x)) FL_SYS_PIPE_CREATE 16 0 0 0 = Some (Ret 0, s)"
      "sys_inv s" "sys_obj s 0 = Some (KPipe demo_pipe)"
    using demo_state [of Kernel "\<lambda>x. ucast x"] by blast
  have u: "user_ok demo_env 32 3" "user_ok demo_env 64 3"
    using demo_user [of 32 3 4096] demo_user [of 64 3 4096] by (simp_all add: demo_env_def)
  show ?thesis
    using sys_pipe_roundtrip [OF s(2,3), of 3 32 64 demo_env Kernel] s(1) u by (auto simp: demo_pipe_def)
qed

text \<open>C20: Shutting the system down releases no object: \<open>fl_sys_shutdown\<close> clears the table, so
  every pipe and message queue that was open stays allocated without any handle to it.\<close>

theorem sys_shutdown_leaks:
  assumes "sys_obj s h = Some obj"
  shows "(\<exists>r. s_heap (fl_sys_shutdown s) r = Some obj) \<and> (\<forall>k. sys_obj (fl_sys_shutdown s) k = None)"
proof -
  have "handles (fl_sys_shutdown s) k = None" for k
    using unat_handle [of k] by (simp add: vrt_map_def fl_sys_shutdown_def vrt_shutdown_def zero_entry_def)
  moreover obtain r where "s_heap s r = Some obj" using assms by (auto simp: sys_obj_def split: option.splits)
  ultimately show ?thesis by (auto simp: sys_obj_def fl_sys_shutdown_def)
qed

theorem sys_shutdown_leaks_witness:
  "\<exists>s r. fl_syscall_dispatch Kernel demo_env (sys_start (\<lambda>_. 0)) FL_SYS_PIPE_CREATE 16 0 0 0 = Some (Ret 0, s) \<and>
     s_heap (fl_sys_shutdown s) r = Some (KPipe demo_pipe) \<and> sys_obj (fl_sys_shutdown s) 0 = None"
proof -
  obtain s where s: "fl_syscall_dispatch Kernel demo_env (sys_start (\<lambda>_. 0)) FL_SYS_PIPE_CREATE 16 0 0 0 = Some (Ret 0, s)"
      "sys_inv s" "sys_obj s 0 = Some (KPipe demo_pipe)"
    using demo_state [of Kernel "\<lambda>_. 0"] by blast
  show ?thesis using sys_shutdown_leaks [OF s(3)] s(1) by blast
qed

end
