(* ===== verification/VM_IO.thy ===== *)
theory VM_IO
  imports VM_Host Sys_Call
begin

text \<open>
  The I/O ports of the VM, \<open>VM/devices/vm_io.c\<close>: virtual IDE disk, keyboard, timer, PIC, PCI
  configuration space, serial line, reset line and the bridge from the guest to the system
  calls of \<open>Sys_Call\<close>. The static variables of the file are the record \<open>vm_io\<close>; \<open>vm\<close> is the
  whole machine with the host memory (inside \<open>v_sys\<close>) in which the guest RAM lies.
\<close>

section \<open>State\<close>

abbreviation PCI_CFG_ADDR :: u32 where "PCI_CFG_ADDR \<equiv> 0xCF8"
abbreviation PCI_CFG_DATA :: u32 where "PCI_CFG_DATA \<equiv> 0xCFC"
abbreviation PCI_CFG_RESET :: u32 where "PCI_CFG_RESET \<equiv> 0xCF9"
abbreviation VM_PCI_DEV_MAX :: nat where "VM_PCI_DEV_MAX \<equiv> 4"
abbreviation PCI_CFG_SIZE :: nat where "PCI_CFG_SIZE \<equiv> 256"
abbreviation VM_SYS_PORT_NO :: u32 where "VM_SYS_PORT_NO \<equiv> 0xE0"
abbreviation VM_SYS_PORT_ARG0 :: u32 where "VM_SYS_PORT_ARG0 \<equiv> 0xE1"
abbreviation VM_SYS_PORT_ARG3 :: u32 where "VM_SYS_PORT_ARG3 \<equiv> 0xE4"
abbreviation VM_SYS_PORT_CALL :: u32 where "VM_SYS_PORT_CALL \<equiv> 0xE5"
abbreviation VM_SYS_PORT_RET :: u32 where "VM_SYS_PORT_RET \<equiv> 0xE6"
abbreviation VM_SYS_PORT_ARG0_HI :: u32 where "VM_SYS_PORT_ARG0_HI \<equiv> 0xE7"
abbreviation VM_SYS_PORT_ARG3_HI :: u32 where "VM_SYS_PORT_ARG3_HI \<equiv> 0xEA"
abbreviation VM_SYS_PORT_RET_HI :: u32 where "VM_SYS_PORT_RET_HI \<equiv> 0xEB"

record vm_io =
  io_serial_out :: bool
  io_sector_buf :: "u8 list"
  io_ide_lba :: u32
  io_ide_byte_idx :: nat
  io_pit_mode :: u8
  io_host :: bool
  io_pci_addr :: u32
  io_reset_requested :: bool
  io_pci_cfg :: "u8 list option"
  io_sys_no :: u64
  io_sys_args :: "u64 list"
  io_sys_ret :: u64
  io_inited :: bool

text \<open>Calls that leave the VM for a driver of the kernel.\<close>

datatype drv_call = BlockWrite u32 "u8 list" | PicEoi int | RefreshVga "u8 list"

record vm =
  v_host :: vm_host
  v_io :: vm_io
  v_disk :: vm_disk
  v_snap :: vm_snap
  v_fs :: fstore
  v_sys :: sys
  v_out :: "u8 list"
  v_calls :: "drv_call list"

abbreviation v_mem :: "vm \<Rightarrow> memory" where
  "v_mem v \<equiv> s_mem (v_sys v)"

definition set_mem :: "memory \<Rightarrow> vm \<Rightarrow> vm" where
  "set_mem m v = v\<lparr>v_sys := (v_sys v)\<lparr>s_mem := m\<rparr>\<rparr>"

definition set_io :: "(vm_io \<Rightarrow> vm_io) \<Rightarrow> vm \<Rightarrow> vm" where
  "set_io f v = v\<lparr>v_io := f (v_io v)\<rparr>"

text \<open>
  What an access takes from the kernel's drivers and the system: a block driver that can read
  (with the sector it returns, or its error), a block and a PIC driver that take calls, the
  scan code of the keyboard driver if it has one, the ticks of the timer driver, and the
  environment of a system call.
\<close>

record drv_env =
  x_block_read :: "(u32 \<Rightarrow> u8 list option) option"
  x_block_write :: bool
  x_pic_eoi :: bool
  x_kbd :: "u8 option"
  x_timer :: "u64 option"
  x_build :: build
  x_sys :: env

section \<open>Port widths\<close>

definition low32 :: "u64 \<Rightarrow> u32" where
  "low32 value' = ucast (value' AND 0xFFFFFFFF)"

definition high32 :: "u64 \<Rightarrow> u32" where
  "high32 value' = ucast (drop_bit 32 value')"

definition read_port_width :: "u32 \<Rightarrow> nat \<Rightarrow> u32" where
  "read_port_width value' sz = (if sz = 1 then value' AND 0xFF else if sz = 2 then value' AND 0xFFFF else value')"

definition merge_port_width :: "u32 \<Rightarrow> u32 \<Rightarrow> nat \<Rightarrow> u32" where
  "merge_port_width old value' sz =
     (let mask' = (if sz = 1 then 0xFF else if sz = 2 then 0xFFFF else 0xFFFFFFFF)
      in (old AND NOT mask') OR (value' AND mask'))"

definition write_port_width :: "u64 \<Rightarrow> u32 \<Rightarrow> nat \<Rightarrow> u64" where
  "write_port_width slot value' sz =
     (let low = merge_port_width (low32 slot) value' sz
      in push_bit 32 (ucast (high32 slot)) OR ucast low)"

definition write_port_high_width :: "u64 \<Rightarrow> u32 \<Rightarrow> nat \<Rightarrow> u64" where
  "write_port_high_width slot value' sz =
     (let hi = merge_port_width (high32 slot) value' sz; low = ucast (low32 slot) :: u64
      in low OR push_bit 32 (ucast hi))"

section \<open>System call bridge\<close>

definition vm_sys_arg_to_host_ptr :: "vm_mem \<Rightarrow> u64 \<Rightarrow> u64 \<Rightarrow> u64" where
  "vm_sys_arg_to_host_ptr mm arg len =
     (if m_ram mm = NULL \<or> len = 0 then 0
      else if arg \<ge> m_size mm then 0
      else if len > m_size mm - arg then 0
      else m_ram mm + arg)"

text \<open>The cast to the enumeration keeps the low 32 bits.\<close>

definition syscall_no :: "u64 \<Rightarrow> fl_syscall_no" where
  "syscall_no w =
     (let n = uint (ucast w :: u32)
      in if n = 1 then FL_SYS_WRITE else if n = 2 then FL_SYS_READ else if n = 3 then FL_SYS_PIPE_CREATE
         else if n = 4 then FL_SYS_PIPE_READ else if n = 5 then FL_SYS_PIPE_WRITE else if n = 6 then FL_SYS_MSGQ_CREATE
         else if n = 7 then FL_SYS_MSGQ_SEND else if n = 8 then FL_SYS_MSGQ_RECV else if n = 9 then FL_SYS_CLOSE
         else FL_SYS_OTHER n)"

definition vm_translate_sys_args :: "vm_mem \<Rightarrow> fl_syscall_no \<Rightarrow> u64 list \<Rightarrow> u64 list option" where
  "vm_translate_sys_args mm no args =
     (if no = FL_SYS_WRITE \<or> no = FL_SYS_READ then do {
        a0 \<leftarrow> aget args 0; a1 \<leftarrow> aget args 1;
        aset args 0 (vm_sys_arg_to_host_ptr mm a0 a1)
      }
      else if no = FL_SYS_PIPE_READ \<or> no = FL_SYS_PIPE_WRITE \<or> no = FL_SYS_MSGQ_SEND \<or> no = FL_SYS_MSGQ_RECV then do {
        a1 \<leftarrow> aget args 1; a2 \<leftarrow> aget args 2;
        aset args 1 (vm_sys_arg_to_host_ptr mm a1 a2)
      }
      else Some args)"

text \<open>Bytes outside the guest RAM. The memory the guest, as the caller of the bridge, may name is
  its RAM: a system call that reads or writes a byte of the host elsewhere is undefined.\<close>

definition outside_ram :: "vm_mem \<Rightarrow> u64 \<Rightarrow> bool" where
  "outside_ram mm y \<longleftrightarrow> unat (m_size mm) \<le> unat (y - m_ram mm)"

definition guest_env :: "vm_mem \<Rightarrow> env \<Rightarrow> env" where
  "guest_env mm e = e\<lparr>e_user := (\<lambda>y. \<not> outside_ram mm y)\<rparr>"

definition vm_sys_call :: "drv_env \<Rightarrow> vm \<Rightarrow> vm outcome option" where
  "vm_sys_call x v = do {
     let no = syscall_no (io_sys_no (v_io v));
     args \<leftarrow> vm_translate_sys_args (h_mem (v_host v)) no (io_sys_args (v_io v));
     a0 \<leftarrow> aget args 0; a1 \<leftarrow> aget args 1; a2 \<leftarrow> aget args 2; a3 \<leftarrow> aget args 3;
     (r, s) \<leftarrow> fl_syscall_dispatch (x_build x) (guest_env (h_mem (v_host v)) (x_sys x)) (v_sys v) no a0 a1 a2 a3;
     case r of
       Block \<Rightarrow> Some Block
     | Ret ret \<Rightarrow> Some (Ret (v\<lparr>v_sys := s, v_io := (v_io v)\<lparr>io_sys_ret := of_int ret\<rparr>\<rparr>))
   }"

section \<open>PCI configuration space\<close>

text \<open>The bytes \<open>vm_pci_init_cfg\<close> stores into the zeroed block, as (device, offset, value).\<close>

definition pci_cfg_init :: "(nat \<times> nat \<times> u8) list" where
  "pci_cfg_init =
     [(0, 0, 0x34), (0, 1, 0x12), (0, 2, 0x01), (0, 3, 0x00), (0, 9, 0x00), (0, 10, 0x06), (0, 11, 0x00),
      (1, 0, 0x34), (1, 1, 0x12), (1, 2, 0x11), (1, 3, 0x11), (1, 9, 0x01), (1, 10, 0x01), (1, 11, 0x00),
      (2, 0, 0x34), (2, 1, 0x12), (2, 2, 0x22), (2, 3, 0x22), (2, 9, 0x00), (2, 10, 0x03), (2, 11, 0x00),
      (3, 0, 0x34), (3, 1, 0x12), (3, 2, 0x33), (3, 3, 0x33), (3, 9, 0x03), (3, 10, 0x0C), (3, 11, 0x00)]"

text \<open>\<open>alloc\<close>: the block could be allocated.\<close>

definition vm_pci_init_cfg :: "bool \<Rightarrow> u8 list option" where
  "vm_pci_init_cfg alloc =
     (if \<not> alloc then None
      else Some (fold (\<lambda>(dev, off, b) cfg. cfg[dev * PCI_CFG_SIZE + off := b]) pci_cfg_init
                   (replicate (VM_PCI_DEV_MAX * PCI_CFG_SIZE) 0)))"

definition pci_select :: "u32 \<Rightarrow> nat \<times> nat \<times> nat" where
  "pci_select a = (unat (drop_bit 16 a AND 0xFF), unat (drop_bit 11 a AND 0x1F), unat (drop_bit 2 a AND 0x3F))"

definition vm_io_in_pci :: "vm_io \<Rightarrow> u32 \<Rightarrow> u32 option" where
  "vm_io_in_pci io port =
     (if port \<noteq> PCI_CFG_DATA then Some 0xFFFFFFFF
      else if io_pci_addr io AND 0x80000000 = 0 then Some 0xFFFFFFFF
      else
        let (bus, dev, reg) = pci_select (io_pci_addr io)
        in case io_pci_cfg io of
             None \<Rightarrow> Some 0xFFFFFFFF
           | Some cfg \<Rightarrow>
               if bus \<noteq> 0 \<or> dev \<ge> VM_PCI_DEV_MAX then Some 0xFFFFFFFF
               else if reg * 4 + 4 \<le> PCI_CFG_SIZE then do {
                 bs \<leftarrow> bslice cfg (dev * PCI_CFG_SIZE + reg * 4) 4;
                 Some (le_word bs)
               }
               else Some 0)"

definition vm_io_out_pci :: "vm_io \<Rightarrow> u32 \<Rightarrow> vm_io option" where
  "vm_io_out_pci io value' =
     (let (bus, dev, reg) = pci_select (io_pci_addr io)
      in case io_pci_cfg io of
           None \<Rightarrow> Some io
         | Some cfg \<Rightarrow>
             if bus = 0 \<and> dev < VM_PCI_DEV_MAX \<and> reg * 4 + 4 \<le> PCI_CFG_SIZE then do {
               cfg \<leftarrow> bcopy cfg (dev * PCI_CFG_SIZE + reg * 4) (le_bytes 4 value');
               Some (io\<lparr>io_pci_cfg := Some cfg\<rparr>)
             }
             else Some io)"

section \<open>Initialisation\<close>

definition vm_io_init :: "bool \<Rightarrow> vm \<Rightarrow> vm" where
  "vm_io_init alloc v =
     v\<lparr>v_io := (v_io v)\<lparr>io_host := False, io_reset_requested := False, io_pci_addr := 0,
                        io_sector_buf := replicate SECTOR_SIZE 0, io_pci_cfg := vm_pci_init_cfg alloc,
                        io_ide_lba := 0, io_ide_byte_idx := SECTOR_SIZE, io_serial_out := True, io_sys_no := 0,
                        io_sys_args := replicate 4 0, io_sys_ret := 0, io_inited := True\<rparr>,
       v_sys := fl_sys_bootstrap (v_sys v)\<rparr>"

definition vm_io_shutdown :: "vm \<Rightarrow> vm" where
  "vm_io_shutdown v =
     v\<lparr>v_io := (v_io v)\<lparr>io_host := False, io_pci_cfg := None, io_inited := False\<rparr>,
       v_sys := fl_sys_shutdown (v_sys v)\<rparr>"

definition vm_io_set_host :: "bool \<Rightarrow> vm \<Rightarrow> vm" where
  "vm_io_set_host bound = set_io (\<lambda>io. io\<lparr>io_host := bound\<rparr>)"

definition vm_io_reset_requested :: "vm \<Rightarrow> bool" where
  "vm_io_reset_requested v = io_reset_requested (v_io v)"

definition vm_io_clear_reset :: "vm \<Rightarrow> vm" where
  "vm_io_clear_reset = set_io (\<lambda>io. io\<lparr>io_reset_requested := False\<rparr>)"

definition vm_io_pci_ready :: "vm \<Rightarrow> bool" where
  "vm_io_pci_ready v \<longleftrightarrow> io_pci_cfg (v_io v) \<noteq> None"

definition vm_io_serial_ready :: "vm \<Rightarrow> bool" where
  "vm_io_serial_ready v \<longleftrightarrow> io_serial_out (v_io v)"

definition vm_io_syscall_bridge_ready :: "vm \<Rightarrow> bool" where
  "vm_io_syscall_bridge_ready v \<longleftrightarrow> io_inited (v_io v)"

definition vm_io_host_bound :: "vm \<Rightarrow> bool" where
  "vm_io_host_bound v \<longleftrightarrow> io_host (v_io v)"

definition vm_io_reset_line_ready :: "vm \<Rightarrow> bool" where
  "vm_io_reset_line_ready v \<longleftrightarrow> io_inited (v_io v)"

section \<open>Input\<close>

text \<open>The sector the data port starts to deliver.\<close>

definition ide_fetch :: "drv_env \<Rightarrow> vm \<Rightarrow> vm" where
  "ide_fetch x v =
     (let io = v_io v;
          got = (if vm_disk_is_active (v_disk v) then Some (vm_disk_read_sector (v_disk v) (v_fs v) (io_ide_lba io))
                 else map_option (\<lambda>read. read (io_ide_lba io)) (x_block_read x));
          buf = (case got of
                   None \<Rightarrow> io_sector_buf io
                 | Some None \<Rightarrow> replicate SECTOR_SIZE 0
                 | Some (Some bs) \<Rightarrow> bs)
      in v\<lparr>v_io := io\<lparr>io_sector_buf := buf, io_ide_byte_idx := 0\<rparr>\<rparr>)"

definition vm_io_in_ide :: "drv_env \<Rightarrow> u32 \<Rightarrow> vm \<Rightarrow> (u8 \<times> vm) option" where
  "vm_io_in_ide x port v =
     (let lba = io_ide_lba (v_io v)
      in if port = 0x1f0 then
           let v = (if io_ide_byte_idx (v_io v) \<ge> SECTOR_SIZE then ide_fetch x v else v);
               idx = io_ide_byte_idx (v_io v)
           in do {
             b \<leftarrow> (if idx < SECTOR_SIZE then aget (io_sector_buf (v_io v)) (int idx) else Some 0);
             Some (b, set_io (\<lambda>io. io\<lparr>io_ide_byte_idx := idx + 1\<rparr>) v)
           }
         else if port = 0x1f1 then Some (0, v)
         else if port = 0x1f2 then Some (1, v)
         else if port = 0x1f3 then Some (ucast lba, v)
         else if port = 0x1f4 then Some (ucast (drop_bit 8 lba), v)
         else if port = 0x1f5 then Some (ucast (drop_bit 16 lba), v)
         else if port = 0x1f7 then Some (0x40, v)
         else Some (0xFF, v))"

definition vm_io_in_keyboard :: "drv_env \<Rightarrow> u32 \<Rightarrow> vm \<Rightarrow> (u8 \<times> vm) option" where
  "vm_io_in_keyboard x port v =
     (if port = 0x60 then do {
        (r, host) \<leftarrow> (if io_host (v_io v) then vm_host_kbd_pop (v_host v) else Some (None, v_host v));
        let v = v\<lparr>v_host := host\<rparr>;
        Some (case r of
                Some sc \<Rightarrow> (sc, v)
              | None \<Rightarrow> (case x_kbd x of Some sc \<Rightarrow> (sc, v) | None \<Rightarrow> (0, v)))
      }
      else Some (0, v))"

definition vm_io_in_pit :: "drv_env \<Rightarrow> u32 \<Rightarrow> vm \<Rightarrow> u8" where
  "vm_io_in_pit x port v =
     (if port = 0x40 \<and> io_host (v_io v) then ucast (vm_host_ticks (v_host v) AND 0xFF)
      else case (if port = 0x40 then x_timer x else None) of
             Some t \<Rightarrow> ucast (t AND 0xFF)
           | None \<Rightarrow> if port = 0x43 then io_pit_mode (v_io v) else 0)"

definition vm_io_in_pic :: "u32 \<Rightarrow> u8" where
  "vm_io_in_pic port = (if port = 0x20 \<or> port = 0xA0 then 0 else 0xFF)"

definition vm_io_in :: "drv_env \<Rightarrow> u32 \<Rightarrow> nat \<Rightarrow> vm \<Rightarrow> (u32 \<times> vm) option" where
  "vm_io_in x port sz v =
     (let width = (\<lambda>w :: u32. if sz = 1 then w AND 0xFF else if sz = 2 then w AND 0xFFFF else w AND 0xFFFFFFFF)
      in if 0x1f0 \<le> port \<and> port \<le> 0x1f7 then do { (b, v) \<leftarrow> vm_io_in_ide x port v; Some (width (ucast b), v) }
         else if port = 0x60 \<or> port = 0x64 then do { (b, v) \<leftarrow> vm_io_in_keyboard x port v; Some (width (ucast b), v) }
         else if 0x40 \<le> port \<and> port \<le> 0x43 then Some (width (ucast (vm_io_in_pit x port v)), v)
         else if port = 0x20 \<or> port = 0x21 \<or> port = 0xA0 \<or> port = 0xA1 then Some (width (ucast (vm_io_in_pic port)), v)
         else if port = PCI_CFG_DATA \<and> sz = 4 then do { w \<leftarrow> vm_io_in_pci (v_io v) port; Some (w, v) }
         else if port = VM_SYS_PORT_RET then Some (read_port_width (low32 (io_sys_ret (v_io v))) sz, v)
         else if port = VM_SYS_PORT_RET_HI then Some (read_port_width (high32 (io_sys_ret (v_io v))) sz, v)
         else Some (width 0xFF, v))"

section \<open>Output\<close>

text \<open>A byte for the sector buffer; the full buffer goes to the disk, or else to the block driver.\<close>

definition ide_store :: "drv_env \<Rightarrow> u8 \<Rightarrow> vm \<Rightarrow> vm option" where
  "ide_store x b v = do {
     let io = v_io v;
     let idx = (if io_ide_byte_idx io \<ge> SECTOR_SIZE then 0 else io_ide_byte_idx io);
     buf \<leftarrow> aset (io_sector_buf io) (int idx) b;
     let idx = idx + 1;
     let v = v\<lparr>v_io := io\<lparr>io_sector_buf := buf, io_ide_byte_idx := idx\<rparr>\<rparr>;
     if idx \<ge> SECTOR_SIZE then
       let v = (if vm_disk_is_active (v_disk v)
                then v\<lparr>v_fs := snd (vm_disk_write_sector (v_disk v) (v_fs v) (io_ide_lba io) buf)\<rparr>
                else if x_block_write x then v\<lparr>v_calls := v_calls v @ [BlockWrite (io_ide_lba io) buf]\<rparr> else v)
       in Some (set_io (\<lambda>io. io\<lparr>io_sector_buf := replicate SECTOR_SIZE 0\<rparr>) v)
     else Some v
   }"

definition vm_io_out_ide :: "drv_env \<Rightarrow> u32 \<Rightarrow> u32 \<Rightarrow> vm \<Rightarrow> vm option" where
  "vm_io_out_ide x port value' v =
     (let lba = io_ide_lba (v_io v); b = value' AND 0xFF
      in if port = 0x1f3 then Some (set_io (\<lambda>io. io\<lparr>io_ide_lba := (lba AND 0xFFFFFF00) OR b\<rparr>) v)
         else if port = 0x1f4 then Some (set_io (\<lambda>io. io\<lparr>io_ide_lba := (lba AND 0xFFFF00FF) OR push_bit 8 b\<rparr>) v)
         else if port = 0x1f5 then Some (set_io (\<lambda>io. io\<lparr>io_ide_lba := (lba AND 0xFF00FFFF) OR push_bit 16 b\<rparr>) v)
         else if port = 0x1f0 then ide_store x (ucast b) v
         else Some v)"

definition set_sys_arg :: "(u64 \<Rightarrow> u64) \<Rightarrow> u32 \<Rightarrow> vm \<Rightarrow> vm option" where
  "set_sys_arg f i v = do {
     a \<leftarrow> aget (io_sys_args (v_io v)) (uint i);
     args \<leftarrow> aset (io_sys_args (v_io v)) (uint i) (f a);
     Some (set_io (\<lambda>io. io\<lparr>io_sys_args := args\<rparr>) v)
   }"

definition vm_io_out :: "drv_env \<Rightarrow> u32 \<Rightarrow> u32 \<Rightarrow> nat \<Rightarrow> vm \<Rightarrow> vm outcome option" where
  "vm_io_out x port value' sz v =
     (if port = PCI_CFG_ADDR then Some (Ret (set_io (\<lambda>io. io\<lparr>io_pci_addr := value'\<rparr>) v))
      else if VM_SYS_PORT_NO \<le> port \<and> port \<le> VM_SYS_PORT_ARG3 then
        if port = VM_SYS_PORT_NO
        then Some (Ret (set_io (\<lambda>io. io\<lparr>io_sys_no := write_port_width (io_sys_no io) value' sz\<rparr>) v))
        else map_option Ret (set_sys_arg (\<lambda>a. write_port_width a value' sz) (port - VM_SYS_PORT_ARG0) v)
      else if VM_SYS_PORT_ARG0_HI \<le> port \<and> port \<le> VM_SYS_PORT_ARG3_HI then
        map_option Ret (set_sys_arg (\<lambda>a. write_port_high_width a value' sz) (port - VM_SYS_PORT_ARG0_HI) v)
      else if port = VM_SYS_PORT_CALL then vm_sys_call x v
      else if port = PCI_CFG_DATA \<and> io_pci_addr (v_io v) AND 0x80000000 \<noteq> 0 then do {
        io \<leftarrow> vm_io_out_pci (v_io v) value';
        Some (Ret (v\<lparr>v_io := io\<rparr>))
      }
      else if port = PCI_CFG_RESET then
        Some (Ret (if value' AND 0x0E = 0x06 \<or> value' AND 0x0E = 0x0E
                   then set_io (\<lambda>io. io\<lparr>io_reset_requested := True\<rparr>) v else v))
      else if 0x1f0 \<le> port \<and> port \<le> 0x1f7 then map_option Ret (vm_io_out_ide x port value' v)
      else if port = 0x3f8 \<or> port = 0xf8 then
        Some (Ret (if io_serial_out (v_io v) then v\<lparr>v_out := v_out v @ [ucast (value' AND 0xFF)]\<rparr> else v))
      else if 0x40 \<le> port \<and> port \<le> 0x43 then
        Some (Ret (if port = 0x43 then set_io (\<lambda>io. io\<lparr>io_pit_mode := ucast (value' AND 0xFF)\<rparr>) v else v))
      else if port = 0x20 \<or> port = 0xA0 then
        Some (Ret (if x_pic_eoi x then v\<lparr>v_calls := v_calls v @ [PicEoi (if port = 0xA0 then 8 else 0)]\<rparr> else v))
      else Some (Ret v))"

section \<open>Invariant\<close>

definition io_inv :: "vm_io \<Rightarrow> bool" where
  "io_inv io \<longleftrightarrow> length (io_sector_buf io) = SECTOR_SIZE \<and> length (io_sys_args io) = 4 \<and>
     (\<forall>cfg. io_pci_cfg io = Some cfg \<longrightarrow> length cfg = VM_PCI_DEV_MAX * PCI_CFG_SIZE)"

definition vm_inv :: "vm \<Rightarrow> bool" where
  "vm_inv v \<longleftrightarrow> ram_ok (h_mem (v_host v)) \<and> kbd_inv (v_host v) \<and> io_inv (v_io v) \<and> sys_inv (v_sys v)"

text \<open>What the VM relies on of the drivers and the system: sectors have 512 bytes, \<open>read\<close> delivers no
  more than it was asked for, the allocator keeps its contract. It does not restrict the guest.\<close>

definition drv_ok :: "drv_env \<Rightarrow> vm \<Rightarrow> bool" where
  "drv_ok x v \<longleftrightarrow> (\<forall>read lba bs. x_block_read x = Some read \<and> read lba = Some bs \<longrightarrow> length bs = SECTOR_SIZE) \<and>
     (\<forall>n. fst (e_read (x_sys x) n) \<le> int n) \<and> env_ok (x_sys x) (v_sys v)"

text \<open>What has to be assumed of the guest: the system call it has prepared in the ports is not the
  creation of a message queue whose size wraps modulo \<open>2^64\<close>. The bridge does not check this,
  and such a queue makes the next send write outside its buffer.\<close>

definition queue_ok :: "vm \<Rightarrow> bool" where
  "queue_ok v \<longleftrightarrow> call_ok (syscall_no (io_sys_no (v_io v))) (io_sys_args (v_io v) ! 0) (io_sys_args (v_io v) ! 1)"

lemma pci_select_bounds:
  assumes "pci_select a = (bus, dev, reg)"
  shows "reg * 4 + 4 \<le> PCI_CFG_SIZE"
proof -
  have "drop_bit 2 a AND 0x3F = take_bit 6 (drop_bit 2 a)" by (simp add: take_bit_eq_mask mask_eq_exp_minus_1)
  then have "unat (drop_bit 2 a AND 0x3F) < 2 ^ 6"
    by (metis take_bit_nat_less_exp unsigned_take_bit_eq)
  then show ?thesis using assms by (auto simp: pci_select_def)
qed

lemma vm_io_in_pci_ok: "io_inv io \<Longrightarrow> vm_io_in_pci io port \<noteq> None"
  by (auto simp: vm_io_in_pci_def io_inv_def bslice_def split: option.splits prod.splits dest: pci_select_bounds)

lemma vm_io_out_pci_ok:
  assumes "io_inv io"
  shows "\<exists>io'. vm_io_out_pci io value' = Some io' \<and> io_inv io'"
  using assms by (auto simp: vm_io_out_pci_def io_inv_def bcopy_def split: option.splits prod.splits dest: pci_select_bounds)

lemma vm_disk_read_length: "vm_disk_read_sector d fs lba = Some bs \<Longrightarrow> length bs = SECTOR_SIZE"
  by (auto simp: vm_disk_read_sector_def Let_def split: option.splits if_splits)

lemma ide_fetch_ok:
  assumes "vm_inv v" and "drv_ok x v"
  shows "vm_inv (ide_fetch x v)" and "io_ide_byte_idx (v_io (ide_fetch x v)) = 0" and "v_sys (ide_fetch x v) = v_sys v"
    and "v_host (ide_fetch x v) = v_host v"
  using assms
  by (auto simp: ide_fetch_def vm_inv_def io_inv_def drv_ok_def Let_def split: option.splits dest: vm_disk_read_length)

lemma vm_inv_io: "vm_inv v \<Longrightarrow> io_inv (f (v_io v)) \<Longrightarrow> vm_inv (set_io f v)"
  by (simp add: vm_inv_def set_io_def)

lemma vm_io_in_ide_ok:
  assumes v: "vm_inv v" and x: "drv_ok x v"
  shows "\<exists>b v'. vm_io_in_ide x port v = Some (b, v') \<and> vm_inv v' \<and> v_sys v' = v_sys v \<and> h_mem (v_host v') = h_mem (v_host v)"
proof -
  define v1 where "v1 = (if io_ide_byte_idx (v_io v) \<ge> SECTOR_SIZE then ide_fetch x v else v)"
  have v1: "vm_inv v1" "v_sys v1 = v_sys v" "v_host v1 = v_host v" using v ide_fetch_ok [OF v x] by (simp_all add: v1_def)
  then have "length (io_sector_buf (v_io v1)) = 512" by (simp add: vm_inv_def io_inv_def)
  moreover have "vm_inv (set_io (\<lambda>io. io\<lparr>io_ide_byte_idx := k\<rparr>) v1)" for k
    using v1(1) by (intro vm_inv_io) (simp_all add: vm_inv_def io_inv_def)
  ultimately show ?thesis
    using v v1(2,3) unfolding vm_io_in_ide_def Let_def v1_def [symmetric] by (auto simp: set_io_def)
qed

lemma vm_io_in_keyboard_ok:
  assumes v: "vm_inv v"
  shows "\<exists>b v'. vm_io_in_keyboard x port v = Some (b, v') \<and> vm_inv v' \<and> v_sys v' = v_sys v \<and> h_mem (v_host v') = h_mem (v_host v)"
  using v
  by (auto simp: vm_io_in_keyboard_def vm_host_kbd_pop_def vm_inv_def kbd_inv_def split: option.splits)

lemma vm_io_in_ok:
  assumes v: "vm_inv v" and x: "drv_ok x v"
  shows "\<exists>w v'. vm_io_in x port sz v = Some (w, v') \<and> vm_inv v' \<and> v_sys v' = v_sys v \<and> h_mem (v_host v') = h_mem (v_host v)"
proof -
  obtain b1 v1 where 1: "vm_io_in_ide x port v = Some (b1, v1)" "vm_inv v1" "v_sys v1 = v_sys v" "h_mem (v_host v1) = h_mem (v_host v)"
    using vm_io_in_ide_ok [OF v x] by blast
  obtain b2 v2 where 2: "vm_io_in_keyboard x port v = Some (b2, v2)" "vm_inv v2" "v_sys v2 = v_sys v" "h_mem (v_host v2) = h_mem (v_host v)"
    using vm_io_in_keyboard_ok [OF v] by blast
  obtain w where 3: "vm_io_in_pci (v_io v) PCI_CFG_DATA = Some w"
    using vm_io_in_pci_ok [of "v_io v" PCI_CFG_DATA] v by (auto simp: vm_inv_def)
  show ?thesis using v 1 2 3 by (simp add: vm_io_in_def Let_def)
qed

lemma outside_range:
  assumes fit: "unat arg + n \<le> unat (m_size mm)" and y: "outside_ram mm y"
  shows "n \<le> unat (y - (m_ram mm + arg))"
proof (rule ccontr)
  assume c: "\<not> n \<le> unat (y - (m_ram mm + arg))"
  let ?d = "y - (m_ram mm + arg)"
  have "unat ?d + unat arg < 2 ^ 64" using c fit unsigned_less [of "m_size mm", where ?'a = nat] by simp
  then have "unat (?d + arg) = unat ?d + unat arg" by (subst unat_add_lem [THEN iffD1]) simp_all
  moreover have "?d + arg = y - m_ram mm" by simp
  ultimately have "unat (y - m_ram mm) < unat (m_size mm)" using c fit by simp
  then show False using y by (simp add: outside_ram_def)
qed

lemma host_ptr_inside:
  assumes "vm_sys_arg_to_host_ptr mm arg len \<noteq> 0" and "outside_ram mm y"
  shows "unat len \<le> unat (y - vm_sys_arg_to_host_ptr mm arg len)"
proof -
  have p: "vm_sys_arg_to_host_ptr mm arg len = m_ram mm + arg" and lt: "unat arg < unat (m_size mm)"
    and le: "unat len \<le> unat (m_size mm - arg)"
    using assms(1) by (auto simp: vm_sys_arg_to_host_ptr_def word_le_nat_alt word_less_nat_alt split: if_splits)
  have "unat (m_size mm - arg) = unat (m_size mm) - unat arg" using lt by (simp add: unat_sub word_le_nat_alt)
  then have "unat arg + unat len \<le> unat (m_size mm)" using le lt by simp
  then show ?thesis unfolding p by (rule outside_range [OF _ assms(2)])
qed

lemma host_ptr_user:
  assumes "vm_sys_arg_to_host_ptr mm arg len \<noteq> 0"
  shows "user_ok (guest_env mm e) (vm_sys_arg_to_host_ptr mm arg len) (unat len)"
proof -
  have "\<not> outside_ram mm (vm_sys_arg_to_host_ptr mm arg len + of_nat i)" if "i < unat len" for i
  proof
    assume "outside_ram mm (vm_sys_arg_to_host_ptr mm arg len + of_nat i)"
    then have "unat len \<le> unat (of_nat i :: u64)" using host_ptr_inside [OF assms] by force
    then show False using that by (simp add: unat_of_nat)
  qed
  then show ?thesis by (simp add: user_ok_def guest_env_def)
qed

lemma four_args:
  assumes "length args = 4"
  obtains a0 a1 a2 a3 where "args = [a0, a1, a2, a3]"
  using assms by (auto simp: numeral_eq_Suc length_Suc_conv)

lemma vm_sys_call_ok:
  assumes v: "vm_inv v" and x: "drv_ok x v" and q: "queue_ok v"
  shows "\<exists>r. vm_sys_call x v = Some r \<and>
           (\<forall>v'. r = Ret v' \<longrightarrow> vm_inv v' \<and> v_host v' = v_host v \<and> (\<forall>y. outside_ram (h_mem (v_host v)) y \<longrightarrow> v_mem v' y = v_mem v y))"
proof -
  let ?mm = "h_mem (v_host v)" and ?p = "vm_sys_arg_to_host_ptr (h_mem (v_host v))"
  define no where "no = syscall_no (io_sys_no (v_io v))"
  have "length (io_sys_args (v_io v)) = 4" using v by (simp add: vm_inv_def io_inv_def)
  then obtain a0 a1 a2 a3 where args: "io_sys_args (v_io v) = [a0, a1, a2, a3]" by (rule four_args)
  define b0 where "b0 = (if no = FL_SYS_WRITE \<or> no = FL_SYS_READ then ?p a0 a1 else a0)"
  define b1 where "b1 = (if no = FL_SYS_PIPE_READ \<or> no = FL_SYS_PIPE_WRITE \<or> no = FL_SYS_MSGQ_SEND \<or> no = FL_SYS_MSGQ_RECV
                         then ?p a1 a2 else a1)"
  have t: "vm_translate_sys_args ?mm no [a0, a1, a2, a3] = Some [b0, b1, a2, a3]"
    by (auto simp: vm_translate_sys_args_def b0_def b1_def aget_def aset_def)
  let ?e = "guest_env ?mm (x_sys x)"
  have c: "call_ok no b0 b1" using q by (simp add: queue_ok_def call_ok_def no_def [symmetric] args b0_def b1_def)
  have s: "sys_inv (v_sys v)" and e: "env_ok ?e (v_sys v)" and rd: "fst (e_read ?e n) \<le> int n" for n
    using v x by (simp_all add: vm_inv_def drv_ok_def guest_env_def env_ok_def)
  have u: "buf_ok ?e no b0 b1 a2"
    using host_ptr_user [of ?mm a0 a1] host_ptr_user [of ?mm a1 a2] by (auto simp: buf_ok_def b0_def b1_def)
  obtain r s' where d: "fl_syscall_dispatch (x_build x) ?e (v_sys v) no b0 b1 a2 a3 = Some (r, s')" "sys_inv s'"
    using sys_dispatch_inv [OF s e c u] by blast
  have "s_mem s' y = v_mem v y" if "outside_ram ?mm y" for y
    by (rule sys_dispatch_mem [OF d(1) rd])
      (use host_ptr_inside [OF _ that, of a0 a1] host_ptr_inside [OF _ that, of a1 a2] in \<open>auto simp: b0_def b1_def\<close>)
  then show ?thesis
    using d t v args by (cases r) (simp_all add: vm_sys_call_def no_def [symmetric] aget_def vm_inv_def io_inv_def)
qed

lemma ide_store_ok:
  assumes v: "vm_inv v"
  shows "\<exists>v'. ide_store x b v = Some v' \<and> vm_inv v' \<and> v_host v' = v_host v \<and> v_sys v' = v_sys v"
  using v by (auto simp: ide_store_def Let_def vm_inv_def io_inv_def set_io_def aset_def)

lemma set_sys_arg_ok:
  assumes v: "vm_inv v" and i: "i < 4"
  shows "\<exists>v'. set_sys_arg f i v = Some v' \<and> vm_inv v' \<and> v_host v' = v_host v \<and> v_sys v' = v_sys v"
proof -
  have "length (io_sys_args (v_io v)) = 4" using v by (simp add: vm_inv_def io_inv_def)
  moreover have "unat i < 4" using i by (simp add: word_less_nat_alt)
  ultimately show ?thesis using v by (auto simp: set_sys_arg_def vm_inv_def io_inv_def set_io_def)
qed

lemma port_arg:
  assumes "a \<le> port" and "port \<le> a + 3" and "a \<le> 0xFF"
  shows "port - a < (4 :: u32)"
proof -
  have "unat (a + 3) = unat a + 3" using assms(3) by (subst unat_add_lem [THEN iffD1]) (simp_all add: word_le_nat_alt)
  then show ?thesis using assms(1,2) by (simp add: word_less_nat_alt word_le_nat_alt unat_sub)
qed

lemma vm_io_out_ok:
  assumes v: "vm_inv v" and x: "drv_ok x v" and q: "port = VM_SYS_PORT_CALL \<Longrightarrow> queue_ok v"
  shows "\<exists>r. vm_io_out x port value' sz v = Some r \<and>
           (\<forall>v'. r = Ret v' \<longrightarrow> vm_inv v' \<and> v_host v' = v_host v \<and> (\<forall>y. outside_ram (h_mem (v_host v)) y \<longrightarrow> v_mem v' y = v_mem v y))"
  (is "?P (vm_io_out x port value' sz v)")
proof -
  have io: "?P (Some (Ret (set_io f v)))" if "\<And>io. io_inv io \<Longrightarrow> io_inv (f io)" for f
    using v that by (simp add: set_io_def vm_inv_def)
  have "VM_SYS_PORT_ARG0 \<le> port" if "VM_SYS_PORT_NO \<le> port" "port \<noteq> VM_SYS_PORT_NO"
  proof -
    have "unat port \<noteq> 224" using that(2) unat_inj [of port VM_SYS_PORT_NO] by simp
    then show ?thesis using that(1) by (simp add: word_le_nat_alt)
  qed
  then have lo: "?P (map_option Ret (set_sys_arg f (port - VM_SYS_PORT_ARG0) v))"
    if "VM_SYS_PORT_NO \<le> port" "port \<le> VM_SYS_PORT_ARG3" "port \<noteq> VM_SYS_PORT_NO" for f
    using set_sys_arg_ok [OF v port_arg [of "VM_SYS_PORT_ARG0"], of port f] that by auto
  have hi: "?P (map_option Ret (set_sys_arg f (port - VM_SYS_PORT_ARG0_HI) v))"
    if "VM_SYS_PORT_ARG0_HI \<le> port" "port \<le> VM_SYS_PORT_ARG3_HI" for f
    using set_sys_arg_ok [OF v port_arg [of "VM_SYS_PORT_ARG0_HI"], of port f] that by auto
  have ide: "?P (map_option Ret (vm_io_out_ide x port value' v))"
  proof (cases "port = 0x1f0")
    case True
    then show ?thesis using ide_store_ok [OF v, of x "ucast (value' AND 0xFF)"] by (auto simp: vm_io_out_ide_def)
  next
    case False
    then show ?thesis using v by (simp add: vm_io_out_ide_def Let_def vm_inv_def io_inv_def set_io_def)
  qed
  have pci: "?P (do { io \<leftarrow> vm_io_out_pci (v_io v) value'; Some (Ret (v\<lparr>v_io := io\<rparr>)) })"
    using vm_io_out_pci_ok [of "v_io v" value'] v by (auto simp: vm_inv_def)
  have outs: "?P (Some (Ret (v\<lparr>v_out := o1\<rparr>)))" "?P (Some (Ret (v\<lparr>v_calls := o2\<rparr>)))" "?P (Some (Ret v))" for o1 o2
    using v by (simp_all add: vm_inv_def)
  have case_if: "?P (if c then t else e)" if "c \<Longrightarrow> ?P t" "\<not> c \<Longrightarrow> ?P e" for c t e using that by simp
  have case_ifr: "?P (Some (Ret (if c then t else e)))" if "c \<Longrightarrow> ?P (Some (Ret t))" "\<not> c \<Longrightarrow> ?P (Some (Ret e))" for c t e
    using that by simp
  show ?thesis
    unfolding vm_io_out_def
    by (intro case_if case_ifr io lo hi ide pci outs vm_sys_call_ok [OF v x q]; (elim conjE)?; (assumption | simp add: io_inv_def))
qed

section \<open>Arguments and results of a guest's system call\<close>

lemma merge_full [simp]: "merge_port_width old value' 4 = value'"
proof -
  have m: "(0xFFFFFFFF :: u32) = mask 32" by (simp add: mask_eq_exp_minus_1)
  have "(old AND NOT 0xFFFFFFFF) OR (value' AND 0xFFFFFFFF) = value'"
    unfolding m by (rule bit_word_eqI) (auto simp: bit_simps)
  then show ?thesis by (simp add: merge_port_width_def)
qed

lemma bit_u64_u32: "bit (w :: u32) n \<Longrightarrow> n < 32"
  using bit_imp_le_length [of w n] by simp

lemma low_high_join: "ucast (low32 w) OR push_bit 32 (ucast (high32 w)) = w"
proof -
  have m: "(0xFFFFFFFF :: u64) = mask 32" by (simp add: mask_eq_exp_minus_1)
  have "bit (ucast (low32 w) OR push_bit 32 (ucast (high32 w)) :: u64) n = bit w n" if "n < 64" for n
    using that by (cases "n < 32") (auto simp: low32_def high32_def m bit_simps)
  then show ?thesis by (intro bit_word_eqI) simp
qed

lemma low_high_parts:
  "low32 (push_bit 32 (ucast hi) OR ucast lo) = lo" "high32 (push_bit 32 (ucast hi) OR ucast lo) = hi"
proof -
  have m: "(0xFFFFFFFF :: u64) = mask 32" by (simp add: mask_eq_exp_minus_1)
  show "low32 (push_bit 32 (ucast hi) OR ucast lo) = lo"
    by (rule bit_word_eqI) (auto simp: low32_def m bit_simps)
  show "high32 (push_bit 32 (ucast hi) OR ucast lo) = hi"
    by (rule bit_word_eqI) (auto simp: high32_def bit_simps dest: bit_u64_u32)
qed

lemma port_words:
  "write_port_high_width (write_port_width slot (low32 w) 4) (high32 w) 4 = w"
  by (simp add: write_port_width_def write_port_high_width_def low_high_parts low_high_join)

section \<open>Properties\<close>

text \<open>C25: The guest is confined: an access to any port with any value and width, in any state of the
  machine that keeps the invariant, never makes the host read or write a byte outside the
  guest RAM on the guest's behalf or leave a buffer of its own. That includes the system calls
  the guest issues with addresses and lengths of its choice: the buffers they name are
  translated and checked, so the host reads from and writes to the guest RAM only. The drivers
  and the allocator keep their contracts, and the one request of the guest excluded is a call
  that creates a message queue whose size wraps.\<close>

theorem vm_io_confined:
  assumes "vm_inv v" and "drv_ok x v" and "port = VM_SYS_PORT_CALL \<longrightarrow> queue_ok v"
  shows "\<exists>r. vm_io_out x port value' sz v = Some r \<and>
           (\<forall>v'. r = Ret v' \<longrightarrow> vm_inv v' \<and> (\<forall>y. outside_ram (h_mem (v_host v)) y \<longrightarrow> v_mem v' y = v_mem v y)) \<and>
         (\<exists>w v'. vm_io_in x port sz v = Some (w, v') \<and> vm_inv v' \<and> v_mem v' = v_mem v)"
proof -
  obtain w v' where "vm_io_in x port sz v = Some (w, v')" "vm_inv v'" "v_mem v' = v_mem v"
    using vm_io_in_ok [OF assms(1,2), of port sz] by auto
  with vm_io_out_ok [OF assms(1,2), of port value' sz] assms(3) show ?thesis by blast
qed

text \<open>A machine as after booting, with a pending \<open>FL_SYS_READ\<close> of 16 bytes to guest address
  \<open>0xFFFFF8\<close>, eight bytes before the end of the RAM.\<close>

definition demo_io :: vm_io where
  "demo_io = \<lparr>io_serial_out = True, io_sector_buf = replicate SECTOR_SIZE 0, io_ide_lba = 0, io_ide_byte_idx = SECTOR_SIZE,
              io_pit_mode = 0, io_host = True, io_pci_addr = 0, io_reset_requested = False, io_pci_cfg = None,
              io_sys_no = 2, io_sys_args = [0xFFFFF8, 16, 0, 0], io_sys_ret = 0, io_inited = True\<rparr>"

definition demo_vm :: vm where
  "demo_vm = \<lparr>v_host = demo_host, v_io = demo_io, v_disk = demo_disk, v_snap = demo_snap, v_fs = demo_files,
              v_sys = sys_start (\<lambda>_. 0), v_out = [], v_calls = []\<rparr>"

definition demo_drv :: drv_env where
  "demo_drv = \<lparr>x_block_read = None, x_block_write = False, x_pic_eoi = False, x_kbd = None, x_timer = None,
               x_build = Hosted, x_sys = demo_env\<rparr>"

lemma demo_vm_ok: "vm_inv demo_vm" "drv_ok demo_drv demo_vm" "queue_ok demo_vm"
proof -
  show "vm_inv demo_vm"
    using sys_start_inv [of "\<lambda>_. 0"]
    by (simp add: vm_inv_def demo_vm_def demo_host_def demo_io_def io_inv_def kbd_inv_def zero_host_def)
  show "drv_ok demo_drv demo_vm"
    by (simp add: drv_ok_def demo_drv_def demo_vm_def env_ok_def demo_env_def fl_sys_bootstrap_def)
  show "queue_ok demo_vm" by (simp add: queue_ok_def demo_vm_def demo_io_def call_ok_def syscall_no_def)
qed

theorem vm_io_confined_witness:
  "\<exists>r. vm_io_out demo_drv VM_SYS_PORT_CALL 0 1 demo_vm = Some r \<and>
     (\<forall>v'. r = Ret v' \<longrightarrow> vm_inv v' \<and> (\<forall>y. outside_ram (h_mem (v_host demo_vm)) y \<longrightarrow> v_mem v' y = v_mem demo_vm y))"
  using vm_io_confined [OF demo_vm_ok(1,2), of VM_SYS_PORT_CALL 0 1] demo_vm_ok(3) by blast

text \<open>The bridge passes 64-bit values: the two halves of an argument written to its low and its
  high port arrive as the argument, and the two halves of a result read from the result
  ports make up the result.\<close>

lemma vm_sys_port_roundtrip:
  assumes "vm_inv v" and "i < 4"
  shows "\<exists>v1 v2. vm_io_out x (VM_SYS_PORT_ARG0 + i) (low32 w) 4 v = Some (Ret v1) \<and>
           vm_io_out x (VM_SYS_PORT_ARG0_HI + i) (high32 w) 4 v1 = Some (Ret v2) \<and>
           io_sys_args (v_io v2) = (io_sys_args (v_io v))[unat i := w] \<and>
           (\<exists>lo hi. vm_io_in x VM_SYS_PORT_RET 4 v2 = Some (lo, v2) \<and> vm_io_in x VM_SYS_PORT_RET_HI 4 v2 = Some (hi, v2) \<and>
              ucast lo OR push_bit 32 (ucast hi) = io_sys_ret (v_io v2))"
proof -
  let ?args = "io_sys_args (v_io v)"
  have l: "length ?args = 4" using assms(1) by (simp add: vm_inv_def io_inv_def)
  have i: "unat i < 4" using assms(2) by (simp add: word_less_nat_alt)
  then have "unat i \<in> {0, 1, 2, 3}" by auto
  then have c: "i = 0 \<or> i = 1 \<or> i = 2 \<or> i = 3" by (auto simp: unat_inj [symmetric])
  define v1 where "v1 = set_io (\<lambda>io. io\<lparr>io_sys_args := ?args[unat i := write_port_width (?args ! unat i) (low32 w) 4]\<rparr>) v"
  define v2 where "v2 = set_io (\<lambda>io. io\<lparr>io_sys_args := ?args[unat i := w]\<rparr>) v"
  have s1: "set_sys_arg (\<lambda>a. write_port_width a (low32 w) 4) i v = Some v1"
    using l i by (simp add: set_sys_arg_def v1_def)
  have s2: "set_sys_arg (\<lambda>a. write_port_high_width a (high32 w) 4) i v1 = Some v2"
    using l i by (simp add: set_sys_arg_def v1_def v2_def set_io_def port_words)
  have o1: "vm_io_out x (VM_SYS_PORT_ARG0 + i) (low32 w) 4 v = Some (Ret v1)"
    using c s1 by (elim disjE) (simp_all add: vm_io_out_def)
  have o2: "vm_io_out x (VM_SYS_PORT_ARG0_HI + i) (high32 w) 4 v1 = Some (Ret v2)"
    using c s2 by (elim disjE) (simp_all add: vm_io_out_def)
  show ?thesis
    using o1 o2 low_high_join by (intro exI [of _ v1] exI [of _ v2]) (simp add: v2_def set_io_def vm_io_in_def read_port_width_def)
qed

end
