(* ===== verification/VM_Exec.thy ===== *)
theory VM_Exec
  imports VM_Asm VM_IO
begin

text \<open>
  The instruction interpreter of the VM, the functions \<open>get_reg32\<close> to \<open>execute\<close> and
  \<open>vm_run_step\<close> of \<open>VM/devices/vm.c\<close>. A step is undefined (\<open>None\<close>) when the host reads or
  writes outside the guest RAM, and may block inside a system call. A local variable that the
  code leaves unset when a guest read fails holds an arbitrary value, the parameter \<open>junk\<close>.
\<close>

section \<open>Registers\<close>

definition reg_file :: "vm_cpu \<Rightarrow> u32 list" where
  "reg_file cpu = [c_eax cpu, c_ecx cpu, c_edx cpu, c_ebx cpu, c_esp cpu, c_ebp cpu, c_esi cpu, c_edi cpu]"

definition get_reg32 :: "vm_cpu \<Rightarrow> int \<Rightarrow> u32" where
  "get_reg32 cpu r = (if 0 \<le> r \<and> r < 8 then reg_file cpu ! nat r else 0)"

definition set_reg32 :: "vm_cpu \<Rightarrow> int \<Rightarrow> u32 \<Rightarrow> vm_cpu" where
  "set_reg32 cpu r v =
     (if r = 0 then cpu\<lparr>c_eax := v\<rparr> else if r = 1 then cpu\<lparr>c_ecx := v\<rparr> else if r = 2 then cpu\<lparr>c_edx := v\<rparr>
      else if r = 3 then cpu\<lparr>c_ebx := v\<rparr> else if r = 4 then cpu\<lparr>c_esp := v\<rparr> else if r = 5 then cpu\<lparr>c_ebp := v\<rparr>
      else if r = 6 then cpu\<lparr>c_esi := v\<rparr> else if r = 7 then cpu\<lparr>c_edi := v\<rparr> else cpu)"

definition get_reg8_lo :: "vm_cpu \<Rightarrow> int \<Rightarrow> u8" where
  "get_reg8_lo cpu r = ucast (get_reg32 cpu r AND 0xFF)"

definition set_reg8_lo :: "vm_cpu \<Rightarrow> int \<Rightarrow> u8 \<Rightarrow> vm_cpu" where
  "set_reg8_lo cpu r v = set_reg32 cpu r ((get_reg32 cpu r AND 0xFFFFFF00) OR ucast v)"

definition guest_eip_linear :: "vm_cpu \<Rightarrow> u32" where
  "guest_eip_linear cpu = vm_cpu_linear_addr (c_cs cpu) (c_eip cpu)"

definition translate_addr :: "vm_cpu \<Rightarrow> vm_mem \<Rightarrow> memory \<Rightarrow> u32 \<Rightarrow> u32 option" where
  "translate_addr cpu mm m linear = vm_cpu_translate mm m (c_cr0 cpu) (c_cr3 cpu) linear"

section \<open>Instructions\<close>

abbreviation v_cpu :: "vm \<Rightarrow> vm_cpu" where
  "v_cpu v \<equiv> h_cpu (v_host v)"

abbreviation v_ram :: "vm \<Rightarrow> vm_mem" where
  "v_ram v \<equiv> h_mem (v_host v)"

definition set_cpu :: "(vm_cpu \<Rightarrow> vm_cpu) \<Rightarrow> vm \<Rightarrow> vm" where
  "set_cpu f v = v\<lparr>v_host := (v_host v)\<lparr>h_cpu := f (v_cpu v)\<rparr>\<rparr>"

text \<open>A guest write and a guest read at a stack address, through segment and page translation.\<close>

definition stack_write :: "u8 list \<Rightarrow> vm \<Rightarrow> vm option" where
  "stack_write bs v = do {
     phys \<leftarrow> translate_addr (v_cpu v) (v_ram v) (v_mem v) (vm_cpu_linear_addr (c_ss (v_cpu v)) (c_esp (v_cpu v)));
     (rc, m) \<leftarrow> vm_mem_write (v_ram v) (v_mem v) phys bs;
     Some (set_mem m v)
   }"

definition stack_read :: "u64 \<Rightarrow> u8 list \<Rightarrow> vm \<Rightarrow> u8 list option" where
  "stack_read n old v = do {
     phys \<leftarrow> translate_addr (v_cpu v) (v_ram v) (v_mem v) (vm_cpu_linear_addr (c_ss (v_cpu v)) (c_esp (v_cpu v)));
     r \<leftarrow> vm_mem_read (v_ram v) (v_mem v) phys n;
     Some (case r of None \<Rightarrow> old | Some bs \<Rightarrow> bs)
   }"

definition exec_push :: "vm_instr \<Rightarrow> vm \<Rightarrow> vm option" where
  "exec_push i v = do {
     let v = set_cpu (\<lambda>c. c\<lparr>c_esp := c_esp c - 4\<rparr>) v;
     stack_write (le_bytes 4 (get_reg32 (v_cpu v) (i_dst_reg i))) v
   }"

definition exec_pop :: "u32 \<Rightarrow> vm_instr \<Rightarrow> vm \<Rightarrow> vm option" where
  "exec_pop junk i v = do {
     bs \<leftarrow> stack_read 4 (le_bytes 4 junk) v;
     let v = set_cpu (\<lambda>c. c\<lparr>c_esp := c_esp c + 4\<rparr>) v;
     Some (set_cpu (\<lambda>c. set_reg32 c (i_dst_reg i) (le_word bs)) v)
   }"

definition exec_ret :: "u16 \<Rightarrow> vm \<Rightarrow> vm option" where
  "exec_ret junk v = do {
     bs \<leftarrow> stack_read 2 (le_bytes 2 junk) v;
     Some (set_cpu (\<lambda>c. c\<lparr>c_esp := c_esp c + 2, c_eip := ucast (le_word bs :: u16)\<rparr>) v)
   }"

definition push16 :: "u16 \<Rightarrow> vm \<Rightarrow> vm option" where
  "push16 w v = stack_write (le_bytes 2 w) (set_cpu (\<lambda>c. c\<lparr>c_esp := c_esp c - 2\<rparr>) v)"

definition exec_int :: "vm_instr \<Rightarrow> vm \<Rightarrow> vm option" where
  "exec_int i v = do {
     let flags = ucast (c_eflags (v_cpu v) AND 0xFFFF);
     let cs = ucast (c_cs (v_cpu v));
     let ip = ucast (c_eip (v_cpu v));
     v \<leftarrow> push16 flags v;
     v \<leftarrow> push16 cs v;
     v \<leftarrow> push16 ip v;
     let ivt = (i_imm i AND 0xFF) * 4;
     ivt_phys \<leftarrow> translate_addr (v_cpu v) (v_ram v) (v_mem v) ivt;
     if ucast (ivt_phys + 4) \<le> m_size (v_ram v) then do {
       r1 \<leftarrow> vm_mem_read (v_ram v) (v_mem v) ivt_phys 2;
       r2 \<leftarrow> vm_mem_read (v_ram v) (v_mem v) (ivt_phys + 2) 2;
       let ip = (case r1 of None \<Rightarrow> ip | Some bs \<Rightarrow> le_word bs);
       let cs = (case r2 of None \<Rightarrow> cs | Some bs \<Rightarrow> le_word bs);
       Some (set_cpu (\<lambda>c. c\<lparr>c_eip := ucast (ip :: u16), c_cs := ucast (cs :: u16)\<rparr>) v)
     }
     else Some v
   }"

definition pop16 :: "u16 \<Rightarrow> vm \<Rightarrow> (u16 \<times> vm) option" where
  "pop16 junk v = do {
     bs \<leftarrow> stack_read 2 (le_bytes 2 junk) v;
     Some (le_word bs, set_cpu (\<lambda>c. c\<lparr>c_esp := c_esp c + 2\<rparr>) v)
   }"

definition exec_iret :: "(nat \<Rightarrow> u16) \<Rightarrow> vm \<Rightarrow> vm option" where
  "exec_iret junk v = do {
     (ip, v) \<leftarrow> pop16 (junk 0) v;
     (cs, v) \<leftarrow> pop16 (junk 1) v;
     (flags, v) \<leftarrow> pop16 (junk 2) v;
     Some (set_cpu (\<lambda>c. c\<lparr>c_eip := ucast ip, c_cs := ucast cs, c_eflags := (c_eflags c AND 0xFFFF0000) OR ucast flags\<rparr>) v)
   }"

definition exec_stosb :: "vm \<Rightarrow> vm option" where
  "exec_stosb v = do {
     let cpu = v_cpu v;
     phys \<leftarrow> translate_addr cpu (v_ram v) (v_mem v) (vm_cpu_linear_addr (c_es cpu) (c_edi cpu AND 0xFFFF));
     m \<leftarrow> vm_mem_write8 (v_ram v) (v_mem v) phys (get_reg8_lo cpu 0);
     Some (set_cpu (\<lambda>c. c\<lparr>c_edi := (c_edi c AND 0xFFFF0000) OR ((c_edi c + 1) AND 0xFFFF)\<rparr>) (set_mem m v))
   }"

definition set_zf :: "bool \<Rightarrow> vm_cpu \<Rightarrow> vm_cpu" where
  "set_zf z c = c\<lparr>c_eflags := (if z then c_eflags c OR 0x40 else c_eflags c AND NOT 0x40)\<rparr>"

text \<open>Addition and subtraction; the second operand is a register or the sign-extended low byte of
  the immediate value.\<close>

definition exec_alu :: "(u32 \<Rightarrow> u32 \<Rightarrow> u32) \<Rightarrow> vm_instr \<Rightarrow> vm_cpu \<Rightarrow> vm_cpu" where
  "exec_alu f i c =
     (if 0 \<le> i_dst_reg i \<and> i_dst_reg i < 8 then
        let a = get_reg32 c (i_dst_reg i);
            b = (if 0 \<le> i_src_reg i \<and> i_src_reg i < 8 then get_reg32 c (i_src_reg i) else scast (ucast (i_imm i) :: u8));
            r = f a b;
            c = set_reg32 c (i_dst_reg i) r
        in c\<lparr>c_eflags := (c_eflags c AND NOT 0x40) OR (if r = 0 then 0x40 else 0)\<rparr>
      else c)"

definition exec_mov_cr :: "vm_instr \<Rightarrow> vm_cpu \<Rightarrow> vm_cpu" where
  "exec_mov_cr i c =
     (if i_imm i = 0 then
        let crval = (if i_dst_reg i = 0 then c_cr0 c else if i_dst_reg i = 3 then c_cr3 c else 0)
        in if 0 \<le> i_src_reg i \<and> i_src_reg i < 8 then set_reg32 c (i_src_reg i) crval else c
      else
        let val = (if 0 \<le> i_src_reg i \<and> i_src_reg i < 8 then get_reg32 c (i_src_reg i) else 0)
        in if i_dst_reg i = 0 then c\<lparr>c_cr0 := val\<rparr> else if i_dst_reg i = 3 then c\<lparr>c_cr3 := val\<rparr> else c)"

definition jump :: "vm_instr \<Rightarrow> vm_cpu \<Rightarrow> vm_cpu" where
  "jump i c = c\<lparr>c_eip := c_eip c + (scast (ucast (i_imm i) :: u8) + i_size i)\<rparr>"

text \<open>The switch of \<open>execute\<close>: the result code and the new state, or \<open>Block\<close>.\<close>

definition execute :: "drv_env \<Rightarrow> (nat \<Rightarrow> u32) \<Rightarrow> vm_instr \<Rightarrow> vm \<Rightarrow> (int \<times> vm) outcome option" where
  "execute x junk i v =
     (let done0 = (\<lambda>v. Some (Ret (0, v))); cpu = v_cpu v
      in case i_op i of
           VM_OP_NOP \<Rightarrow> done0 v
         | VM_OP_HLT \<Rightarrow> done0 (set_cpu (\<lambda>c. c\<lparr>c_halted := True\<rparr>) v)
         | VM_OP_IN \<Rightarrow> do { (w, v) \<leftarrow> vm_io_in x (i_imm i) 1 v; done0 (set_cpu (\<lambda>c. set_reg8_lo c 0 (ucast w)) v) }
         | VM_OP_OUT \<Rightarrow> do {
             r \<leftarrow> vm_io_out x (i_imm i) (ucast (get_reg8_lo cpu 0)) 1 v;
             case r of Block \<Rightarrow> Some Block | Ret v \<Rightarrow> done0 v
           }
         | VM_OP_IN_DX \<Rightarrow> do {
             (w, v) \<leftarrow> vm_io_in x (get_reg32 cpu 2 AND 0xFFFF) 4 v;
             done0 (set_cpu (\<lambda>c. set_reg32 c 0 w) v)
           }
         | VM_OP_OUT_DX \<Rightarrow> do {
             r \<leftarrow> vm_io_out x (get_reg32 cpu 2 AND 0xFFFF) (get_reg32 cpu 0) 4 v;
             case r of Block \<Rightarrow> Some Block | Ret v \<Rightarrow> done0 v
           }
         | VM_OP_MOV \<Rightarrow>
             done0 (if i_dst_reg i \<ge> 0 \<and> i_src_reg i < 0 then set_cpu (\<lambda>c. set_reg32 c (i_dst_reg i) (i_imm i)) v else v)
         | VM_OP_PUSH \<Rightarrow> do { v \<leftarrow> exec_push i v; done0 v }
         | VM_OP_POP \<Rightarrow> do { v \<leftarrow> exec_pop (junk 0) i v; done0 v }
         | VM_OP_JMP \<Rightarrow> done0 (set_cpu (jump i) v)
         | VM_OP_RET \<Rightarrow> do { v \<leftarrow> exec_ret (ucast (junk 0)) v; done0 v }
         | VM_OP_INT \<Rightarrow> do { v \<leftarrow> exec_int i v; done0 v }
         | VM_OP_IRET \<Rightarrow> do { v \<leftarrow> exec_iret (\<lambda>k. ucast (junk k)) v; done0 v }
         | VM_OP_STOSB \<Rightarrow> do { v \<leftarrow> exec_stosb v; done0 v }
         | VM_OP_INC \<Rightarrow>
             done0 (if 0 \<le> i_dst_reg i \<and> i_dst_reg i < 8
                    then set_cpu (\<lambda>c. set_reg32 c (i_dst_reg i) (get_reg32 c (i_dst_reg i) + 1)) v else v)
         | VM_OP_DEC \<Rightarrow>
             done0 (if 0 \<le> i_dst_reg i \<and> i_dst_reg i < 8
                    then set_cpu (\<lambda>c. set_reg32 c (i_dst_reg i) (get_reg32 c (i_dst_reg i) - 1)) v else v)
         | VM_OP_CMP \<Rightarrow> done0 (set_cpu (\<lambda>c. set_zf (get_reg8_lo c 0 = ucast (i_imm i AND 0xFF)) c) v)
         | VM_OP_TEST \<Rightarrow> done0 (set_cpu (\<lambda>c. set_zf (get_reg8_lo c 0 AND ucast (i_imm i AND 0xFF) = 0) c) v)
         | VM_OP_JZ \<Rightarrow> done0 (if c_eflags cpu AND 0x40 \<noteq> 0 then set_cpu (jump i) v else v)
         | VM_OP_JNZ \<Rightarrow> done0 (if c_eflags cpu AND 0x40 = 0 then set_cpu (jump i) v else v)
         | VM_OP_ADD \<Rightarrow> done0 (set_cpu (exec_alu (+) i) v)
         | VM_OP_SUB \<Rightarrow> done0 (set_cpu (exec_alu (-) i) v)
         | VM_OP_MOV_CR \<Rightarrow> done0 (set_cpu (exec_mov_cr i) v)
         | VM_OP_UNKNOWN \<Rightarrow> Some (Ret (- 1, v)))"

section \<open>The run loop\<close>

text \<open>One turn of the loop of \<open>vm_run_step\<close>: \<open>None\<close> in the result pair means the loop is left by a
  \<open>break\<close>. \<open>instr\<close> is the local variable that holds the last decoded instruction.\<close>

definition vm_step :: "drv_env \<Rightarrow> (nat \<Rightarrow> u32) \<Rightarrow> vm_instr \<Rightarrow> vm \<Rightarrow> (vm_instr option \<times> vm) outcome option" where
  "vm_step x junk instr v = do {
     let linear = guest_eip_linear (v_cpu v);
     phys \<leftarrow> translate_addr (v_cpu v) (v_ram v) (v_mem v) linear;
     if ucast (phys + 16) > m_size (v_ram v) then Some (Ret (None, v))
     else do {
       d \<leftarrow> vm_decode (v_ram v) (v_mem v) phys instr;
       case d of
         None \<Rightarrow> Some (Ret (None, v))
       | Some instr \<Rightarrow> do {
           r \<leftarrow> execute x junk instr v;
           case r of
             Block \<Rightarrow> Some Block
           | Ret (rc, v) \<Rightarrow>
               if rc \<noteq> 0 then Some (Ret (None, v))
               else Some (Ret (Some instr,
                      if i_op instr \<noteq> VM_OP_JMP then set_cpu (\<lambda>c. c\<lparr>c_eip := c_eip c + i_size instr\<rparr>) v else v))
         }
     }
   }"

text \<open>\<open>es\<close> gives the environment of each instruction.\<close>

function vm_run_step ::
  "(nat \<Rightarrow> drv_env \<times> (nat \<Rightarrow> u32)) \<Rightarrow> nat \<Rightarrow> nat \<Rightarrow> vm_instr \<Rightarrow> vm \<Rightarrow> (nat \<times> vm) outcome option" where
  "vm_run_step es max_instructions cnt instr v =
     (if cnt < max_instructions \<and> \<not> c_halted (v_cpu v) then do {
        r \<leftarrow> vm_step (fst (es cnt)) (snd (es cnt)) instr v;
        case r of
          Block \<Rightarrow> Some Block
        | Ret (None, v) \<Rightarrow> Some (Ret (cnt, v))
        | Ret (Some instr, v) \<Rightarrow> vm_run_step es max_instructions (cnt + 1) instr v
      }
      else Some (Ret (cnt, v)))"
  by pat_completeness auto
termination by (relation "measure (\<lambda>(es, mx, cnt, instr, v). mx - cnt)") auto

declare vm_run_step.simps [simp del]

section \<open>Every instruction stays inside the machine\<close>

text \<open>The machine after \<open>v\<close>: the invariant holds, the RAM block is the same, and no host byte outside
  of it has changed.\<close>

definition confined :: "vm \<Rightarrow> vm \<Rightarrow> bool" where
  "confined v v' \<longleftrightarrow> vm_inv v' \<and> v_ram v' = v_ram v \<and> (\<forall>y. outside_ram (v_ram v) y \<longrightarrow> v_mem v' y = v_mem v y)"

lemma confined_refl: "vm_inv v \<Longrightarrow> confined v v"
  by (simp add: confined_def)

lemma confined_trans: "confined v v1 \<Longrightarrow> confined v1 v2 \<Longrightarrow> confined v v2"
  by (simp add: confined_def)

lemma confined_cpu: "confined v v1 \<Longrightarrow> confined v (set_cpu f v1)"
  by (auto simp: confined_def set_cpu_def vm_inv_def kbd_inv_def)

lemma set_cpu_sel [simp]:
  "v_cpu (set_cpu f v) = f (v_cpu v)" "v_ram (set_cpu f v) = v_ram v" "v_mem (set_cpu f v) = v_mem v"
  by (simp_all add: set_cpu_def)

lemma set_mem_sel [simp]: "v_cpu (set_mem m v) = v_cpu v" "v_ram (set_mem m v) = v_ram v" "v_mem (set_mem m v) = m"
  by (simp_all add: set_mem_def)

lemma confined_mem:
  assumes v: "vm_inv v" and fit: "unat a + length bs \<le> unat (m_size (v_ram v))"
  shows "confined v (set_mem (mem_write (v_mem v) (m_ram (v_ram v) + ucast (a :: u32)) bs) v)"
proof -
  have "length bs \<le> unat (y - (m_ram (v_ram v) + ucast a))" if "outside_ram (v_ram v) y" for y
    using fit by (intro outside_range [OF _ that]) simp
  then show ?thesis
    using v sys_inv_mem by (simp add: confined_def set_mem_def vm_inv_def mem_write_outside)
qed

lemma mem_write_confined:
  assumes v: "vm_inv v" and l: "length bs \<le> 4"
  shows "\<exists>rc m. vm_mem_write (v_ram v) (v_mem v) a bs = Some (rc, m) \<and> confined v (set_mem m v)"
proof -
  have "confined v (set_mem (v_mem v) v)" using v by (simp add: confined_def set_mem_def)
  then show ?thesis using vm_mem_write_eq [of bs "v_ram v" "v_mem v" a] l confined_mem [OF v, of a bs] by auto
qed

text \<open>Paging is off.\<close>

abbreviation no_paging :: "vm \<Rightarrow> bool" where
  "no_paging v \<equiv> c_cr0 (v_cpu v) AND VM_CR0_PG = 0"

lemma translate_off: "c_cr0 c AND VM_CR0_PG = 0 \<Longrightarrow> translate_addr c mm m l = Some l"
  by (simp add: translate_addr_def vm_cpu_translate_def)

lemma stack_write_confined:
  assumes "vm_inv v" and "no_paging v" and "length bs \<le> 4"
  shows "\<exists>v'. stack_write bs v = Some v' \<and> confined v v' \<and> v_cpu v' = v_cpu v"
  using mem_write_confined [OF assms(1,3), of "vm_cpu_linear_addr (c_ss (v_cpu v)) (c_esp (v_cpu v))"] translate_off [OF assms(2)]
  by (auto simp: stack_write_def)

lemma stack_read_defined:
  assumes "no_paging v" and "unat n \<le> 4"
  shows "stack_read n old v \<noteq> None"
  using translate_off [OF assms(1)] assms(2) by (simp add: stack_read_def vm_mem_read_eq split: option.splits)

lemma push16_confined:
  assumes "vm_inv v" and "no_paging v"
  shows "\<exists>v'. push16 w v = Some v' \<and> confined v v' \<and> no_paging v'"
proof -
  let ?v = "set_cpu (\<lambda>c. c\<lparr>c_esp := c_esp c - 2\<rparr>) v"
  have c: "confined v ?v" by (rule confined_cpu [OF confined_refl [OF assms(1)]])
  then have "vm_inv ?v" by (simp add: confined_def)
  then obtain v' where "stack_write (le_bytes 2 w) ?v = Some v'" "confined ?v v'" "v_cpu v' = v_cpu ?v"
    using stack_write_confined [of ?v "le_bytes 2 w"] assms(2) by auto
  then show ?thesis using assms(2) confined_trans [OF c] by (simp add: push16_def)
qed

lemma exec_int_confined:
  assumes v: "vm_inv v" and p: "no_paging v"
  shows "\<exists>v'. exec_int i v = Some v' \<and> confined v v'"
proof -
  obtain v1 where 1: "push16 (ucast (c_eflags (v_cpu v) AND 0xFFFF)) v = Some v1" "confined v v1" "no_paging v1"
    using push16_confined [OF v p] by blast
  then have "vm_inv v1" by (simp add: confined_def)
  then obtain v2 where 2: "push16 (ucast (c_cs (v_cpu v))) v1 = Some v2" "confined v1 v2" "no_paging v2"
    using push16_confined 1(3) by blast
  then have "vm_inv v2" by (simp add: confined_def)
  then obtain v3 where 3: "push16 (ucast (c_eip (v_cpu v))) v2 = Some v3" "confined v2 v3" "no_paging v3"
    using push16_confined 2(3) by blast
  have c: "confined v v3" using 1(2) 2(2) 3(2) confined_trans by blast
  have "vm_mem_read (v_ram v3) (v_mem v3) a 2 \<noteq> None" for a by (simp add: vm_mem_read_eq)
  then obtain r1 r2 where r: "vm_mem_read (v_ram v3) (v_mem v3) ((i_imm i AND 0xFF) * 4) 2 = Some r1"
      "vm_mem_read (v_ram v3) (v_mem v3) ((i_imm i AND 0xFF) * 4 + 2) 2 = Some r2" by fastforce
  show ?thesis
    using 1(1) 2(1) 3(1) r translate_off [OF 3(3)] c confined_cpu [OF c]
    by (simp add: exec_int_def Let_def)
qed

lemma pop16_confined:
  assumes "vm_inv v" and "no_paging v"
  shows "\<exists>w v'. pop16 junk v = Some (w, v') \<and> confined v v' \<and> no_paging v'"
  using stack_read_defined [OF assms(2), of 2 "le_bytes 2 junk"] assms confined_cpu [OF confined_refl [OF assms(1)]]
  by (auto simp: pop16_def)

lemma exec_iret_confined:
  assumes v: "vm_inv v" and p: "no_paging v"
  shows "\<exists>v'. exec_iret junk v = Some v' \<and> confined v v'"
proof -
  obtain w1 v1 where 1: "pop16 (junk 0) v = Some (w1, v1)" "confined v v1" "no_paging v1"
    using pop16_confined [OF v p] by blast
  then have "vm_inv v1" by (simp add: confined_def)
  then obtain w2 v2 where 2: "pop16 (junk 1) v1 = Some (w2, v2)" "confined v1 v2" "no_paging v2"
    using pop16_confined 1(3) by blast
  then have "vm_inv v2" by (simp add: confined_def)
  then obtain w3 v3 where 3: "pop16 (junk 2) v2 = Some (w3, v3)" "confined v2 v3"
    using pop16_confined 2(3) by blast
  have "confined v v3" using 1(2) 2(2) 3(2) confined_trans by blast
  then show ?thesis using 1(1) 2(1) 3(1) confined_cpu by (simp add: exec_iret_def)
qed

definition confined_result :: "vm \<Rightarrow> (int \<times> vm) outcome option \<Rightarrow> bool" where
  "confined_result v r \<longleftrightarrow> (\<exists>o'. r = Some o' \<and> (\<forall>rc v'. o' = Ret (rc, v') \<longrightarrow> confined v v'))"

lemma confined_resultI [intro]: "confined v v' \<Longrightarrow> confined_result v (Some (Ret (rc, v')))" "confined_result v (Some Block)"
  by (simp_all add: confined_result_def)

lemma in_confined:
  assumes v: "vm_inv v" and x: "drv_ok x v"
  shows "confined_result v (do { (w, v) \<leftarrow> vm_io_in x port sz v; Some (Ret (0, set_cpu (f w) v)) })"
proof -
  obtain w v' where i: "vm_io_in x port sz v = Some (w, v')" "vm_inv v'" "v_sys v' = v_sys v" "v_ram v' = v_ram v"
    using vm_io_in_ok [OF v x, of port sz] by blast
  then have "confined v v'" by (simp add: confined_def)
  then show ?thesis using i(1) confined_cpu by (auto simp: confined_result_def)
qed

lemma out_confined:
  assumes v: "vm_inv v" and x: "drv_ok x v" and q: "queue_ok v"
  shows "confined_result v (do { r \<leftarrow> vm_io_out x port w sz v; case r of Block \<Rightarrow> Some Block | Ret v \<Rightarrow> Some (Ret (0, v)) })"
proof -
  obtain r where r: "vm_io_out x port w sz v = Some r"
      "\<And>v'. r = Ret v' \<Longrightarrow> vm_inv v' \<and> v_host v' = v_host v \<and> (\<forall>y. outside_ram (v_ram v) y \<longrightarrow> v_mem v' y = v_mem v y)"
    using vm_io_out_ok [OF v x q, of port w sz] by blast
  show ?thesis
  proof (cases r)
    case (Ret v')
    then have "confined v v'" using r(2) by (simp add: confined_def)
    then show ?thesis using r(1) Ret by (auto simp: confined_result_def)
  qed (use r(1) in \<open>simp add: confined_result_def\<close>)
qed

lemma stack_confined:
  assumes v: "vm_inv v" and p: "no_paging v"
  shows "\<exists>v'. exec_push i v = Some v' \<and> confined v v'" and "\<exists>v'. exec_pop junk i v = Some v' \<and> confined v v'"
    and "\<exists>v'. exec_ret junk16 v = Some v' \<and> confined v v'" and "\<exists>v'. exec_stosb v = Some v' \<and> confined v v'"
proof -
  note c = confined_cpu [OF confined_refl [OF v]]
  let ?v = "set_cpu (\<lambda>c. c\<lparr>c_esp := c_esp c - 4\<rparr>) v"
  have "vm_inv ?v" using c by (simp add: confined_def)
  then obtain v' where "stack_write (le_bytes 4 (get_reg32 (v_cpu ?v) (i_dst_reg i))) ?v = Some v'" "confined ?v v'"
    using stack_write_confined [of ?v "le_bytes 4 (get_reg32 (v_cpu ?v) (i_dst_reg i))"] p by auto
  then show "\<exists>v'. exec_push i v = Some v' \<and> confined v v'" using confined_trans [OF c] by (auto simp: exec_push_def)
  show "\<exists>v'. exec_pop junk i v = Some v' \<and> confined v v'"
    using stack_read_defined [OF p, of 4 "le_bytes 4 junk"] confined_cpu [OF c] by (auto simp: exec_pop_def)
  show "\<exists>v'. exec_ret junk16 v = Some v' \<and> confined v v'"
    using stack_read_defined [OF p, of 2 "le_bytes 2 junk16"] c by (auto simp: exec_ret_def)
  let ?a = "vm_cpu_linear_addr (c_es (v_cpu v)) (c_edi (v_cpu v) AND 0xFFFF)" and ?b = "get_reg8_lo (v_cpu v) 0"
  have "confined v (set_mem (v_mem v) v)" using v by (simp add: confined_def set_mem_def)
  then have "\<exists>m. vm_mem_write8 (v_ram v) (v_mem v) ?a ?b = Some m \<and> confined v (set_mem m v)"
    using vm_mem_write8_eq [of "v_ram v" "v_mem v" ?a ?b] confined_mem [OF v, of ?a "[?b]"] by auto
  then show "\<exists>v'. exec_stosb v = Some v' \<and> confined v v'"
    using translate_off [OF p] confined_cpu by (auto simp: exec_stosb_def)
qed

lemma execute_confined:
  assumes v: "vm_inv v" and x: "drv_ok x v" and q: "queue_ok v" and p: "no_paging v"
  shows "confined_result v (execute x junk i v)"
proof -
  note c = confined_refl [OF v] confined_cpu [OF confined_refl [OF v]]
  note io = in_confined [OF v x] out_confined [OF v x q]
  obtain v1 v2 v3 v4 v5 v6 where st: "exec_push i v = Some v1" "confined v v1" "exec_pop (junk 0) i v = Some v2" "confined v v2"
      "exec_ret (ucast (junk 0)) v = Some v3" "confined v v3" "exec_stosb v = Some v4" "confined v v4"
      "exec_int i v = Some v5" "confined v v5" "exec_iret (\<lambda>k. ucast (junk k)) v = Some v6" "confined v v6"
    using stack_confined [OF v p] exec_int_confined [OF v p] exec_iret_confined [OF v p] by metis
  show ?thesis
    by (cases "i_op i") (simp_all add: execute_def Let_def io st c confined_resultI)
qed

section \<open>Steps\<close>

lemma ucast_add_wrap:
  assumes "m_size mm = GUEST_RAM_SIZE"
  shows "\<not> ucast (a + 16 :: u32) > m_size mm \<longleftrightarrow> unat a + 16 \<le> 0x1000000 \<or> 0xFFFFFFF0 \<le> unat a"
proof (cases "0xFFFFFFF0 \<le> unat a")
  case True
  then have "unat (a + 16) = unat a + 16 - 2 ^ 32"
    using unat_u32_less [of a] by (subst unat_word_ariths(1)) (simp add: mod_if)
  then show ?thesis using assms True unat_u32_less [of a] by (simp add: word_less_nat_alt)
next
  case False
  then have "unat (a + 16) = unat a + 16" by (subst unat_offset) simp_all
  then show ?thesis using assms False by (simp add: word_less_nat_alt not_less)
qed

lemma vm_step_defined:
  assumes v: "vm_inv v" and x: "drv_ok x v" and q: "queue_ok v" and p: "no_paging v" and l: "guest_eip_linear (v_cpu v) < 0xFFFFFFF0"
  shows "\<exists>r. vm_step x junk instr v = Some r \<and> (\<forall>i v'. r = Ret (i, v') \<longrightarrow> confined v v')"
proof -
  let ?a = "guest_eip_linear (v_cpu v)"
  have t: "translate_addr (v_cpu v) (v_ram v) (v_mem v) ?a = Some ?a" by (rule translate_off [OF p])
  show ?thesis
  proof (cases "ucast (?a + 16) > m_size (v_ram v)")
    case True
    then show ?thesis using t confined_refl [OF v] by (simp add: vm_step_def)
  next
    case False
    then have "unat ?a + 16 \<le> 0x1000000"
      using ucast_add_wrap [of "v_ram v" ?a] v l by (auto simp: vm_inv_def word_less_nat_alt)
    then have "fetch_ok (v_ram v) ?a" using v by (simp add: fetch_ok_def vm_inv_def)
    from vm_decode_ok [OF this, of "v_mem v" instr] consider
      (err) "vm_decode (v_ram v) (v_mem v) ?a instr = Some None"
      | (ok) i where "vm_decode (v_ram v) (v_mem v) ?a instr = Some (Some i)"
      by (auto simp: decodes_def)
    then show ?thesis
    proof cases
      case err
      then show ?thesis using t False confined_refl [OF v] by (simp add: vm_step_def)
    next
      case (ok i)
      obtain r where r: "execute x junk i v = Some r" "\<And>rc v'. r = Ret (rc, v') \<Longrightarrow> confined v v'"
        using execute_confined [OF v x q p, of junk i] by (auto simp: confined_result_def)
      show ?thesis
      proof (cases r)
        case (Ret q)
        obtain rc v' where q': "q = (rc, v')" by fastforce
        then have "confined v v'" using r(2) Ret by simp
        then show ?thesis using t False ok r(1) Ret q' confined_cpu by (auto simp: vm_step_def)
      qed (use t False ok r(1) in \<open>simp add: vm_step_def\<close>)
    qed
  qed
qed

lemma vm_step_wraps:
  assumes v: "vm_inv v" and p: "no_paging v" and l: "0xFFFFFFF0 \<le> guest_eip_linear (v_cpu v)"
  shows "vm_step x junk instr v = None"
proof -
  let ?a = "guest_eip_linear (v_cpu v)"
  have t: "translate_addr (v_cpu v) (v_ram v) (v_mem v) ?a = Some ?a" by (rule translate_off [OF p])
  have r: "ram_ok (v_ram v)" using v by (simp add: vm_inv_def)
  have u: "0xFFFFFFF0 \<le> unat ?a" using l by (simp add: word_le_nat_alt)
  then have "\<not> ucast (?a + 16) > m_size (v_ram v)" using ucast_add_wrap [of "v_ram v" ?a] r by simp
  moreover have "byte_at (v_ram v) (v_mem v) ?a = None" using r u by (simp add: byte_at_def ram_load_def)
  ultimately show ?thesis using t r by (simp add: vm_step_def vm_decode_def)
qed

text \<open>The states a run passes through: the number of the instruction, the last decoded instruction
  and the machine.\<close>

inductive vm_reach ::
  "(nat \<Rightarrow> drv_env \<times> (nat \<Rightarrow> u32)) \<Rightarrow> nat \<Rightarrow> vm_instr \<Rightarrow> vm \<Rightarrow> nat \<Rightarrow> vm_instr \<Rightarrow> vm \<Rightarrow> bool"
  for es where
  start: "vm_reach es n i v n i v"
| turn: "\<not> c_halted (v_cpu v) \<Longrightarrow> vm_step (fst (es n)) (snd (es n)) i v = Some (Ret (Some i1, v1)) \<Longrightarrow>
     vm_reach es (n + 1) i1 v1 n' i' v' \<Longrightarrow> vm_reach es n i v n' i' v'"

text \<open>What a step relies on: the drivers and the allocator keep their contracts, the guest has not
  prepared the creation of a message queue whose size wraps, paging is off, and the fetch
  address does not wrap.\<close>

definition fetch_safe :: "drv_env \<Rightarrow> vm \<Rightarrow> bool" where
  "fetch_safe x v \<longleftrightarrow> drv_ok x v \<and> queue_ok v \<and> no_paging v \<and> guest_eip_linear (v_cpu v) < 0xFFFFFFF0"

lemma vm_run_confined:
  assumes "vm_inv v" and "\<And>n i' v'. vm_reach es cnt instr v n i' v' \<Longrightarrow> n < mx \<Longrightarrow> \<not> c_halted (v_cpu v') \<Longrightarrow> fetch_safe (fst (es n)) v'"
    and "cnt \<le> mx"
  shows "\<exists>r. vm_run_step es mx cnt instr v = Some r \<and> (\<forall>k v'. r = Ret (k, v') \<longrightarrow> confined v v' \<and> k \<le> mx)"
  using assms
proof (induction es mx cnt instr v rule: vm_run_step.induct)
  case (1 es mx cnt instr v)
  show ?case
  proof (cases "cnt < mx \<and> \<not> c_halted (v_cpu v)")
    case False
    then show ?thesis using "1.prems"(3) confined_refl [OF "1.prems"(1)] by (subst vm_run_step.simps) auto
  next
    case True
    then have "fetch_safe (fst (es cnt)) v" using "1.prems"(2) vm_reach.start by blast
    then obtain r where r: "vm_step (fst (es cnt)) (snd (es cnt)) instr v = Some r" "\<And>i v'. r = Ret (i, v') \<Longrightarrow> confined v v'"
      using vm_step_defined [OF "1.prems"(1), of "fst (es cnt)" "snd (es cnt)" instr] by (auto simp: fetch_safe_def)
    show ?thesis
    proof (cases r)
      case Block
      then show ?thesis using True r(1) by (subst vm_run_step.simps) simp
    next
      case (Ret q)
      obtain io v1 where q: "q = (io, v1)" by fastforce
      have c: "confined v v1" using r(2) Ret q by simp
      show ?thesis
      proof (cases io)
        case None
        then show ?thesis using True r(1) Ret q c by (subst vm_run_step.simps) simp
      next
        case (Some i1)
        have "fetch_safe (fst (es n)) v'" if "vm_reach es (cnt + 1) i1 v1 n i' v'" "n < mx" "\<not> c_halted (v_cpu v')" for n i' v'
          using "1.prems"(2) vm_reach.turn [of v es cnt instr i1 v1] that True r(1) Ret q Some by blast
        moreover have "vm_inv v1" "cnt + 1 \<le> mx" using c True by (simp_all add: confined_def)
        ultimately obtain r' where r': "vm_run_step es mx (cnt + 1) i1 v1 = Some r'" "\<forall>k v'. r' = Ret (k, v') \<longrightarrow> confined v1 v' \<and> k \<le> mx"
          using "1.IH" [OF True r(1) Ret q [symmetric] Some] by blast
        have "vm_run_step es mx cnt instr v = Some r'" using True r(1) Ret q Some r'(1) by (subst vm_run_step.simps) simp
        then show ?thesis using r'(2) confined_trans [OF c] by blast
      qed
    qed
  qed
qed

text \<open>A step on the encoding of an instruction executes that instruction.\<close>

lemma vm_step_asm:
  assumes p: "no_paging v" and f: "fetch_ok (v_ram v) (guest_eip_linear (v_cpu v))"
    and c: "code_is (v_ram v) (v_mem v) (guest_eip_linear (v_cpu v)) (encode a)"
  shows "\<exists>i. decoded i a \<and>
           vm_step x junk instr v = (do {
             r \<leftarrow> execute x junk i v;
             case r of
               Block \<Rightarrow> Some Block
             | Ret (rc, v) \<Rightarrow>
                 if rc \<noteq> 0 then Some (Ret (None, v))
                 else Some (Ret (Some i, if i_op i \<noteq> VM_OP_JMP then set_cpu (\<lambda>c. c\<lparr>c_eip := c_eip c + i_size i\<rparr>) v else v))
           })"
proof -
  obtain i where i: "vm_decode (v_ram v) (v_mem v) (guest_eip_linear (v_cpu v)) instr = Some (Some i)" "decoded i a"
    using decode_encode [OF f c] by blast
  have "\<not> ucast (guest_eip_linear (v_cpu v) + 16) > m_size (v_ram v)"
    using f ucast_add_wrap [of "v_ram v" "guest_eip_linear (v_cpu v)"] by (simp add: fetch_ok_def)
  then show ?thesis using i translate_off [OF p] by (intro exI [of _ i]) (simp add: vm_step_def)
qed

lemma scast_byte: "(ucast (scast (d :: u8) :: u32) :: u8) = d"
  by (rule bit_word_eqI) (auto simp: bit_simps)

lemma low_byte: "(ucast (w AND 0xFF :: u32) :: u8) = ucast w"
proof -
  have "w AND 0xFF = take_bit 8 w" by (simp add: take_bit_eq_mask mask_eq_exp_minus_1)
  then show ?thesis by (simp only:) (rule bit_word_eqI, auto simp: bit_simps)
qed

lemma byte_extend: "(ucast (ucast (b :: u8) :: u32) :: u8) = b"
  by (rule bit_word_eqI) (auto simp: bit_simps)

lemma step_mov8:
  assumes "no_paging v" and "fetch_ok (v_ram v) (guest_eip_linear (v_cpu v))"
    and "code_is (v_ram v) (v_mem v) (guest_eip_linear (v_cpu v)) [0xB0, b]"
  shows "\<exists>i. vm_step x junk instr v = Some (Ret (Some i, set_cpu (\<lambda>c. c\<lparr>c_eax := ucast b, c_eip := c_eip c + 2\<rparr>) v))"
  using vm_step_asm [OF assms(1,2), of "A_MOV8 0 b" x junk instr] assms(3)
  by (auto simp: decoded_def execute_def set_reg32_def set_cpu_def)

lemma step_out_serial:
  assumes "no_paging v" and "fetch_ok (v_ram v) (guest_eip_linear (v_cpu v))"
    and "code_is (v_ram v) (v_mem v) (guest_eip_linear (v_cpu v)) [0xE6, 0xF8]"
    and "io_serial_out (v_io v)" and "c_eax (v_cpu v) = ucast b"
  shows "\<exists>i. vm_step x junk instr v =
           Some (Ret (Some i, set_cpu (\<lambda>c. c\<lparr>c_eip := c_eip c + 2\<rparr>) (v\<lparr>v_out := v_out v @ [b]\<rparr>)))"
proof -
  have "get_reg8_lo (v_cpu v) 0 = b"
    using assms(5) by (simp add: get_reg8_lo_def get_reg32_def reg_file_def low_byte byte_extend)
  then have "vm_io_out x 0xF8 (ucast (get_reg8_lo (v_cpu v) 0)) 1 v = Some (Ret (v\<lparr>v_out := v_out v @ [b]\<rparr>))"
    using assms(4) by (simp add: vm_io_out_def low_byte byte_extend)
  then show ?thesis
    using vm_step_asm [OF assms(1,2), of "A_OUT 0xF8" x junk instr] assms(3)
    by (auto simp: decoded_def execute_def set_cpu_def)
qed

lemma step_hlt:
  assumes "no_paging v" and "fetch_ok (v_ram v) (guest_eip_linear (v_cpu v))"
    and "code_is (v_ram v) (v_mem v) (guest_eip_linear (v_cpu v)) [0xF4]"
  shows "\<exists>i. vm_step x junk instr v = Some (Ret (Some i, set_cpu (\<lambda>c. c\<lparr>c_halted := True, c_eip := c_eip c + 1\<rparr>) v))"
  using vm_step_asm [OF assms(1,2), of A_HLT x junk instr] assms(3)
  by (auto simp: decoded_def execute_def set_cpu_def)

text \<open>A program that prints a text on the serial line and halts.\<close>

definition print_prog :: "u8 list \<Rightarrow> u8 list" where
  "print_prog msg = concat (map (\<lambda>b. [0xB0, b, 0xE6, 0xF8]) msg) @ [0xF4]"

lemma code_is_append:
  "code_is mm m a (xs @ ys) \<longleftrightarrow> code_is mm m a xs \<and> code_is mm m (a + of_nat (length xs)) ys"
proof -
  have "code_is mm m (a + of_nat (length xs)) ys"
    if "\<forall>i < length xs + length ys. ram_byte mm m (a + of_nat i) = (xs @ ys) ! i"
    unfolding code_is_def
  proof (intro allI impI)
    fix i assume "i < length ys"
    then show "ram_byte mm m (a + of_nat (length xs) + of_nat i) = ys ! i"
      using that [rule_format, of "length xs + i"] by (simp add: nth_append add.assoc)
  qed
  moreover have "ram_byte mm m (a + of_nat i) = (xs @ ys) ! i"
    if "code_is mm m a xs" "code_is mm m (a + of_nat (length xs)) ys" "i < length xs + length ys" for i
  proof (cases "i < length xs")
    case False
    then have e: "a + of_nat (length xs) + of_nat (i - length xs) = a + of_nat i" by (simp add: of_nat_diff)
    have "i - length xs < length ys" using False that(3) by linarith
    then have "ram_byte mm m (a + of_nat (length xs) + of_nat (i - length xs)) = ys ! (i - length xs)"
      using that(2) unfolding code_is_def by blast
    then show ?thesis using False e by (simp add: nth_append)
  qed (use that(1) in \<open>simp add: code_is_def nth_append\<close>)
  ultimately show ?thesis by (auto simp: code_is_def nth_append)
qed

lemma fetch_ok_less: "ram_ok mm \<Longrightarrow> unat a + k + 16 \<le> 0x1000000 \<Longrightarrow> fetch_ok mm (a + of_nat k)"
proof -
  assume "ram_ok mm" and k: "unat a + k + 16 \<le> 0x1000000"
  moreover have "unat (a + of_nat k :: u32) = unat a + k"
    using k by (simp add: unat_word_ariths(1) unat_of_nat)
  ultimately show ?thesis by (simp add: fetch_ok_def)
qed

lemma print_prog_runs:
  assumes "ram_ok (v_ram v)" and "no_paging v" and "\<not> c_halted (v_cpu v)" and "io_serial_out (v_io v)"
    and "code_is (v_ram v) (v_mem v) (guest_eip_linear (v_cpu v)) (print_prog msg)"
    and "unat (guest_eip_linear (v_cpu v)) + 4 * length msg + 16 \<le> 0x1000000"
    and "cnt + 2 * length msg + 1 \<le> mx"
  shows "\<exists>v'. vm_run_step es mx cnt instr v = Some (Ret (cnt + 2 * length msg + 1, v')) \<and> c_halted (v_cpu v') \<and>
           v' = set_cpu (\<lambda>_. v_cpu v') (v\<lparr>v_out := v_out v @ msg\<rparr>)"
  using assms
proof (induction msg arbitrary: v cnt instr)
  case Nil
  have "fetch_ok (v_ram v) (guest_eip_linear (v_cpu v))" using Nil.prems(1,6) by (simp add: fetch_ok_def)
  moreover have "code_is (v_ram v) (v_mem v) (guest_eip_linear (v_cpu v)) [0xF4]" using Nil.prems(5) by (simp add: print_prog_def)
  ultimately obtain i where "vm_step (fst (es cnt)) (snd (es cnt)) instr v =
      Some (Ret (Some i, set_cpu (\<lambda>c. c\<lparr>c_halted := True, c_eip := c_eip c + 1\<rparr>) v))"
    using step_hlt [OF Nil.prems(2)] by blast
  then show ?case
    using Nil.prems(3,7) by (subst vm_run_step.simps, simp) (subst vm_run_step.simps, simp add: set_cpu_def)
next
  case (Cons b msg)
  let ?a = "guest_eip_linear (v_cpu v)"
  have code: "code_is (v_ram v) (v_mem v) ?a ([0xB0, b] @ [0xE6, 0xF8] @ print_prog msg)"
    using Cons.prems(5) by (simp add: print_prog_def)
  note code = code [unfolded code_is_append]
  then have code4: "code_is (v_ram v) (v_mem v) (?a + 4) (print_prog msg)" by (simp add: add.commute)
  define v1 where "v1 = set_cpu (\<lambda>c. c\<lparr>c_eax := ucast b, c_eip := c_eip c + 2\<rparr>) v"
  define v2 where "v2 = set_cpu (\<lambda>c. c\<lparr>c_eip := c_eip c + 2\<rparr>) (v1\<lparr>v_out := v_out v1 @ [b]\<rparr>)"
  have a1: "guest_eip_linear (v_cpu v1) = ?a + 2" and a2: "guest_eip_linear (v_cpu v2) = ?a + 4"
    by (simp_all add: v2_def v1_def set_cpu_def guest_eip_linear_def vm_cpu_linear_addr_def)
  have f: "fetch_ok (v_ram v) ?a" "fetch_ok (v_ram v) (?a + 2)"
    using fetch_ok_less [OF Cons.prems(1), of ?a 0] fetch_ok_less [OF Cons.prems(1), of ?a 2] Cons.prems(6) by simp_all
  have s1: "\<exists>i. vm_step x junk instr v = Some (Ret (Some i, v1))" for x junk
    using step_mov8 [OF Cons.prems(2) f(1)] code by (simp add: v1_def)
  have s2: "\<exists>i. vm_step x junk i0 v1 = Some (Ret (Some i, v2))" for x junk i0
  proof -
    have "no_paging v1" "fetch_ok (v_ram v1) (guest_eip_linear (v_cpu v1))" "io_serial_out (v_io v1)" "c_eax (v_cpu v1) = ucast b"
      "code_is (v_ram v1) (v_mem v1) (guest_eip_linear (v_cpu v1)) [0xE6, 0xF8]"
      unfolding a1 using Cons.prems(2,4) f(2) code by (simp_all add: v1_def set_cpu_def)
    then show ?thesis using step_out_serial [of v1 b] by (simp add: v2_def)
  qed
  obtain i1 i2 where r: "vm_step (fst (es cnt)) (snd (es cnt)) instr v = Some (Ret (Some i1, v1))"
    "vm_step (fst (es (cnt + 1))) (snd (es (cnt + 1))) i1 v1 = Some (Ret (Some i2, v2))" using s1 s2 by metis
  have "unat (?a + 4) = unat ?a + 4" using Cons.prems(6) by (simp add: unat_word_ariths(1))
  then have "\<exists>v'. vm_run_step es mx (cnt + 2) i2 v2 = Some (Ret (cnt + 2 + 2 * length msg + 1, v')) \<and> c_halted (v_cpu v') \<and>
      v' = set_cpu (\<lambda>_. v_cpu v') (v2\<lparr>v_out := v_out v2 @ msg\<rparr>)"
    using Cons.prems code4 by (intro Cons.IH, unfold a2) (simp_all add: v2_def v1_def set_cpu_def)
  moreover have "vm_run_step es mx cnt instr v = vm_run_step es mx (cnt + 2) i2 v2"
  proof -
    have h: "\<not> c_halted (v_cpu v1)" using Cons.prems(3) by (simp add: v1_def set_cpu_def)
    show ?thesis using Cons.prems(3,7) r h by (subst vm_run_step.simps, simp) (subst vm_run_step.simps, simp)
  qed
  ultimately show ?case by (auto simp: v2_def v1_def set_cpu_def)
qed

section \<open>Properties\<close>


lemma drv_ok_same: "v_sys v' = v_sys v \<Longrightarrow> v_io v' = v_io v \<Longrightarrow> drv_ok x v' \<longleftrightarrow> drv_ok x v"
  by (simp only: drv_ok_def)

lemma queue_ok_same: "v_io v' = v_io v \<Longrightarrow> queue_ok v' \<longleftrightarrow> queue_ok v"
  by (simp only: queue_ok_def)

definition demo_instr :: vm_instr where
  "demo_instr = \<lparr>i_op = VM_OP_UNKNOWN, i_dst_reg = - 1, i_src_reg = - 1, i_imm = 0, i_mem_addr = 0, i_mem_size = 0,
                 i_size = 1, i_modrm = modrm_clear, i_sib = sib_clear\<rparr>"

lemma demo_vm_cpu: "v_cpu demo_vm = vm_cpu_init\<lparr>c_cs := 0\<rparr>" "no_paging demo_vm"
  by (simp_all add: demo_vm_def demo_host_def zero_host_def vm_cpu_init_def)




text \<open>C30: Where the branches go. An unconditional short jump lands at its target, the displacement from
  the next instruction. A conditional jump that is taken lands two bytes past its target:
  \<open>execute\<close> adds the length of the instruction to reach the target and \<open>vm_run_step\<close>, which
  exempts only \<open>JMP\<close>, adds it again. A
  conditional jump that is not taken goes on with the next instruction.\<close>

theorem vm_branch_targets:
  assumes "no_paging v" and "fetch_ok (v_ram v) (guest_eip_linear (v_cpu v))"
    and "code_is (v_ram v) (v_mem v) (guest_eip_linear (v_cpu v)) (encode a)"
    and "a \<in> {A_JMP d, A_JZ d, A_JNZ d}"
  shows "\<exists>i v'. vm_step x junk instr v = Some (Ret (Some i, v')) \<and>
           c_eip (v_cpu v') = c_eip (v_cpu v) +
             (if a = A_JMP d then 2 + scast d
              else if (c_eflags (v_cpu v) AND 0x40 \<noteq> 0) = (a = A_JZ d) then 4 + scast d else 2)"
  using vm_step_asm [OF assms(1-3), of x junk instr] assms(4)
  by (auto simp: decoded_def execute_def jump_def set_cpu_def scast_byte)

theorem vm_branch_targets_witness:
  "let v = demo_vm\<lparr>v_sys := (v_sys demo_vm)\<lparr>s_mem := (\<lambda>y. if y = m_ram (v_ram demo_vm) then 0x75 else 0xFE)\<rparr>\<rparr>
   in \<exists>i v'. vm_step demo_drv (\<lambda>_. 0) demo_instr v = Some (Ret (Some i, v')) \<and> c_eip (v_cpu v') = 2"
proof -
  let ?v = "demo_vm\<lparr>v_sys := (v_sys demo_vm)\<lparr>s_mem := (\<lambda>y. if y = m_ram (v_ram demo_vm) then 0x75 else 0xFE)\<rparr>\<rparr>"
  have a: "guest_eip_linear (v_cpu ?v) = 0" "c_eip (v_cpu ?v) = 0" "c_eflags (v_cpu ?v) AND 0x40 = 0"
    using demo_vm_cpu(1) by (simp_all add: guest_eip_linear_def vm_cpu_linear_addr_def vm_cpu_init_def)
  have f: "fetch_ok (v_ram ?v) (guest_eip_linear (v_cpu ?v))"
    using demo_vm_ok(1) unfolding a fetch_ok_def by (simp add: vm_inv_def)
  have c: "code_is (v_ram ?v) (v_mem ?v) (guest_eip_linear (v_cpu ?v)) (encode (A_JNZ 0xFE))"
    unfolding a by (simp add: code_is_def less_Suc_eq)
  show ?thesis unfolding Let_def
    using vm_branch_targets [OF _ f c, of "0xFE" demo_drv "\<lambda>_. 0" demo_instr] demo_vm_cpu(2) a by simp
qed

end
