(* ===== verification/VM_Run.thy ===== *)
theory VM_Run
  imports VM_Exec Sched_MLQ
begin

text \<open>
  The VM as a whole, the rest of \<open>VM/devices/vm.c\<close> and \<open>vm_arch.c\<close>: booting, the scheduler of
  \<open>vm_run\<close> and \<open>vm_run_cycles\<close> on top of the kernel's priority queue (\<open>Sched_PQ\<close>), checkpoints,
  the disk, the checksum of the state, and the readiness report. The windowed variant
  (\<open>VM_SDL\<close>) is not modelled. A loop that does not end has the value \<open>None\<close>, as an undefined
  access has, so a theorem that states a result states that the loop ends.
\<close>

section \<open>Boot\<close>

abbreviation VM_DISK_DEFAULT_SIZE_MB :: nat where "VM_DISK_DEFAULT_SIZE_MB \<equiv> 2"

text \<open>What booting takes from the system: the blocks for the PCI configuration and the guest RAM, the
  variable \<open>VM_DISK_IMAGE\<close>, and the parameters of the disk.\<close>

record boot_env =
  b_pci_alloc :: bool
  b_ram :: ptr
  b_disk_image :: "string option"
  b_disk_refused :: bool
  b_disk_create :: bool
  b_disk_alloc :: bool

definition vm_boot :: "boot_env \<Rightarrow> vm \<Rightarrow> (int \<times> vm) option" where
  "vm_boot b v = do {
     let v = vm_io_init (b_pci_alloc b) v;
     (rc, host, m) \<leftarrow> vm_host_create (b_ram b) (v_mem v);
     let v = set_mem m (v\<lparr>v_host := host\<rparr>);
     if rc \<noteq> 0 then Some (- 1, vm_io_shutdown v)
     else
       let path = (case b_disk_image b of None \<Rightarrow> ''vm_disk.img'' | Some path \<Rightarrow> path);
           (rc, d, fs) = vm_disk_init (b_disk_refused b) (b_disk_create b) (b_disk_alloc b) path VM_DISK_DEFAULT_SIZE_MB
                           (v_disk v) (v_fs v);
           v = v\<lparr>v_disk := d, v_fs := fs\<rparr>
       in if rc \<noteq> 0 then Some (- 1, vm_io_shutdown (v\<lparr>v_host := vm_host_destroy (v_host v)\<rparr>))
          else Some (0, v)
   }"

section \<open>Tasks\<close>

abbreviation VM_QUANTUM :: nat where "VM_QUANTUM \<equiv> 64"
abbreviation VM_CHECKPOINT_INTERVAL :: u32 where "VM_CHECKPOINT_INTERVAL \<equiv> 500"
abbreviation PQ_PRIO_CPU :: int where "PQ_PRIO_CPU \<equiv> 0"
abbreviation PQ_PRIO_DISPLAY :: int where "PQ_PRIO_DISPLAY \<equiv> 1"
abbreviation PQ_PRIO_TIMER :: int where "PQ_PRIO_TIMER \<equiv> 2"
abbreviation PQ_PRIO_CHECKPOINT :: int where "PQ_PRIO_CHECKPOINT \<equiv> 3"
abbreviation VM_TICK_STEP :: u32 where "VM_TICK_STEP \<equiv> 1"

text \<open>The addresses of the task functions: any four distinct addresses other than \<open>NULL\<close>.\<close>

definition vm_cpu_task_fn :: ptr where "vm_cpu_task_fn = 0x401000"
definition vm_display_task_fn :: ptr where "vm_display_task_fn = 0x401100"
definition vm_timer_task_fn :: ptr where "vm_timer_task_fn = 0x401200"
definition vm_checkpoint_task_fn :: ptr where "vm_checkpoint_task_fn = 0x401300"

text \<open>What the tasks of one round take from the system: the environment of each instruction and the
  value of the uninitialised instruction record, the display driver and its buffer, and the
  parameters of a checkpoint.\<close>

record run_env =
  r_instrs :: "nat \<Rightarrow> drv_env \<times> (nat \<Rightarrow> u32)"
  r_instr :: vm_instr
  r_display :: bool
  r_display_alloc :: bool
  r_snap_alloc :: "nat \<Rightarrow> u8 list option"
  r_snap_create :: bool
  r_snap_dalloc :: bool

definition cpu_task :: "run_env \<Rightarrow> vm \<Rightarrow> vm outcome option" where
  "cpu_task e v = do {
     r \<leftarrow> vm_run_step (r_instrs e) VM_QUANTUM 0 (r_instr e) v;
     Some (case r of Block \<Rightarrow> Block | Ret (cnt, v) \<Rightarrow> Ret v)
   }"

definition display_task :: "run_env \<Rightarrow> vm \<Rightarrow> vm option" where
  "display_task e v = do {
     r \<leftarrow> vm_display_refresh (v_ram v) (v_mem v) (r_display e) (r_display_alloc e);
     Some (case r of None \<Rightarrow> v | Some buf \<Rightarrow> v\<lparr>v_calls := v_calls v @ [RefreshVga buf]\<rparr>)
   }"

definition timer_task :: "vm \<Rightarrow> vm" where
  "timer_task v = v\<lparr>v_host := vm_host_tick_advance (v_host v) VM_TICK_STEP\<rparr>"

definition vm_save_checkpoint :: "run_env \<Rightarrow> vm \<Rightarrow> (int \<times> vm) option" where
  "vm_save_checkpoint e v = do {
     (rc, sn, fs) \<leftarrow> vm_snapshot_save (r_snap_alloc e) (r_snap_create e) (r_snap_dalloc e) (v_host v) (v_mem v) (v_disk v)
                      (v_snap v) (v_fs v);
     Some (rc, v\<lparr>v_snap := sn, v_fs := fs\<rparr>)
   }"

definition checkpoint_task :: "run_env \<Rightarrow> vm \<Rightarrow> vm option" where
  "checkpoint_task e v = map_option snd (vm_save_checkpoint e v)"

text \<open>\<open>task.fn(task.arg)\<close>\<close>

definition vm_call_task :: "run_env \<Rightarrow> ptr \<Rightarrow> vm \<Rightarrow> vm outcome option" where
  "vm_call_task e f v =
     (if f = vm_cpu_task_fn then cpu_task e v
      else if f = vm_display_task_fn then map_option Ret (display_task e v)
      else if f = vm_timer_task_fn then Some (Ret (timer_task v))
      else if f = vm_checkpoint_task_fn then map_option Ret (checkpoint_task e v)
      else None)"

section \<open>Scheduler\<close>

text \<open>The static variables \<open>s_vm_pq\<close> and \<open>s_run_cycles\<close> with the machine.\<close>

type_synonym vm_sched = "priority_queue \<times> u32 \<times> vm"

text \<open>What follows the CPU task when the guest has not halted.\<close>

definition vm_requeue :: "priority_queue \<Rightarrow> u32 \<Rightarrow> priority_queue option" where
  "vm_requeue q cycles = do {
     (_, q) \<leftarrow> pq_push q PQ_PRIO_DISPLAY vm_display_task_fn NULL;
     (_, q) \<leftarrow> pq_push q PQ_PRIO_CPU vm_cpu_task_fn NULL;
     (_, q) \<leftarrow> pq_push q PQ_PRIO_TIMER vm_timer_task_fn NULL;
     if cycles mod VM_CHECKPOINT_INTERVAL = 0
     then map_option snd (pq_push q PQ_PRIO_CHECKPOINT vm_checkpoint_task_fn NULL)
     else Some q
   }"

text \<open>One turn of the \<open>for\<close> loop over the layers, and the loop.\<close>

definition vm_layer :: "run_env \<Rightarrow> int \<Rightarrow> vm_sched \<Rightarrow> vm_sched outcome option" where
  "vm_layer e layer = (\<lambda>(q, cycles, v). do {
     (t, q) \<leftarrow> pq_pop_from_layer q layer;
     case t of
       None \<Rightarrow> Some (Ret (q, cycles, v))
     | Some task \<Rightarrow> do {
         r \<leftarrow> (if fn task \<noteq> NULL then vm_call_task e (fn task) v else Some (Ret v));
         case r of
           Block \<Rightarrow> Some Block
         | Ret v \<Rightarrow>
             if fn task = vm_cpu_task_fn \<and> \<not> c_halted (v_cpu v) then do {
               let cycles = cycles + 1;
               q \<leftarrow> vm_requeue q cycles;
               Some (Ret (q, cycles, v))
             }
             else Some (Ret (q, cycles, v))
       }
   })"

fun vm_layers :: "run_env \<Rightarrow> int list \<Rightarrow> vm_sched \<Rightarrow> vm_sched outcome option" where
  "vm_layers e [] s = Some (Ret s)"
| "vm_layers e (layer # layers) s = do {
     r \<leftarrow> vm_layer e layer s;
     case r of Block \<Rightarrow> Some Block | Ret s \<Rightarrow> vm_layers e layers s
   }"

definition vm_do_reset :: "vm \<Rightarrow> (priority_queue \<times> vm) option" where
  "vm_do_reset v = do {
     let v = vm_io_clear_reset v;
     (host, m) \<leftarrow> vm_host_reset (v_host v) (v_mem v);
     let v = set_mem m (v\<lparr>v_host := host\<rparr>);
     (_, q) \<leftarrow> pq_push pq_init PQ_PRIO_CPU vm_cpu_task_fn NULL;
     Some (q, v)
   }"

text \<open>The \<open>while\<close> loop of \<open>vm_run_cycles\<close>, and of \<open>vm_run\<close>, which has no bound (\<open>bound\<close> is
  \<open>None\<close>). Round \<open>n\<close> runs in the environment \<open>es n\<close>.\<close>

partial_function (option) vm_loop ::
  "(nat \<Rightarrow> run_env) \<Rightarrow> u32 option \<Rightarrow> nat \<Rightarrow> vm_sched \<Rightarrow> vm_sched outcome option" where
  "vm_loop es bound n s =
     (let (q, cycles, v) = s
      in if \<not> c_halted (v_cpu v) \<and> (case bound of None \<Rightarrow> True | Some b \<Rightarrow> cycles < b) then
           if vm_io_reset_requested v then do {
             (q, v) \<leftarrow> vm_do_reset v;
             vm_loop es bound n (q, cycles, v)
           }
           else if pq_is_empty q then Some (Ret (q, cycles, v))
           else do {
             r \<leftarrow> vm_layers (es n) [0, 1, 2, 3] (q, cycles, v);
             case r of Block \<Rightarrow> Some Block | Ret s \<Rightarrow> vm_loop es bound (n + 1) s
           }
         else Some (Ret (q, cycles, v)))"

definition vm_scheduled :: "(nat \<Rightarrow> run_env) \<Rightarrow> u32 option \<Rightarrow> vm \<Rightarrow> vm_sched outcome option" where
  "vm_scheduled es bound v = do {
     let v = vm_io_set_host True v;
     (_, q) \<leftarrow> pq_push pq_init PQ_PRIO_CPU vm_cpu_task_fn NULL;
     r \<leftarrow> vm_loop es bound 0 (q, 0, v);
     Some (case r of Block \<Rightarrow> Block | Ret (q, cycles, v) \<Rightarrow> Ret (q, cycles, vm_io_set_host False v))
   }"

definition vm_run :: "(nat \<Rightarrow> run_env) \<Rightarrow> vm \<Rightarrow> vm_sched outcome option" where
  "vm_run es v = vm_scheduled es None v"

definition vm_run_cycles :: "(nat \<Rightarrow> run_env) \<Rightarrow> u32 \<Rightarrow> vm \<Rightarrow> vm_sched outcome option" where
  "vm_run_cycles es max_cycles v = vm_scheduled es (Some max_cycles) v"

section \<open>Control\<close>

definition vm_stop :: "vm \<Rightarrow> vm" where
  "vm_stop v =
     (let v = vm_io_set_host False v;
          v = v\<lparr>v_disk := vm_disk_shutdown (v_disk v), v_snap := vm_snapshot_shutdown (v_snap v)\<rparr>;
          v = v\<lparr>v_host := vm_host_destroy (v_host v)\<rparr>
      in vm_io_shutdown v)"

definition vm_step_one :: "run_env \<Rightarrow> vm \<Rightarrow> vm outcome option" where
  "vm_step_one e v = do {
     r \<leftarrow> vm_run_step (r_instrs e) 1 0 (r_instr e) v;
     Some (case r of Block \<Rightarrow> Block | Ret (cnt, v) \<Rightarrow> Ret v)
   }"

definition vm_restore_checkpoint :: "run_env \<Rightarrow> vm \<Rightarrow> (int \<times> vm) option" where
  "vm_restore_checkpoint e v = do {
     (rc, host, m, d, fs) \<leftarrow> vm_snapshot_restore (r_snap_create e) (r_snap_dalloc e) (v_host v) (v_mem v) (v_disk v)
                               (v_snap v) (v_fs v);
     Some (rc, set_mem m (v\<lparr>v_host := host, v_disk := d, v_fs := fs\<rparr>))
   }"

definition vm_load_disk :: "boot_env \<Rightarrow> string option \<Rightarrow> vm \<Rightarrow> int \<times> vm" where
  "vm_load_disk b path v =
     (case path of
        None \<Rightarrow> (- 1, v)
      | Some path \<Rightarrow>
          let (rc, d, fs) = vm_disk_init (b_disk_refused b) (b_disk_create b) (b_disk_alloc b) path VM_DISK_DEFAULT_SIZE_MB
                              (vm_disk_shutdown (v_disk v)) (v_fs v)
          in (rc, v\<lparr>v_disk := d, v_fs := fs\<rparr>))"

function checksum_loop :: "vm_mem \<Rightarrow> memory \<Rightarrow> nat \<Rightarrow> u32 \<Rightarrow> u32 option" where
  "checksum_loop mm m i chk =
     (if i < unat (m_size mm) \<and> i < 65536 then do {
        bs \<leftarrow> ram_load mm m (of_nat i) 1;
        checksum_loop mm m (i + 256) (chk XOR ucast (hd bs))
      }
      else Some chk)"
  by pat_completeness auto
termination by (relation "measure (\<lambda>(mm, m, i, chk). 65536 - i)") auto

declare checksum_loop.simps [simp del]

definition vm_state_checksum :: "vm \<Rightarrow> u32 option" where
  "vm_state_checksum v =
     (if m_ram (v_ram v) = NULL then Some 0
      else
        let c = v_cpu v;
            chk = c_eax c XOR c_ecx c XOR c_edx c XOR c_ebx c;
            chk = chk XOR (c_esp c XOR c_ebp c XOR c_esi c XOR c_edi c);
            chk = chk XOR (c_eip c XOR c_cs c XOR c_eflags c);
            chk = chk XOR ucast (h_vm_ticks (v_host v))
        in checksum_loop (v_ram v) (v_mem v) 0 chk)"

section \<open>Readiness report\<close>

abbreviation VM_LAYER_COUNT :: nat where "VM_LAYER_COUNT \<equiv> 5"
abbreviation VM_ARCH_CHECKPOINTS :: nat where "VM_ARCH_CHECKPOINTS \<equiv> 11"

record vm_arch_state =
  a_layer_ready :: "bool list"
  a_checkpoints_ready :: "bool list"

text \<open>The installed drivers: block, keyboard, display, timer, PIC.\<close>

type_synonym drivers_present = "bool \<times> bool \<times> bool \<times> bool \<times> bool"

definition vm_arch_collect :: "drivers_present \<Rightarrow> vm \<Rightarrow> vm_arch_state" where
  "vm_arch_collect = (\<lambda>(block, keyboard, display, timer, pic) v.
     let cp = [m_ram (v_ram v) \<noteq> NULL \<and> m_size (v_ram v) > 0, block, keyboard, display, timer, pic,
               vm_disk_is_active (v_disk v), vm_io_pci_ready v, vm_io_reset_line_ready v,
               vm_io_syscall_bridge_ready v \<and> vm_io_serial_ready v,
               c_cs (v_cpu v) = 0x07c0 \<and> c_eip (v_cpu v) = 0]
     in \<lparr>a_layer_ready = [cp ! 0, cp ! 1 \<and> cp ! 2 \<and> cp ! 3 \<and> cp ! 4 \<and> cp ! 5, cp ! 6 \<and> cp ! 7 \<and> cp ! 8, cp ! 9, cp ! 10],
          a_checkpoints_ready = cp\<rparr>)"

definition vm_arch_layers_ready :: "vm_arch_state \<Rightarrow> bool" where
  "vm_arch_layers_ready st = (\<forall>i < VM_LAYER_COUNT. a_layer_ready st ! i)"

definition vm_arch_checkpoints_ready :: "vm_arch_state \<Rightarrow> bool" where
  "vm_arch_checkpoints_ready st = (\<forall>i < VM_ARCH_CHECKPOINTS. a_checkpoints_ready st ! i)"

section \<open>The schedule\<close>

text \<open>The same run without a queue: a cycle is one quantum of the CPU and, unless the guest has halted,
  a refresh of the screen, a tick and, every 500 cycles, a checkpoint. At most \<open>k\<close> cycles run,
  starting with the number \<open>n\<close> and the counter \<open>c\<close>.\<close>

definition vm_after_cpu :: "run_env \<Rightarrow> u32 \<Rightarrow> vm \<Rightarrow> vm option" where
  "vm_after_cpu e c v = do {
     v \<leftarrow> display_task e v;
     let v = timer_task v;
     if c mod VM_CHECKPOINT_INTERVAL = 0 then checkpoint_task e v else Some v
   }"

fun vm_cycles :: "(nat \<Rightarrow> run_env) \<Rightarrow> nat \<Rightarrow> nat \<Rightarrow> u32 \<Rightarrow> vm \<Rightarrow> (u32 \<times> vm) outcome option" where
  "vm_cycles es 0 n c v = Some (Ret (c, v))"
| "vm_cycles es (Suc k) n c v =
     (if c_halted (v_cpu v) then Some (Ret (c, v))
      else do {
        v \<leftarrow> (if vm_io_reset_requested v then map_option snd (vm_do_reset v) else Some v);
        r \<leftarrow> cpu_task (es n) v;
        case r of
          Block \<Rightarrow> Some Block
        | Ret v \<Rightarrow>
            if c_halted (v_cpu v) then Some (Ret (c, v))
            else do {
              v \<leftarrow> vm_after_cpu (es n) (c + 1) v;
              vm_cycles es k (n + 1) (c + 1) v
            }
      })"

definition drop_queue :: "vm_sched outcome option \<Rightarrow> (u32 \<times> vm) outcome option" where
  "drop_queue = map_option (\<lambda>r. case r of Block \<Rightarrow> Block | Ret (q, c, v) \<Rightarrow> Ret (c, v))"

lemma drop_queue_Ret:
  assumes "drop_queue r = Some (Ret (c, v))"
  obtains q where "r = Some (Ret (q, c, v))"
proof (cases r)
  case (Some p)
  then show thesis using assms that by (cases p) (auto simp: drop_queue_def)
qed (use assms in \<open>simp add: drop_queue_def\<close>)

text \<open>Between two rounds the queue holds one task, the CPU task.\<close>

definition queued :: "ptr list list \<Rightarrow> priority_queue \<Rightarrow> bool" where
  "queued fss q \<longleftrightarrow> (\<exists>m. pq_abs q m \<and> map (map (fn \<circ> snd)) m = fss)"

abbreviation cpu_only :: "priority_queue \<Rightarrow> bool" where
  "cpu_only \<equiv> queued [[vm_cpu_task_fn], [], [], []]"

lemmas task_fns = vm_cpu_task_fn_def vm_display_task_fn_def vm_timer_task_fn_def vm_checkpoint_task_fn_def

lemma queued_push:
  assumes "queued fss q" and "l < 4" and "length (concat fss) < 128"
  shows "\<exists>h q'. pq_push q (int l) f a = Some (h, q') \<and> queued (fss[l := fss ! l @ [f]]) q'"
proof -
  obtain m where m: "pq_abs q m" "map (map (fn \<circ> snd)) m = fss" using assms(1) by (auto simp: queued_def)
  have "length (concat m) < 128" using assms(3) by (simp add: m(2) [symmetric] map_concat [symmetric])
  from pq_push_abs [OF m(1) assms(2) this, of f a] obtain h q' where h: "pq_push q (int l) f a = Some (h, q')"
    "pq_abs q' (mlq_push m l (h, \<lparr>fn = f, arg = a, priority = int l, seq = next_seq q, quantum = 0, runtime = 0\<rparr>))" by blast
  have "l < length m" using pq_abs_length [OF m(1)] assms(2) by simp
  then show ?thesis
    using h m(2) by (intro exI [of _ h] exI [of _ q'] conjI) (auto simp: queued_def mlq_push_def map_update intro!: exI)
qed

lemma queued_pop:
  assumes "queued fss q" and "l < 4"
  shows "\<exists>t q'. pq_pop_from_layer q (int l) = Some (t, q') \<and> queued (fss[l := tl (fss ! l)]) q' \<and>
           map_option fn t = (if fss ! l = [] then None else Some (hd (fss ! l)))"
proof -
  obtain m where m: "pq_abs q m" "map (map (fn \<circ> snd)) m = fss" using assms(1) by (auto simp: queued_def)
  obtain q' where q': "pq_pop_from_layer q (int l) = Some (map_option snd (fst (mlq_pop_layer m l)), q')"
    "pq_abs q' (snd (mlq_pop_layer m l))" using pq_pop_from_layer_abs [OF m(1) assms(2)] by blast
  have l: "l < length m" using pq_abs_length [OF m(1)] assms(2) by simp
  then have f: "fss ! l = map (fn \<circ> snd) (m ! l)" using m(2) by auto
  have "snd (mlq_pop_layer m l) = m[l := tl (m ! l)]"
    using list_update_id [of m l] by (cases "m ! l") (simp_all add: mlq_pop_layer_def)
  then have "map (map (fn \<circ> snd)) (snd (mlq_pop_layer m l)) = fss[l := tl (fss ! l)]"
    using m(2) f by (auto simp: map_update map_tl)
  then have "queued (fss[l := tl (fss ! l)]) q'" using q'(2) unfolding queued_def by blast
  moreover have "map_option fn (map_option snd (fst (mlq_pop_layer m l))) = (if fss ! l = [] then None else Some (hd (fss ! l)))"
    using f by (cases "m ! l") (auto simp: mlq_pop_layer_def)
  ultimately show ?thesis using q'(1) by blast
qed

lemma cpu_queue: "\<exists>h q. pq_push pq_init PQ_PRIO_CPU vm_cpu_task_fn NULL = Some (h, q) \<and> cpu_only q"
proof -
  have "queued [[], [], [], []] pq_init" using pq_init_abs by (auto simp: queued_def)
  from queued_push [OF this, of 0 vm_cpu_task_fn NULL] show ?thesis by simp
qed

lemma requeue_ok:
  assumes "queued [[], [], [], []] q"
  shows "\<exists>q'. vm_requeue q c = Some q' \<and>
           queued [[vm_cpu_task_fn], [vm_display_task_fn], [vm_timer_task_fn],
                   if c mod VM_CHECKPOINT_INTERVAL = 0 then [vm_checkpoint_task_fn] else []] q'"
proof -
  obtain h1 q1 where 1: "pq_push q 1 vm_display_task_fn NULL = Some (h1, q1)" "queued [[], [vm_display_task_fn], [], []] q1"
    using queued_push [OF assms, of 1 vm_display_task_fn NULL] by auto
  obtain h2 q2 where 2: "pq_push q1 0 vm_cpu_task_fn NULL = Some (h2, q2)"
    "queued [[vm_cpu_task_fn], [vm_display_task_fn], [], []] q2"
    using queued_push [OF 1(2), of 0 vm_cpu_task_fn NULL] by auto
  obtain h3 q3 where 3: "pq_push q2 2 vm_timer_task_fn NULL = Some (h3, q3)"
    "queued [[vm_cpu_task_fn], [vm_display_task_fn], [vm_timer_task_fn], []] q3"
    using queued_push [OF 2(2), of 2 vm_timer_task_fn NULL] by (auto simp: numeral_2_eq_2)
  obtain h4 q4 where 4: "pq_push q3 3 vm_checkpoint_task_fn NULL = Some (h4, q4)"
    "queued [[vm_cpu_task_fn], [vm_display_task_fn], [vm_timer_task_fn], [vm_checkpoint_task_fn]] q4"
    using queued_push [OF 3(2), of 3 vm_checkpoint_task_fn NULL] by (auto simp: numeral_3_eq_3)
  show ?thesis using 1 2 3 4 by (simp add: vm_requeue_def)
qed

lemma layer_ok:
  assumes "queued fss q" and "l < 4" and "fss ! l = [] \<or> fss ! l = [f] \<and> f \<noteq> NULL \<and> f \<noteq> vm_cpu_task_fn"
  shows "\<exists>q'. queued (fss[l := []]) q' \<and>
           (\<forall>c v. vm_layer e (int l) (q, c, v) =
             (if fss ! l = [] then Some (Ret (q', c, v))
              else do {
                r \<leftarrow> vm_call_task e f v;
                case r of Block \<Rightarrow> Some Block | Ret v \<Rightarrow> Some (Ret (q', c, v))
              }))"
proof -
  obtain t q' where t: "pq_pop_from_layer q (int l) = Some (t, q')" "queued (fss[l := tl (fss ! l)]) q'"
    "map_option fn t = (if fss ! l = [] then None else Some (hd (fss ! l)))" using queued_pop [OF assms(1,2)] by blast
  have "tl (fss ! l) = []" using assms(3) by auto
  then show ?thesis
    using t assms(3) by (intro exI [of _ q']) (auto simp: vm_layer_def split: outcome.splits bind_splits)
qed

lemma task_fns_distinct: "vm_checkpoint_task_fn \<noteq> NULL" "vm_checkpoint_task_fn \<noteq> vm_cpu_task_fn"
  by (simp_all add: task_fns)

lemma call_task_simps: "vm_call_task e vm_checkpoint_task_fn v = map_option Ret (checkpoint_task e v)"
  by (simp add: vm_call_task_def task_fns)

lemma map_option_bind_Ret:
  "do { r \<leftarrow> map_option Ret z; case r of Block \<Rightarrow> Some Block | Ret v \<Rightarrow> k v } = do { v \<leftarrow> z; k v }"
  by (cases z) simp_all

lemma cpu_layer:
  assumes "cpu_only q"
  shows "\<exists>q0. queued [[], [], [], []] q0 \<and>
           vm_layer e 0 (q, c, v) = do {
             r \<leftarrow> cpu_task e v;
             case r of
               Block \<Rightarrow> Some Block
             | Ret v \<Rightarrow>
                 if c_halted (v_cpu v) then Some (Ret (q0, c, v))
                 else do { q \<leftarrow> vm_requeue q0 (c + 1); Some (Ret (q, c + 1, v)) }
           }"
proof -
  obtain t q0 where t: "pq_pop_from_layer q 0 = Some (t, q0)" "queued [[], [], [], []] q0" "map_option fn t = Some vm_cpu_task_fn"
    using queued_pop [OF assms, of 0] by auto
  then show ?thesis
    by (intro exI [of _ q0]) (auto simp: vm_layer_def vm_call_task_def vm_cpu_task_fn_def split: outcome.splits bind_splits)
qed

text \<open>One pass over the four layers is one cycle.\<close>

lemma round_ok:
  assumes "cpu_only q"
  shows "\<exists>q0 q1. cpu_only q1 \<and>
           vm_layers e [0, 1, 2, 3] (q, c, v) = do {
             r \<leftarrow> cpu_task e v;
             case r of
               Block \<Rightarrow> Some Block
             | Ret v \<Rightarrow>
                 if c_halted (v_cpu v) then Some (Ret (q0, c, v))
                 else do { v \<leftarrow> vm_after_cpu e (c + 1) v; Some (Ret (q1, c + 1, v)) }
           }"
proof -
  obtain q0 where l0: "queued [[], [], [], []] q0" "vm_layer e 0 (q, c, v) = do {
      r \<leftarrow> cpu_task e v;
      case r of Block \<Rightarrow> Some Block
      | Ret v \<Rightarrow> if c_halted (v_cpu v) then Some (Ret (q0, c, v))
          else do { q \<leftarrow> vm_requeue q0 (c + 1); Some (Ret (q, c + 1, v)) } }"
    using cpu_layer [OF assms] by blast
  let ?k = "if (c + 1) mod VM_CHECKPOINT_INTERVAL = 0 then [vm_checkpoint_task_fn] else []"
  obtain r where r: "vm_requeue q0 (c + 1) = Some r"
    "queued [[vm_cpu_task_fn], [vm_display_task_fn], [vm_timer_task_fn], ?k] r" using requeue_ok [OF l0(1)] by blast
  obtain a where a: "queued [[], [], [], []] a" "\<And>c v. vm_layer e 1 (q0, c, v) = Some (Ret (a, c, v))"
    using layer_ok [OF l0(1), of 1 NULL e] by auto
  obtain b where b: "queued [[], [], [], []] b" "\<And>c v. vm_layer e 2 (a, c, v) = Some (Ret (b, c, v))"
    using layer_ok [OF a(1), of 2 NULL e] by auto
  obtain d where d: "\<And>c v. vm_layer e 3 (b, c, v) = Some (Ret (d, c, v))"
    using layer_ok [OF b(1), of 3 NULL e] by auto
  have idle: "vm_layers e [1, 2, 3] (q0, c, v) = Some (Ret (d, c, v))" for v using a b d by simp
  obtain f where f: "queued [[vm_cpu_task_fn], [], [vm_timer_task_fn], ?k] f"
    "\<And>c v. vm_layer e 1 (r, c, v) = do { v \<leftarrow> display_task e v; Some (Ret (f, c, v)) }"
    using layer_ok [OF r(2), of 1 vm_display_task_fn e] by (auto simp: task_fns vm_call_task_def map_option_bind_Ret)
  obtain g where g: "queued [[vm_cpu_task_fn], [], [], ?k] g" "\<And>c v. vm_layer e 2 (f, c, v) = Some (Ret (g, c, timer_task v))"
    using layer_ok [OF f(1), of 2 vm_timer_task_fn e] by (auto simp: task_fns vm_call_task_def)
  obtain h where h: "cpu_only h" "\<And>c v. vm_layer e 3 (g, c, v) =
      (if ?k = [] then Some (Ret (h, c, v)) else do { v \<leftarrow> checkpoint_task e v; Some (Ret (h, c, v)) })"
    using layer_ok [OF g(1), of 3 vm_checkpoint_task_fn e]
    by (cases "(c + 1) mod VM_CHECKPOINT_INTERVAL = 0") (auto simp: task_fns_distinct call_task_simps map_option_bind_Ret)
  have "vm_layers e [1, 2, 3] (r, c + 1, v) = do { v \<leftarrow> vm_after_cpu e (c + 1) v; Some (Ret (h, c + 1, v)) }" for v
    using f(2) g(2) h(2) by (auto simp: vm_after_cpu_def Let_def split: bind_splits)
  then have "vm_layers e [0, 1, 2, 3] (q, c, v) = do {
      r \<leftarrow> cpu_task e v;
      case r of Block \<Rightarrow> Some Block
      | Ret v \<Rightarrow> if c_halted (v_cpu v) then Some (Ret (d, c, v))
          else do { v \<leftarrow> vm_after_cpu e (c + 1) v; Some (Ret (h, c + 1, v)) } }"
    using l0(2) r(1) idle unfolding vm_layers.simps(2) [of e 0] by (auto split: bind_splits outcome.splits)
  then show ?thesis using h(1) by blast
qed

lemma do_reset_ok:
  assumes "vm_do_reset v = Some (q, v')"
  shows "cpu_only q \<and> \<not> c_halted (v_cpu v') \<and> \<not> vm_io_reset_requested v'"
proof -
  obtain h q0 where q: "pq_push pq_init PQ_PRIO_CPU vm_cpu_task_fn NULL = Some (h, q0)" "cpu_only q0" using cpu_queue by blast
  obtain host m where r: "vm_host_reset (v_host (vm_io_clear_reset v)) (v_mem (vm_io_clear_reset v)) = Some (host, m)"
    "v' = set_mem m ((vm_io_clear_reset v)\<lparr>v_host := host\<rparr>)" "q = q0"
    using assms q(1) by (auto simp: vm_do_reset_def Let_def split: bind_splits)
  have "\<not> c_halted (h_cpu host)" using r(1) by (auto simp: vm_host_reset_def split: bind_splits)
  then show ?thesis using q r by (simp add: set_mem_def vm_io_reset_requested_def vm_io_clear_reset_def set_io_def)
qed

lemma cpu_only_nonempty: "cpu_only q \<Longrightarrow> \<not> pq_is_empty q"
  using pq_is_empty_abs by (fastforce simp: queued_def Cons_eq_map_conv map_eq_Cons_conv)

text \<open>A round of the loop that is not a reset.\<close>

lemma vm_loop_round:
  assumes q: "cpu_only q" and go: "\<not> c_halted (v_cpu v)" "case bound of None \<Rightarrow> True | Some b \<Rightarrow> c < b"
    and "\<not> vm_io_reset_requested v"
  shows "\<exists>q1. cpu_only q1 \<and>
           drop_queue (vm_loop es bound n (q, c, v)) = do {
             r \<leftarrow> cpu_task (es n) v;
             case r of
               Block \<Rightarrow> Some Block
             | Ret v \<Rightarrow>
                 if c_halted (v_cpu v) then Some (Ret (c, v))
                 else do { v \<leftarrow> vm_after_cpu (es n) (c + 1) v; drop_queue (vm_loop es bound (n + 1) (q1, c + 1, v)) }
           }"
proof -
  obtain q0 q1 where r: "cpu_only q1" "vm_layers (es n) [0, 1, 2, 3] (q, c, v) = do {
      r \<leftarrow> cpu_task (es n) v;
      case r of Block \<Rightarrow> Some Block
      | Ret v \<Rightarrow> if c_halted (v_cpu v) then Some (Ret (q0, c, v))
          else do { v \<leftarrow> vm_after_cpu (es n) (c + 1) v; Some (Ret (q1, c + 1, v)) } }" using round_ok [OF q] by blast
  have l: "vm_loop es bound n (q, c, v) = do {
      r \<leftarrow> vm_layers (es n) [0, 1, 2, 3] (q, c, v);
      case r of Block \<Rightarrow> Some Block | Ret s \<Rightarrow> vm_loop es bound (n + 1) s }"
    using go assms(4) cpu_only_nonempty [OF q] by (subst vm_loop.simps) simp
  have h: "vm_loop es bound (n + 1) (q0, c, v) = Some (Ret (q0, c, v))" if "c_halted (v_cpu v)" for v
    using that by (subst vm_loop.simps) simp
  show ?thesis unfolding l r(2) using r(1) h
    by (intro exI [of _ q1]) (auto simp: drop_queue_def split: bind_splits outcome.splits)
qed

lemma vm_loop_cycles:
  assumes "cpu_only q" and "\<And>b. bound = Some b \<Longrightarrow> unat c + k = unat b"
    and "bound = None \<Longrightarrow> (\<forall>c' v'. vm_cycles es k n c v = Some (Ret (c', v')) \<longrightarrow> c_halted (v_cpu v'))"
  shows "drop_queue (vm_loop es bound n (q, c, v)) = vm_cycles es k n c v"
  using assms
proof (induction k arbitrary: n q c v)
  case 0
  then have "c_halted (v_cpu v) \<or> (\<exists>b. bound = Some b \<and> \<not> c < b)"
    by (cases bound) (auto simp: word_less_nat_alt)
  then show ?case by (subst vm_loop.simps) (auto simp: drop_queue_def)
next
  case (Suc k)
  show ?case
  proof (cases "c_halted (v_cpu v)")
    case True
    then show ?thesis by (subst vm_loop.simps) (auto simp: drop_queue_def)
  next
    case False
    have b: "case bound of None \<Rightarrow> True | Some b \<Rightarrow> c < b"
      using Suc.prems(2) by (cases bound) (auto simp: word_less_nat_alt)
    have c1: "unat (c + 1) + k = unat b" if "bound = Some b" for b
      using Suc.prems(2) [OF that] unsigned_less [of b, where ?'a = nat] by (simp add: unat_word_ariths(1) mod_if)
    have run: "drop_queue (vm_loop es bound n (q', c, v')) = do {
        r \<leftarrow> cpu_task (es n) v';
        case r of Block \<Rightarrow> Some Block
        | Ret v \<Rightarrow> if c_halted (v_cpu v) then Some (Ret (c, v))
            else do { v \<leftarrow> vm_after_cpu (es n) (c + 1) v; vm_cycles es k (n + 1) (c + 1) v } }"
      if q': "cpu_only q'" "\<not> c_halted (v_cpu v')" "\<not> vm_io_reset_requested v'"
        and v': "(if vm_io_reset_requested v then map_option snd (vm_do_reset v) else Some v) = Some v'" for q' v'
    proof -
      obtain q1 where q1: "cpu_only q1" "drop_queue (vm_loop es bound n (q', c, v')) = do {
          r \<leftarrow> cpu_task (es n) v';
          case r of Block \<Rightarrow> Some Block
          | Ret v \<Rightarrow> if c_halted (v_cpu v) then Some (Ret (c, v))
              else do { v \<leftarrow> vm_after_cpu (es n) (c + 1) v; drop_queue (vm_loop es bound (n + 1) (q1, c + 1, v)) } }"
        using vm_loop_round [OF q'(1,2) b q'(3)] by blast
      have "drop_queue (vm_loop es bound (n + 1) (q1, c + 1, v2)) = vm_cycles es k (n + 1) (c + 1) v2"
        if "cpu_task (es n) v' = Some (Ret v1)" "\<not> c_halted (v_cpu v1)" "vm_after_cpu (es n) (c + 1) v1 = Some v2" for v1 v2
      proof (rule Suc.IH [OF q1(1) c1])
        have "vm_cycles es (Suc k) n c v = vm_cycles es k (n + 1) (c + 1) v2"
          using False that by (simp only: vm_cycles.simps v' if_False Option.bind.simps outcome.simps)
        then show "bound = None \<Longrightarrow> \<forall>c' v'. vm_cycles es k (n + 1) (c + 1) v2 = Some (Ret (c', v')) \<longrightarrow> c_halted (v_cpu v')"
          using Suc.prems(3) by (simp del: vm_cycles.simps)
      qed
      then show ?thesis unfolding q1(2) by (auto split: bind_splits outcome.splits)
    qed
    show ?thesis
    proof (cases "vm_io_reset_requested v")
      case False
      then show ?thesis using run [OF Suc.prems(1), of v] \<open>\<not> c_halted (v_cpu v)\<close> by simp
    next
      case True
      then have l: "vm_loop es bound n (q, c, v) = do { (q, v) \<leftarrow> vm_do_reset v; vm_loop es bound n (q, c, v) }"
        using False b by (subst vm_loop.simps) simp
      show ?thesis
      proof (cases "vm_do_reset v")
        case None
        then show ?thesis unfolding l using True False by (simp add: drop_queue_def)
      next
        case (Some p)
        obtain q' v' where p: "p = (q', v')" by fastforce
        show ?thesis unfolding l using True False Some p run [of q' v'] do_reset_ok [of v q' v'] by simp
      qed
    qed
  qed
qed

section \<open>The machine after boot\<close>

lemma unat_u32_u64: "unat (ucast (w :: u32) :: u64) = unat w"
  using unsigned_less [of w, where ?'a = nat] by (simp add: unsigned_ucast_eq take_bit_nat_eq_self)

lemma unat_ram_offset: "unat a + i < 2 ^ 32 \<Longrightarrow> unat (ucast (a + of_nat i :: u32) :: u64) = unat a + i"
  unfolding unat_u32_u64 by (simp add: unat_word_ariths(1) unat_of_nat)

lemma code_is_write:
  assumes "unat a + length bs \<le> 2 ^ 32"
  shows "code_is mm (mem_write m (m_ram mm + ucast a) bs) a bs"
  unfolding code_is_def
proof (intro allI impI)
  fix i assume i: "i < length bs"
  then have "unat (ucast (a + of_nat i) - ucast a :: u64) = i"
    using assms unat_ram_offset [of a i] unat_u32_u64 [of a] by (simp add: unat_sub_if')
  then show "ram_byte mm (mem_write m (m_ram mm + ucast a) bs) (a + of_nat i) = bs ! i"
    using i by (simp add: mem_write_def mem_fill_def)
qed

lemma code_is_frame:
  assumes "code_is mm m a bs" and "unat a + length bs \<le> 2 ^ 32" and "unat a + length bs \<le> unat off"
    and "unat off + length cs \<le> 2 ^ 64"
  shows "code_is mm (mem_write m (m_ram mm + off) cs) a bs"
  unfolding code_is_def
proof (intro allI impI)
  fix i assume i: "i < length bs"
  then have "length cs \<le> unat (ucast (a + of_nat i) - off :: u64)"
    using assms unat_ram_offset [of a i] by (simp add: unat_sub_if')
  then show "ram_byte mm (mem_write m (m_ram mm + off) cs) (a + of_nat i) = bs ! i"
    using assms(1) i by (simp add: code_is_def mem_write_outside)
qed

abbreviation boot_ram :: "ptr \<Rightarrow> vm_mem" where
  "boot_ram r \<equiv> \<lparr>m_ram = r, m_size = GUEST_RAM_SIZE\<rparr>"

lemma guest_length: "length s_minimal_guest = 53" "length (concat (map (le_bytes 2) s_vga_msg)) = 24"
  by (simp_all add: s_minimal_guest_def s_vga_msg_def)

lemma vm_host_create_ok:
  assumes "r \<noteq> NULL"
  shows "\<exists>m'. vm_host_create r m =
             Some (0, zero_host\<lparr>h_mem := boot_ram r, h_cpu := vm_cpu_init\<lparr>c_cs := VM_BOOT_ENTRY_CS\<rparr>, h_running := True\<rparr>, m') \<and>
           code_is (boot_ram r) m' GUEST_LOAD_ADDR s_minimal_guest"
proof -
  let ?m = "mem_write (mem_fill r 16777216 (\<lambda>_. 0) m) (r + ucast GUEST_LOAD_ADDR) s_minimal_guest"
  have "code_is (boot_ram r) ?m GUEST_LOAD_ADDR s_minimal_guest"
    using code_is_write [of GUEST_LOAD_ADDR s_minimal_guest "boot_ram r"] guest_length by simp
  then have "code_is (boot_ram r) (mem_write ?m (r + GUEST_VGA_BASE) (concat (map (le_bytes 2) s_vga_msg))) GUEST_LOAD_ADDR s_minimal_guest"
    using code_is_frame [of "boot_ram r" ?m GUEST_LOAD_ADDR s_minimal_guest GUEST_VGA_BASE] guest_length by simp
  then show ?thesis using assms
    by (simp add: vm_host_create_def vm_mem_init_def vm_load_binary_def load_vga_msg_def ram_store_def guest_length
        zero_host_def VM_BOOT_ENTRY_IP_def vm_cpu_init_def Let_def)
qed

lemma vm_boot_result:
  assumes "vm_boot b v0 = Some (0, v)"
  shows "v_ram v = boot_ram (b_ram b) \<and> b_ram b \<noteq> NULL \<and> v_cpu v = vm_cpu_init\<lparr>c_cs := VM_BOOT_ENTRY_CS\<rparr> \<and> kbd_inv (v_host v) \<and>
         v_io v = v_io (vm_io_init (b_pci_alloc b) v0) \<and> v_out v = v_out v0 \<and> vm_disk_is_active (v_disk v) \<and>
         (\<exists>m. v_sys v = (fl_sys_bootstrap (v_sys v0))\<lparr>s_mem := m\<rparr>) \<and>
         code_is (v_ram v) (v_mem v) GUEST_LOAD_ADDR s_minimal_guest"
proof (cases "b_ram b = NULL")
  case True
  then show ?thesis using assms by (simp add: vm_boot_def vm_host_create_def vm_mem_init_def Let_def)
next
  case False
  then obtain m' where m': "vm_host_create (b_ram b) (v_mem (vm_io_init (b_pci_alloc b) v0)) =
      Some (0, zero_host\<lparr>h_mem := boot_ram (b_ram b), h_cpu := vm_cpu_init\<lparr>c_cs := VM_BOOT_ENTRY_CS\<rparr>, h_running := True\<rparr>, m')"
    "code_is (boot_ram (b_ram b)) m' GUEST_LOAD_ADDR s_minimal_guest" using vm_host_create_ok by blast
  obtain rc d fs where d: "vm_disk_init (b_disk_refused b) (b_disk_create b) (b_disk_alloc b)
      (case b_disk_image b of None \<Rightarrow> ''vm_disk.img'' | Some path \<Rightarrow> path) VM_DISK_DEFAULT_SIZE_MB (v_disk v0) (v_fs v0) = (rc, d, fs)"
    using prod_cases3 by blast
  have "rc = 0 \<Longrightarrow> vm_disk_is_active d"
    using d by (auto simp: vm_disk_init_def vm_disk_is_active_def Let_def split: if_splits prod.splits)
  then show ?thesis using assms m' d False
    by (auto simp: vm_boot_def set_mem_def vm_io_init_def Let_def kbd_inv_def zero_host_def split: if_splits)
qed

lemma all_ready: "length xs = n \<Longrightarrow> (\<forall>i < n. xs ! i) \<longleftrightarrow> (\<forall>b \<in> set xs. b)"
  by (auto simp: all_set_conv_all_nth)

lemma guest_is_print_prog:
  "s_minimal_guest = print_prog [0x46, 0x6C, 0x69, 0x6E, 0x73, 0x74, 0x6F, 0x6E, 0x65, 0x20, 0x56, 0x4D, 0x0A]"
  by (simp add: s_minimal_guest_def print_prog_def)

lemma banner_quantum:
  assumes "ram_ok (v_ram v)" and "v_cpu v = vm_cpu_init\<lparr>c_cs := VM_BOOT_ENTRY_CS\<rparr>" and "io_serial_out (v_io v)"
    and "code_is (v_ram v) (v_mem v) GUEST_LOAD_ADDR s_minimal_guest"
  shows "\<exists>v'. cpu_task e v = Some (Ret v') \<and> c_halted (v_cpu v') \<and>
           v' = set_cpu (\<lambda>_. v_cpu v') (v\<lparr>v_out := v_out v @ map (of_nat \<circ> of_char) ''Flinstone VM'' @ [10]\<rparr>)"
proof -
  have a: "guest_eip_linear (v_cpu v) = GUEST_LOAD_ADDR"
    using assms(2) by (simp add: guest_eip_linear_def vm_cpu_linear_addr_def vm_cpu_init_def push_bit_eq_mult)
  show ?thesis
    using print_prog_runs [of v "[0x46, 0x6C, 0x69, 0x6E, 0x73, 0x74, 0x6F, 0x6E, 0x65, 0x20, 0x56, 0x4D, 0x0A]"
        0 VM_QUANTUM "r_instrs e" "r_instr e"] assms
    unfolding a guest_is_print_prog by (auto simp: cpu_task_def vm_cpu_init_def)
qed

lemma banner_scheduled:
  assumes "vm_boot b v0 = Some (0, v)" and "bound = None \<or> bound = Some mx \<and> 0 < mx"
  shows "\<exists>q v'. vm_scheduled es bound v = Some (Ret (q, 0, v')) \<and> c_halted (v_cpu v') \<and>
           v_out v' = v_out v0 @ map (of_nat \<circ> of_char) ''Flinstone VM'' @ [10]"
proof -
  note r = vm_boot_result [OF assms(1)]
  let ?v = "vm_io_set_host True v"
  have e: "v_host ?v = v_host v" "v_sys ?v = v_sys v" "io_serial_out (v_io ?v) = io_serial_out (v_io v)" "v_out ?v = v_out v"
    "vm_io_reset_requested ?v = vm_io_reset_requested v"
    by (simp_all add: vm_io_set_host_def set_io_def vm_io_reset_requested_def)
  obtain v' where v': "cpu_task (es 0) ?v = Some (Ret v')" "c_halted (v_cpu v')"
    "v' = set_cpu (\<lambda>_. v_cpu v') (?v\<lparr>v_out := v_out ?v @ map (of_nat \<circ> of_char) ''Flinstone VM'' @ [10]\<rparr>)"
    using banner_quantum [of ?v "es 0"] r unfolding e by (auto simp: vm_io_init_def)
  have o: "v_out v' = v_out v0 @ map (of_nat \<circ> of_char) ''Flinstone VM'' @ [10]"
    using r unfolding e by (subst v'(3)) (simp add: set_cpu_def e)
  have n: "\<not> vm_io_reset_requested ?v" "\<not> c_halted (v_cpu ?v)"
    using r unfolding e by (simp_all add: vm_io_reset_requested_def vm_io_init_def vm_cpu_init_def)
  obtain h q where q: "pq_push pq_init PQ_PRIO_CPU vm_cpu_task_fn NULL = Some (h, q)" "cpu_only q" using cpu_queue by blast
  have "drop_queue (vm_loop es bound 0 (q, 0, ?v)) = Some (Ret (0, v'))"
    using vm_loop_round [OF q(2) n(2), where bound = bound and c = 0 and n = 0 and es = es] n(1) v' assms(2) by (auto split: option.splits)
  then obtain q' where "vm_loop es bound 0 (q, 0, ?v) = Some (Ret (q', 0, v'))"
    by (rule drop_queue_Ret)
  then have "vm_scheduled es bound v = Some (Ret (q', 0, vm_io_set_host False v'))" using q(1) by (simp add: vm_scheduled_def)
  then show ?thesis using v'(2) o by (auto simp: vm_io_set_host_def set_io_def)
qed

section \<open>Properties\<close>

text \<open>C22: What the scheduler of the VM does. The priority queue of \<open>vm_run_cycles\<close>, with its layers, handles
  and requeueing, comes to a plain loop: every cycle gives the CPU one quantum, and, unless the
  guest has halted, refreshes the screen, advances the ticks and, every 500 cycles, saves a
  checkpoint; a requested reset comes before the next quantum. The run ends after at most
  \<open>max_cycles\<close> cycles unless a task does not end; no task is lost or runs twice.\<close>

theorem vm_run_cycles_schedule:
  "drop_queue (vm_run_cycles es max_cycles v) = do {
     r \<leftarrow> vm_cycles es (unat max_cycles) 0 0 (vm_io_set_host True v);
     Some (case r of Block \<Rightarrow> Block | Ret (c, v) \<Rightarrow> Ret (c, vm_io_set_host False v))
   }"
proof -
  obtain h q where q: "pq_push pq_init PQ_PRIO_CPU vm_cpu_task_fn NULL = Some (h, q)" "cpu_only q" using cpu_queue by blast
  have "vm_cycles es (unat max_cycles) 0 0 (vm_io_set_host True v)
        = drop_queue (vm_loop es (Some max_cycles) 0 (q, 0, vm_io_set_host True v))"
    by (rule vm_loop_cycles [OF q(2), symmetric]) simp_all
  then show ?thesis using q(1)
    by (cases "vm_loop es (Some max_cycles) 0 (q, 0, vm_io_set_host True v)")
      (auto simp: vm_run_cycles_def vm_scheduled_def drop_queue_def Let_def split: outcome.splits)
qed

text \<open>Booting gives a machine that satisfies the invariant, and it is ready in the sense of
  \<open>vm_arch_checkpoints_ready\<close> exactly when the five drivers are installed and the PCI
  configuration space could be allocated.\<close>

lemma vm_boot_ready:
  assumes "vm_boot b v0 = Some (0, v)" and "sys_inv (fl_sys_bootstrap (v_sys v0))"
  shows "vm_inv v \<and> no_paging v \<and>
         (vm_arch_checkpoints_ready (vm_arch_collect (block, keyboard, display, timer, pic) v)
            \<longleftrightarrow> block \<and> keyboard \<and> display \<and> timer \<and> pic \<and> b_pci_alloc b) \<and>
         (vm_arch_layers_ready (vm_arch_collect (block, keyboard, display, timer, pic) v)
            \<longleftrightarrow> vm_arch_checkpoints_ready (vm_arch_collect (block, keyboard, display, timer, pic) v))"
proof -
  note r = vm_boot_result [OF assms(1)]
  have i: "io_inv (v_io v)"
    using r by (simp add: io_inv_def vm_io_init_def vm_pci_init_cfg_def pci_cfg_init_def)
  obtain m where m: "v_sys v = (fl_sys_bootstrap (v_sys v0))\<lparr>s_mem := m\<rparr>" using r by blast
  have "sys_inv (v_sys v)" using assms(2) unfolding m by (simp add: sys_inv_def)
  then have "vm_inv v" using r i by (simp add: vm_inv_def)
  moreover have "no_paging v" using r by (simp add: vm_cpu_init_def)
  moreover have "a_checkpoints_ready (vm_arch_collect (block, keyboard, display, timer, pic) v) =
      [True, block, keyboard, display, timer, pic, True, b_pci_alloc b, True, True, True]"
    "a_layer_ready (vm_arch_collect (block, keyboard, display, timer, pic) v) =
      [True, block \<and> keyboard \<and> display \<and> timer \<and> pic, b_pci_alloc b, True, True]"
    using r by (simp_all add: vm_arch_collect_def vm_io_init_def vm_io_pci_ready_def vm_io_reset_line_ready_def
        vm_io_syscall_bridge_ready_def vm_io_serial_ready_def vm_pci_init_cfg_def vm_cpu_init_def Let_def)
  ultimately show ?thesis
    using all_ready [of _ VM_ARCH_CHECKPOINTS] all_ready [of _ VM_LAYER_COUNT]
    by (auto simp: vm_arch_checkpoints_ready_def vm_arch_layers_ready_def)
qed

text \<open>C21: From boot to halt: once \<open>vm_boot\<close> has succeeded, whatever the drivers and devices do, \<open>vm_run\<close>
  ends with the guest halted in its first quantum and the text \<open>Flinstone VM\<close> and a newline on
  the serial line, and so does \<open>vm_run_cycles\<close> with any positive number of cycles.\<close>

theorem vm_boot_prints_banner:
  assumes "vm_boot b v0 = Some (0, v)"
  shows "(\<exists>q v'. vm_run es v = Some (Ret (q, 0, v')) \<and> c_halted (v_cpu v') \<and>
            v_out v' = v_out v0 @ map (of_nat \<circ> of_char) ''Flinstone VM'' @ [10]) \<and>
         (0 < mx \<longrightarrow> (\<exists>q v'. vm_run_cycles es mx v = Some (Ret (q, 0, v')) \<and> c_halted (v_cpu v') \<and>
            v_out v' = v_out v0 @ map (of_nat \<circ> of_char) ''Flinstone VM'' @ [10]))"
  using banner_scheduled [OF assms] unfolding vm_run_def vm_run_cycles_def by blast

text \<open>A boot that succeeds: a disk image of the right size exists.\<close>

definition demo_boot :: boot_env where
  "demo_boot = \<lparr>b_pci_alloc = True, b_ram = 0x10000000, b_disk_image = None, b_disk_refused = False,
                b_disk_create = True, b_disk_alloc = True\<rparr>"

definition demo_image :: "u8 list" where
  "demo_image = replicate (2 * 1024 * 1024) 0"

definition demo_start :: vm where
  "demo_start = demo_vm\<lparr>v_fs := \<lparr>f_files = [''vm_disk.img'' \<mapsto> demo_image], f_limit = 2 ^ 32\<rparr>, v_sys := sys_start (\<lambda>_. 0)\<rparr>"

lemma demo_boot_ok: "\<exists>v. vm_boot demo_boot demo_start = Some (0, v)"
proof -
  let ?v = "vm_io_init True demo_start"
  obtain m where m: "vm_host_create 0x10000000 (v_mem ?v) =
      Some (0, zero_host\<lparr>h_mem := boot_ram 0x10000000, h_cpu := vm_cpu_init\<lparr>c_cs := VM_BOOT_ENTRY_CS\<rparr>, h_running := True\<rparr>, m)"
    using vm_host_create_ok [of "0x10000000"] by auto
  have "fopen_r (v_fs demo_start) ''vm_disk.img''" "fsize (v_fs demo_start) ''vm_disk.img'' = 2 * 1024 * 1024"
    by (simp_all add: demo_start_def fopen_r_def fsize_def demo_image_def)
  then have "fst (vm_disk_init False True True ''vm_disk.img'' VM_DISK_DEFAULT_SIZE_MB (v_disk ?v) (v_fs ?v)) = 0"
    by (simp add: vm_disk_init_def vm_io_init_def Let_def)
  then obtain d fs where "vm_disk_init False True True ''vm_disk.img'' VM_DISK_DEFAULT_SIZE_MB (v_disk ?v) (v_fs ?v) = (0, d, fs)"
    by (cases "vm_disk_init False True True ''vm_disk.img'' VM_DISK_DEFAULT_SIZE_MB (v_disk ?v) (v_fs ?v)") auto
  then show ?thesis using m
    by (simp add: vm_boot_def demo_boot_def set_mem_def vm_io_init_def Let_def)
qed

definition demo_run :: run_env where
  "demo_run = \<lparr>r_instrs = (\<lambda>_. (demo_drv, \<lambda>_. 0)), r_instr = demo_instr, r_display = True, r_display_alloc = True,
               r_snap_alloc = (\<lambda>_. None), r_snap_create = True, r_snap_dalloc = True\<rparr>"

theorem vm_boot_prints_banner_witness:
  "\<exists>v q v'. vm_boot demo_boot demo_start = Some (0, v) \<and> vm_run (\<lambda>_. demo_run) v = Some (Ret (q, 0, v')) \<and> c_halted (v_cpu v') \<and>
     v_out v' = v_out demo_start @ map (of_nat \<circ> of_char) ''Flinstone VM'' @ [10]"
  using demo_boot_ok vm_boot_prints_banner [of demo_boot demo_start _ "\<lambda>_. demo_run" 1] by blast

end
