(* ===== verification/MM_PMM.thy ===== *)
theory MM_PMM
  imports FL_Prelude
begin

text \<open>
  The physical frame allocator of \<open>kernel/core/mm/pmm.c\<close>: a bitmap of 1024 frames of 4 KiB
  from 1 MiB on, in sixteen 64-bit words. Addresses are 64-bit words, so the wrap-around of
  address arithmetic is the code's. The bitmap is shown to represent a set of allocated
  frames, and each function to do its work on that set.
\<close>

section \<open>The code\<close>

abbreviation PMM_FRAME_SIZE :: u64 where
  "PMM_FRAME_SIZE \<equiv> 4096"

abbreviation PMM_PHYS_BASE :: u64 where
  "PMM_PHYS_BASE \<equiv> 0x100000"

abbreviation PMM_PHYS_MEM :: u64 where
  "PMM_PHYS_MEM \<equiv> 0x400000"

abbreviation PMM_NUM_FRAMES :: nat where
  "PMM_NUM_FRAMES \<equiv> 1024"

abbreviation PMM_BITS_PER_WORD :: nat where
  "PMM_BITS_PER_WORD \<equiv> 64"

abbreviation PMM_WORDS :: nat where
  "PMM_WORDS \<equiv> 16"

text \<open>The bitmap; the spinlock makes every function atomic.\<close>

type_synonym bitmap = "u64 list"

definition s_bitmap :: bitmap where
  "s_bitmap = replicate PMM_WORDS 0"

definition bm_set :: "bitmap \<Rightarrow> nat \<Rightarrow> bitmap option" where
  "bm_set bm frame = do {
     let word = frame div PMM_BITS_PER_WORD;
     let b = frame mod PMM_BITS_PER_WORD;
     w \<leftarrow> aget bm (int word);
     aset bm (int word) (w OR push_bit b 1)
   }"

definition bm_clear :: "bitmap \<Rightarrow> nat \<Rightarrow> bitmap option" where
  "bm_clear bm frame = do {
     let word = frame div PMM_BITS_PER_WORD;
     let b = frame mod PMM_BITS_PER_WORD;
     w \<leftarrow> aget bm (int word);
     aset bm (int word) (w AND NOT (push_bit b 1))
   }"

text \<open>The loop that marks the frames \<open>f\<close> to \<open>last_frame\<close>.\<close>

function bm_set_range :: "bitmap \<Rightarrow> nat \<Rightarrow> nat \<Rightarrow> bitmap option" where
  "bm_set_range bm f last_frame =
     (if f \<le> last_frame then do { bm \<leftarrow> bm_set bm f; bm_set_range bm (f + 1) last_frame } else Some bm)"
  by pat_completeness auto
termination by (relation "measure (\<lambda>(bm, f, last_frame). last_frame + 1 - f)") auto

definition pmm_reserve_range :: "bitmap \<Rightarrow> u64 \<Rightarrow> u64 \<Rightarrow> bitmap option" where
  "pmm_reserve_range bm base bytes =
     (if bytes = 0 \<or> base + bytes \<le> PMM_PHYS_BASE then Some bm
      else
        let start = (if base < PMM_PHYS_BASE then PMM_PHYS_BASE else base);
            end' = base + bytes;
            region_end = PMM_PHYS_BASE + PMM_PHYS_MEM;
            end' = (if end' > region_end then region_end else end')
        in if start \<ge> end' then Some bm
           else
             let first_frame = unat ((start - PMM_PHYS_BASE) div PMM_FRAME_SIZE);
                 last_frame = unat ((end' - 1 - PMM_PHYS_BASE) div PMM_FRAME_SIZE);
                 last_frame = (if last_frame \<ge> PMM_NUM_FRAMES then PMM_NUM_FRAMES - 1 else last_frame)
             in bm_set_range bm first_frame last_frame)"

text \<open>The search of \<open>pmm_alloc_frame\<close> from word \<open>w\<close> on.\<close>

function pmm_alloc_from :: "bitmap \<Rightarrow> nat \<Rightarrow> (u64 \<times> bitmap) option" where
  "pmm_alloc_from bm w =
     (if w < PMM_WORDS then do {
        x \<leftarrow> aget bm (int w);
        if x = - 1 then pmm_alloc_from bm (w + 1)
        else do {
          let b = nat (ctzll (NOT x));
          let frame = w * PMM_BITS_PER_WORD + b;
          if frame \<ge> PMM_NUM_FRAMES
          then if w = PMM_WORDS - 1 then Some (0, bm) else pmm_alloc_from bm (w + 1)
          else do {
            bm \<leftarrow> bm_set bm frame;
            Some (PMM_PHYS_BASE + of_nat frame * PMM_FRAME_SIZE, bm)
          }
        }
      }
      else Some (0, bm))"
  by pat_completeness auto
termination by (relation "measure (\<lambda>(bm, w). PMM_WORDS - w)") auto

definition pmm_alloc_frame :: "bitmap \<Rightarrow> (u64 \<times> bitmap) option" where
  "pmm_alloc_frame bm = pmm_alloc_from bm 0"

definition pmm_free_frame :: "bitmap \<Rightarrow> u64 \<Rightarrow> bitmap option" where
  "pmm_free_frame bm phys_addr =
     (if phys_addr < PMM_PHYS_BASE then Some bm
      else
        let frame = unat ((phys_addr - PMM_PHYS_BASE) div PMM_FRAME_SIZE)
        in if frame \<ge> PMM_NUM_FRAMES then Some bm else bm_clear bm frame)"

definition popcountl :: "u64 \<Rightarrow> nat" where
  "popcountl w = length (filter (bit w) [0..<64])"

text \<open>The counting loop from word \<open>w\<close> on, with the sum so far.\<close>

function pmm_free_from :: "bitmap \<Rightarrow> nat \<Rightarrow> nat \<Rightarrow> nat option" where
  "pmm_free_from bm w free =
     (if w < PMM_WORDS then do {
        x \<leftarrow> aget bm (int w);
        let bits = NOT x;
        let bits = (if w = PMM_WORDS - 1
                    then let rem = PMM_NUM_FRAMES mod PMM_BITS_PER_WORD
                         in if rem \<noteq> 0 then bits AND (push_bit rem 1 - 1) else bits
                    else bits);
        pmm_free_from bm (w + 1) (free + popcountl bits)
      }
      else Some free)"
  by pat_completeness auto
termination by (relation "measure (\<lambda>(bm, w, free). PMM_WORDS - w)") auto

definition pmm_free_count :: "bitmap \<Rightarrow> nat option" where
  "pmm_free_count bm = pmm_free_from bm 0 0"

text \<open>\<open>alloc_page\<close> and \<open>free_page\<close> of \<open>kmalloc.c\<close> in the bare-metal build.\<close>

definition alloc_page :: "bitmap \<Rightarrow> (ptr \<times> bitmap) option" where
  "alloc_page bm = do { (addr, bm) \<leftarrow> pmm_alloc_frame bm; Some (if addr \<noteq> 0 then addr else NULL, bm) }"

definition free_page :: "bitmap \<Rightarrow> ptr \<Rightarrow> bitmap option" where
  "free_page bm page = (if page \<noteq> NULL then pmm_free_frame bm page else Some bm)"

section \<open>The set of allocated frames\<close>

declare bm_set_range.simps [simp del] pmm_alloc_from.simps [simp del] pmm_free_from.simps [simp del]

definition frames :: "bitmap \<Rightarrow> nat set" where
  "frames bm = {f. f < PMM_NUM_FRAMES \<and> bit (bm ! (f div 64)) (f mod 64)}"

abbreviation bm_ok :: "bitmap \<Rightarrow> bool" where
  "bm_ok bm \<equiv> length bm = PMM_WORDS"

lemma frame_index: "f < 1024 \<Longrightarrow> f div 64 < (16 :: nat)"
  by auto

lemma same_frame: "f div 64 = g div 64 \<and> f mod 64 = g mod 64 \<longleftrightarrow> f = (g :: nat)"
  by (metis div_mult_mod_eq)

lemma bm_set_frames:
  assumes "bm_ok bm" and "f < PMM_NUM_FRAMES"
  shows "\<exists>bm'. bm_set bm f = Some bm' \<and> bm_ok bm' \<and> frames bm' = insert f (frames bm)"
proof -
  let ?w = "bm ! (f div 64) OR push_bit (f mod 64) 1"
  have s: "bm_set bm f = Some (bm[f div 64 := ?w])"
    using assms frame_index by (simp add: bm_set_def Let_def)
  have "bit (bm[f div 64 := ?w] ! (g div 64)) (g mod 64) \<longleftrightarrow> bit (bm ! (g div 64)) (g mod 64) \<or> g = f" for g
    using assms same_frame [of g f] frame_index [OF assms(2)]
    by (cases "g div 64 = f div 64") (auto simp: bit_simps)
  then have "frames (bm[f div 64 := ?w]) = insert f (frames bm)" using assms(2) by (auto simp: frames_def)
  then show ?thesis using s assms(1) by simp
qed

lemma bm_clear_frames:
  assumes "bm_ok bm" and "f < PMM_NUM_FRAMES"
  shows "\<exists>bm'. bm_clear bm f = Some bm' \<and> bm_ok bm' \<and> frames bm' = frames bm - {f}"
proof -
  let ?w = "bm ! (f div 64) AND NOT (push_bit (f mod 64) 1)"
  have s: "bm_clear bm f = Some (bm[f div 64 := ?w])"
    using assms frame_index by (simp add: bm_clear_def Let_def)
  have "bit (bm[f div 64 := ?w] ! (g div 64)) (g mod 64) \<longleftrightarrow> bit (bm ! (g div 64)) (g mod 64) \<and> g \<noteq> f" for g
    using assms same_frame [of g f] frame_index [OF assms(2)]
    by (cases "g div 64 = f div 64") (auto simp: bit_simps)
  then have "frames (bm[f div 64 := ?w]) = frames bm - {f}" by (auto simp: frames_def)
  then show ?thesis using s assms(1) by simp
qed

lemma bm_set_range_frames:
  assumes "bm_ok bm" and "l < PMM_NUM_FRAMES"
  shows "\<exists>bm'. bm_set_range bm f l = Some bm' \<and> bm_ok bm' \<and> frames bm' = frames bm \<union> {f..l}"
  using assms
proof (induction bm f l rule: bm_set_range.induct)
  case (1 bm f l)
  show ?case
  proof (cases "f \<le> l")
    case True
    obtain bm1 where b: "bm_set bm f = Some bm1" "bm_ok bm1" "frames bm1 = insert f (frames bm)"
      using bm_set_frames [OF "1.prems"(1), of f] True "1.prems"(2) by auto
    obtain bm2 where "bm_set_range bm1 (f + 1) l = Some bm2" "bm_ok bm2" "frames bm2 = frames bm1 \<union> {f + 1..l}"
      using "1.IH" [OF True b(1,2) "1.prems"(2)] by blast
    moreover have "insert f (frames bm) \<union> {f + 1..l} = frames bm \<union> {f..l}"
      using True by (auto simp: atLeastAtMost_insertL [symmetric])
    ultimately show ?thesis using b True by (subst bm_set_range.simps) simp
  next
    case False
    then show ?thesis using "1.prems" by (subst bm_set_range.simps) simp
  qed
qed

lemma frames_word: "w < PMM_WORDS \<Longrightarrow> b < 64 \<Longrightarrow> w * 64 + b \<in> frames bm \<longleftrightarrow> bit (bm ! w) b"
  by (auto simp: frames_def)

lemma pmm_alloc_from_frames:
  assumes "bm_ok bm" and "\<forall>f < w * 64. f \<in> frames bm" and "w \<le> PMM_WORDS"
  shows "if frames bm = {..<PMM_NUM_FRAMES} then pmm_alloc_from bm w = Some (0, bm)
         else \<exists>f bm'. f < PMM_NUM_FRAMES \<and> f \<notin> frames bm \<and> (\<forall>g < f. g \<in> frames bm) \<and>
                pmm_alloc_from bm w = Some (PMM_PHYS_BASE + of_nat f * PMM_FRAME_SIZE, bm') \<and>
                bm_ok bm' \<and> frames bm' = insert f (frames bm)"
  using assms
proof (induction bm w rule: pmm_alloc_from.induct)
  case (1 bm w)
  have split64: "f < w * 64 \<or> (\<exists>b < 64. f = w * 64 + b)" if "f < (w + 1) * 64" for f
    using that by (cases "f < w * 64") (auto intro!: exI [of _ "f - w * 64"])
  show ?case
  proof (cases "w < 16")
    case False
    then have "frames bm = {..<1024}" using "1.prems" by (auto simp: frames_def)
    then show ?thesis using False by (subst pmm_alloc_from.simps) simp
  next
    case w: True
    show ?thesis
    proof (cases "bm ! w = - 1")
      case True
      have all: "\<forall>f < (w + 1) * 64. f \<in> frames bm"
      proof (intro allI impI)
        fix f
        assume "f < (w + 1) * 64"
        from split64 [OF this] show "f \<in> frames bm"
        proof (elim disjE exE conjE)
          fix b
          assume "b < 64" and "f = w * 64 + b"
          then show ?thesis using frames_word [OF w, of b bm] True by simp
        qed (use "1.prems"(2) in blast)
      qed
      have e: "pmm_alloc_from bm w = pmm_alloc_from bm (w + 1)"
        using True w "1.prems"(1) by (subst pmm_alloc_from.simps) simp
      show ?thesis
        unfolding e by (rule "1.IH"(1) [OF w, of "bm ! w"]) (use True w "1.prems"(1) all in simp_all)
    next
      case False
      then have "NOT (bm ! w) \<noteq> 0" by (metis bit.compl_zero bit.double_compl)
      then obtain b where b: "ctzll (NOT (bm ! w)) = int b" "bit (NOT (bm ! w)) b"
          "\<And>k. k < b \<Longrightarrow> \<not> bit (NOT (bm ! w)) k"
        by (rule ctzll_least) blast
      have b64: "b < 64" using b(2) bit_imp_le_length [of "NOT (bm ! w)" b] by simp
      let ?f = "w * 64 + b"
      have f: "?f < 1024" "?f \<notin> frames bm"
        using w b64 b(2) frames_word [OF w b64, of bm] by (auto simp: bit_simps)
      have below: "g \<in> frames bm" if gf: "g < ?f" for g
      proof (cases "g < w * 64")
        case False
        define k where "k = g - w * 64"
        have k: "g = w * 64 + k" "k < b" using False gf by (auto simp: k_def)
        then show ?thesis using b(3) [of k] b64 frames_word [OF w, of k bm] by (simp add: bit_simps)
      qed (use "1.prems"(2) in blast)
      obtain bm' where bm': "bm_set bm ?f = Some bm'" "bm_ok bm'" "frames bm' = insert ?f (frames bm)"
        using bm_set_frames [OF "1.prems"(1) f(1)] by blast
      have "pmm_alloc_from bm w = Some (PMM_PHYS_BASE + of_nat ?f * PMM_FRAME_SIZE, bm')"
        using False w b(1) f(1) bm'(1) "1.prems"(1) by (subst pmm_alloc_from.simps) (simp add: Let_def)
      moreover have "frames bm \<noteq> {..<1024}" using f by blast
      ultimately show ?thesis using f below bm' by (simp only: if_False) blast
    qed
  qed
qed

lemma popcountl_card: "popcountl x = card {b. b < 64 \<and> bit x b}"
proof -
  have "popcountl x = card (set (filter (bit x) [0..<64]))"
    unfolding popcountl_def by (simp add: distinct_card [symmetric])
  also have "set (filter (bit x) [0..<64]) = {b. b < 64 \<and> bit x b}" by auto
  finally show ?thesis .
qed

lemma pmm_free_from_card:
  assumes "bm_ok bm" and "w \<le> PMM_WORDS"
  shows "pmm_free_from bm w n = Some (n + card {f. w * 64 \<le> f \<and> f < PMM_NUM_FRAMES \<and> f \<notin> frames bm})"
  using assms
proof (induction bm w n rule: pmm_free_from.induct)
  case (1 bm w n)
  show ?case
  proof (cases "w < 16")
    case False
    then have "{f. w * 64 \<le> f \<and> f < 1024 \<and> f \<notin> frames bm} = {}" using "1.prems"(2) by auto
    then show ?thesis using False by (subst pmm_free_from.simps) simp
  next
    case w: True
    let ?here = "{b. b < 64 \<and> bit (NOT (bm ! w)) b}"
    let ?rest = "{f. (w + 1) * 64 \<le> f \<and> f < 1024 \<and> f \<notin> frames bm}"
    have "{f. w * 64 \<le> f \<and> f < 1024 \<and> f \<notin> frames bm} = (\<lambda>b. w * 64 + b) ` ?here \<union> ?rest"
    proof (intro equalityI subsetI)
      fix f
      assume f: "f \<in> {f. w * 64 \<le> f \<and> f < 1024 \<and> f \<notin> frames bm}"
      show "f \<in> (\<lambda>b. w * 64 + b) ` ?here \<union> ?rest"
      proof (cases "f < (w + 1) * 64")
        case True
        then obtain b where "f = w * 64 + b" "b < 64" using f by (auto intro!: that [of "f - w * 64"])
        then show ?thesis using f frames_word [OF w, of b bm] by (auto simp: bit_simps)
      qed (use f in auto)
    next
      fix f
      assume "f \<in> (\<lambda>b. w * 64 + b) ` ?here \<union> ?rest"
      then show "f \<in> {f. w * 64 \<le> f \<and> f < 1024 \<and> f \<notin> frames bm}"
        using w frames_word [OF w, of _ bm] by (auto simp: bit_simps)
    qed
    moreover have "card ((\<lambda>b. w * 64 + b) ` ?here \<union> ?rest) = card ?here + card ?rest"
      by (subst card_Un_disjoint) (auto simp: card_image)
    moreover have "pmm_free_from bm w n = pmm_free_from bm (w + 1) (n + popcountl (NOT (bm ! w)))"
      using w "1.prems"(1) by (subst pmm_free_from.simps) (simp add: Let_def)
    moreover have "pmm_free_from bm (w + 1) (n + popcountl (NOT (bm ! w)))
        = Some (n + popcountl (NOT (bm ! w)) + card ?rest)"
      using "1.IH" [OF w, of "bm ! w" "NOT (bm ! w)" "NOT (bm ! w)"] w "1.prems"(1) by simp
    ultimately show ?thesis by (simp add: popcountl_card)
  qed
qed

text \<open>The frames an address range touches.\<close>

definition touched :: "nat \<Rightarrow> nat \<Rightarrow> nat set" where
  "touched base n = {f. f < PMM_NUM_FRAMES \<and> 0x100000 + f * 4096 < base + n \<and> base < 0x100000 + (f + 1) * 4096}"

lemma touched_interval:
  assumes "0 < n" and "0x100000 < B + n" and "B < 0x500000"
  shows "{(max B 0x100000 - 0x100000) div 4096..(min (B + n) 0x500000 - 1 - 0x100000) div 4096} = touched B n"
proof -
  have lo: "x div 4096 \<le> k \<longleftrightarrow> x < (k + 1) * 4096" for x k :: nat
    using div_less_iff_less_mult [of 4096 x "k + 1"] by (simp add: less_Suc_eq_le)
  have hi: "k \<le> x div 4096 \<longleftrightarrow> k * 4096 \<le> x" for x k :: nat
    by (rule less_eq_div_iff_mult_less_eq) simp
  have "max B 0x100000 - 0x100000 < (k + 1) * 4096 \<and> k * 4096 \<le> min (B + n) 0x500000 - 1 - 0x100000 \<longleftrightarrow>
      k < 1024 \<and> 0x100000 + k * 4096 < B + n \<and> B < 0x100000 + (k + 1) * 4096" for k
    using assms unfolding max_def min_def by (auto split: if_splits)
  then show ?thesis by (auto simp only: touched_def lo hi atLeastAtMost_iff mem_Collect_eq set_eq_iff)
qed

lemma pmm_reserve_range_frames:
  assumes bm: "bm_ok bm" and n: "unat base + unat bytes < 2 ^ 64"
  shows "\<exists>bm'. pmm_reserve_range bm base bytes = Some bm' \<and> bm_ok bm' \<and>
           frames bm' = frames bm \<union> (if bytes = 0 then {} else touched (unat base) (unat bytes))"
proof -
  let ?B = "unat base" and ?E = "unat base + unat bytes"
  have e: "unat (base + bytes) = ?E" using n by (simp add: unat_add_lem [symmetric])
  define start where "start = (if base < PMM_PHYS_BASE then PMM_PHYS_BASE else base)"
  define en where "en = (if base + bytes > PMM_PHYS_BASE + PMM_PHYS_MEM then PMM_PHYS_BASE + PMM_PHYS_MEM else base + bytes)"
  have us: "unat start = max ?B 0x100000" by (simp add: start_def word_less_nat_alt)
  have ue: "unat en = min ?E 0x500000" using e by (simp add: en_def word_less_nat_alt)
  note reserve = pmm_reserve_range_def [of bm base bytes, unfolded Let_def, folded start_def en_def]
  show ?thesis
  proof (cases "bytes = 0 \<or> ?E \<le> 0x100000 \<or> 0x500000 \<le> ?B")
    case True
    then have "pmm_reserve_range bm base bytes = Some bm"
      unfolding reserve word_le_nat_alt us ue e by auto
    moreover have "touched ?B (unat bytes) = {}" if "bytes \<noteq> 0" using True that by (auto simp: touched_def)
    ultimately show ?thesis using bm by simp
  next
    case False
    have b: "0 < unat bytes" using False by (simp add: unat_gt_0)
    have lt: "unat start < unat en" using False b unfolding us ue by simp
    let ?f = "unat ((start - PMM_PHYS_BASE) div PMM_FRAME_SIZE)"
    let ?l = "unat ((en - 1 - PMM_PHYS_BASE) div PMM_FRAME_SIZE)"
    have s0: "unat (start - PMM_PHYS_BASE) = max ?B 0x100000 - 0x100000"
      using us by (simp add: unat_sub word_le_nat_alt)
    have "en \<noteq> 0" using lt by auto
    then have "unat (en - 1) = min ?E 0x500000 - 1" unfolding ue [symmetric] by (rule unat_minus_one)
    then have e0: "unat (en - 1 - PMM_PHYS_BASE) = min ?E 0x500000 - 1 - 0x100000"
      using lt us ue by (simp add: unat_sub word_le_nat_alt)
    have f: "?f = (max ?B 0x100000 - 0x100000) div 4096" and l: "?l = (min ?E 0x500000 - 1 - 0x100000) div 4096"
      unfolding unat_div s0 e0 by simp_all
    have l1024: "?l < 1024" unfolding l by simp
    have "pmm_reserve_range bm base bytes = bm_set_range bm ?f ?l"
      using False lt l1024 unfolding reserve word_le_nat_alt e by simp
    moreover have "{?f..?l} = touched ?B (unat bytes)"
      unfolding f l using False by (intro touched_interval b) simp_all
    ultimately show ?thesis using bm_set_range_frames [OF bm l1024, of ?f] False by auto
  qed
qed

lemma frames_inj:
  assumes "bm_ok bm" and "bm_ok bm'" and "frames bm = frames bm'"
  shows "bm = bm'"
proof (rule nth_equalityI)
  fix w
  assume "w < length bm"
  then have w: "w < PMM_WORDS" using assms(1) by simp
  show "bm ! w = bm' ! w"
  proof (rule bit_word_eqI)
    fix b
    assume "b < LENGTH(64)"
    then show "bit (bm ! w) b = bit (bm' ! w) b"
      using frames_word [OF w, of b bm] frames_word [OF w, of b bm'] assms(3) by simp
  qed
qed (use assms in simp)

lemma frames_finite: "finite (frames bm)"
  by (rule finite_subset [of _ "{..<1024}"]) (auto simp: frames_def)

lemma pmm_free_count_card:
  assumes "bm_ok bm"
  shows "pmm_free_count bm = Some (PMM_NUM_FRAMES - card (frames bm))"
proof -
  have "{f. 0 * 64 \<le> f \<and> f < 1024 \<and> f \<notin> frames bm} = {..<1024} - frames bm" by auto
  moreover have "frames bm \<subseteq> {..<1024}" by (auto simp: frames_def)
  ultimately show ?thesis
    using pmm_free_from_card [OF assms, of 0 0] card_Diff_subset [OF frames_finite, of bm "{..<1024}"]
    by (simp add: pmm_free_count_def)
qed

lemma frame_address:
  assumes "f < PMM_NUM_FRAMES"
  shows "unat (PMM_PHYS_BASE + of_nat f * PMM_FRAME_SIZE) = 0x100000 + f * 4096"
proof -
  have "PMM_PHYS_BASE + of_nat f * PMM_FRAME_SIZE = of_nat (0x100000 + f * 4096)" by simp
  moreover have "0x100000 + f * 4096 < 2 ^ LENGTH(64)" using assms by simp
  ultimately show ?thesis by (simp only: unat_of_nat mod_less)
qed

lemma pmm_free_frame_frames:
  assumes bm: "bm_ok bm" and f: "f < PMM_NUM_FRAMES"
    and a: "unat a div 4096 = 0x100 + f"
  shows "\<exists>bm'. pmm_free_frame bm a = Some bm' \<and> bm_ok bm' \<and> frames bm' = frames bm - {f}"
proof -
  have le: "0x100000 \<le> unat a" using a by linarith
  then have s: "unat (a - PMM_PHYS_BASE) = unat a - 0x100000" by (simp add: unat_sub word_le_nat_alt)
  have "(unat a - 0x100000) div 4096 = f" using a le by linarith
  then have "unat ((a - PMM_PHYS_BASE) div PMM_FRAME_SIZE) = f" unfolding unat_div s by simp
  then have "pmm_free_frame bm a = bm_clear bm f"
    using le f by (simp add: pmm_free_frame_def word_less_nat_alt)
  then show ?thesis using bm_clear_frames [OF bm f] by simp
qed

section \<open>Properties\<close>

text \<open>C17: \<open>pmm_alloc_frame\<close> never reads outside the bitmap. It returns 0 and changes nothing exactly
  when all 1024 frames are allocated; otherwise it returns the address of the lowest frame
  that is not allocated, which lies in the managed region, and marks that frame and no other.\<close>

theorem pmm_alloc_correct:
  assumes "bm_ok bm"
  shows "(if frames bm = {..<PMM_NUM_FRAMES} then pmm_alloc_frame bm = Some (0, bm)
          else \<exists>f bm' a. pmm_alloc_frame bm = Some (a, bm') \<and> unat a = 0x100000 + f * 4096 \<and>
                 f < PMM_NUM_FRAMES \<and> f \<notin> frames bm \<and> (\<forall>g < f. g \<in> frames bm) \<and>
                 bm_ok bm' \<and> frames bm' = insert f (frames bm))"
  using pmm_alloc_from_frames [OF assms, of 0] frame_address
  unfolding pmm_alloc_frame_def by (simp split: if_splits) blast

theorem pmm_alloc_correct_witness:
  "bm_ok s_bitmap \<and>
   (if frames s_bitmap = {..<PMM_NUM_FRAMES} then pmm_alloc_frame s_bitmap = Some (0, s_bitmap)
    else \<exists>f bm' a. pmm_alloc_frame s_bitmap = Some (a, bm') \<and> unat a = 0x100000 + f * 4096 \<and>
           f < PMM_NUM_FRAMES \<and> f \<notin> frames s_bitmap \<and> (\<forall>g < f. g \<in> frames s_bitmap) \<and>
           bm_ok bm' \<and> frames bm' = insert f (frames s_bitmap))"
proof -
  have "bm_ok s_bitmap" by (simp add: s_bitmap_def)
  with pmm_alloc_correct [OF this] show ?thesis by blast
qed

text \<open>C18: \<open>pmm_free_count\<close> is the number of frames not allocated, over the whole bitmap. As long as it
  is not zero, a page taken with \<open>alloc_page\<close> and given back with \<open>free_page\<close> restores the bitmap
  word for word, and the count is lower by one in between.\<close>

theorem pmm_page_roundtrip:
  assumes ok: "bm_ok bm"
  shows "pmm_free_count bm = Some (card ({..<PMM_NUM_FRAMES} - frames bm)) \<and>
         (frames bm \<noteq> {..<PMM_NUM_FRAMES} \<longrightarrow>
            (\<exists>page bm'. alloc_page bm = Some (page, bm') \<and> page \<noteq> NULL \<and> free_page bm' page = Some bm \<and>
               pmm_free_count bm' = Some (card ({..<PMM_NUM_FRAMES} - frames bm) - 1)))"
proof (intro conjI impI)
  have card: "card ({..<1024} - frames b) = 1024 - card (frames b)" for b
    using card_Diff_subset [OF frames_finite, of b "{..<1024}"] by (auto simp: frames_def)
  show "pmm_free_count bm = Some (card ({..<1024} - frames bm))" using pmm_free_count_card [OF ok] card by simp
  assume "frames bm \<noteq> {..<1024}"
  then obtain f bm' where f: "f < 1024" "f \<notin> frames bm" "bm_ok bm'" "frames bm' = insert f (frames bm)"
      and al: "pmm_alloc_frame bm = Some (PMM_PHYS_BASE + of_nat f * PMM_FRAME_SIZE, bm')" (is "_ = Some (?a, _)")
    using pmm_alloc_from_frames [OF ok, of 0] by (auto simp: pmm_alloc_frame_def)
  have a: "unat ?a = 0x100000 + f * 4096" by (rule frame_address [OF f(1)])
  then have a0: "?a \<noteq> 0" by (metis add_is_0 unat_0 zero_neq_numeral)
  have "unat ?a div 4096 = 0x100 + f" unfolding a by simp
  from pmm_free_frame_frames [OF f(3,1) this] obtain bm2 where
    bm2: "pmm_free_frame bm' ?a = Some bm2" "bm_ok bm2" "frames bm2 = frames bm' - {f}" by blast
  have "bm2 = bm" by (rule frames_inj) (use ok f bm2 in auto)
  moreover have "card (frames bm') = card (frames bm) + 1" using f frames_finite by simp
  ultimately show "\<exists>page bm'. alloc_page bm = Some (page, bm') \<and> page \<noteq> NULL \<and> free_page bm' page = Some bm \<and>
      pmm_free_count bm' = Some (card ({..<1024} - frames bm) - 1)"
    using al bm2(1) a0 pmm_free_count_card [OF f(3)] card
    by (intro exI [of _ ?a] exI [of _ bm']) (simp add: alloc_page_def free_page_def)
qed

theorem pmm_page_roundtrip_witness:
  "bm_ok s_bitmap \<and> pmm_free_count s_bitmap = Some PMM_NUM_FRAMES \<and>
   (\<exists>page bm'. alloc_page s_bitmap = Some (page, bm') \<and> page \<noteq> NULL \<and> free_page bm' page = Some s_bitmap \<and>
      pmm_free_count bm' = Some (PMM_NUM_FRAMES - 1))"
proof -
  have ok: "bm_ok s_bitmap" by (simp add: s_bitmap_def)
  have e: "frames s_bitmap = {}" by (auto simp: frames_def s_bitmap_def)
  then have "frames s_bitmap \<noteq> {..<1024}" by (metis card.empty card_lessThan zero_neq_numeral)
  with ok e pmm_page_roundtrip [OF ok] show ?thesis by simp
qed

text \<open>\<open>pmm_reserve_range\<close> marks exactly the frames that share a byte with the range
  \<open>base\<close> to \<open>base + bytes\<close>, whatever part of the range lies below or above the managed region,
  provided the end of the range is representable.\<close>

lemma pmm_reserve_exact:
  assumes "bm_ok bm" and "unat base + unat bytes < 2 ^ 64"
  shows "\<exists>bm'. pmm_reserve_range bm base bytes = Some bm' \<and> bm_ok bm' \<and>
           (\<forall>f < PMM_NUM_FRAMES. f \<in> frames bm' \<longleftrightarrow> f \<in> frames bm \<or>
              (\<exists>x. unat base \<le> x \<and> x < unat base + unat bytes \<and> x div 4096 = 0x100 + f))"
proof -
  have t: "(bytes \<noteq> 0 \<and> f \<in> touched (unat base) (unat bytes)) =
      (\<exists>x. unat base \<le> x \<and> x < unat base + unat bytes \<and> x div 4096 = 0x100 + f)"
    if "f < 1024" for f
  proof (intro iffI conjI)
    assume "bytes \<noteq> 0 \<and> f \<in> touched (unat base) (unat bytes)"
    then have "0 < unat bytes" "0x100000 + f * 4096 < unat base + unat bytes" "unat base < 0x100000 + (f + 1) * 4096"
      by (auto simp: touched_def unat_gt_0)
    then show "\<exists>x. unat base \<le> x \<and> x < unat base + unat bytes \<and> x div 4096 = 0x100 + f"
      by (intro exI [of _ "max (unat base) (0x100000 + f * 4096)"]) (auto simp: max_def div_nat_eqI)
  next
    assume "\<exists>x. unat base \<le> x \<and> x < unat base + unat bytes \<and> x div 4096 = 0x100 + f"
    then obtain x where x: "unat base \<le> x" "x < unat base + unat bytes" "x div 4096 = 0x100 + f" by blast
    have "(0x100 + f) * 4096 \<le> x" "x < (0x100 + f + 1) * 4096"
      unfolding x(3) [symmetric] by (simp_all add: dividend_less_div_times)
    then show "f \<in> touched (unat base) (unat bytes)" using x that by (auto simp: touched_def)
    show "bytes \<noteq> 0" using x by auto
  qed
  show ?thesis using pmm_reserve_range_frames [OF assms] t by (auto split: if_splits)
qed

text \<open>Without that proviso the sum wraps: a range from 1 MiB to the end of the address space
  reserves nothing.\<close>

lemma pmm_reserve_wraps: "pmm_reserve_range s_bitmap 0x100000 (- 0x100000) = Some s_bitmap"
  by (simp add: pmm_reserve_range_def)

end
