(* ===== verification/FL_CStr.thy ===== *)
theory FL_CStr
  imports Mem_Asm
begin

text \<open>
  The C string helpers of \<open>kernel/drivers/fl_cstr.h\<close> on the byte memory of \<open>Mem_Asm\<close>: bounded
  length, comparison, and a bounded copy that works for overlapping buffers. The comparison
  reads as long as the bytes agree and is the value \<open>None\<close> if it never stops.
\<close>

section \<open>The code\<close>

function cstr_len_loop :: "u64 \<Rightarrow> u64 \<Rightarrow> u64 \<Rightarrow> memory \<Rightarrow> u64" where
  "cstr_len_loop s max_len n m =
     (if n < max_len \<and> m (s + n) \<noteq> 0 then cstr_len_loop s max_len (n + 1) m else n)"
  by pat_completeness auto
termination
proof (relation "measure (\<lambda>(s, max_len, n, m). unat max_len - unat n)")
  fix s max_len n :: u64 and m :: memory
  assume "n < max_len \<and> m (s + n) \<noteq> 0"
  then have "unat n < unat max_len" by (simp add: word_less_nat_alt)
  moreover have "unat (n + 1) = unat n + 1"
    using calculation unsigned_less [of max_len, where ?'a = nat] by (simp add: unat_word_ariths(1))
  ultimately show "((s, max_len, n + 1, m), s, max_len, n, m) \<in> measure (\<lambda>(s, max_len, n, m). unat max_len - unat n)"
    by simp
qed simp

declare cstr_len_loop.simps [simp del]

definition fl_cstr_len :: "ptr \<Rightarrow> u64 \<Rightarrow> memory \<Rightarrow> u64" where
  "fl_cstr_len s max_len m = (if s = NULL then 0 else cstr_len_loop s max_len 0 m)"

partial_function (option) cstr_eq_loop :: "u64 \<Rightarrow> u64 \<Rightarrow> u64 \<Rightarrow> memory \<Rightarrow> bool option" where
  "cstr_eq_loop a b i m =
     (if m (a + i) \<noteq> 0 \<and> m (b + i) \<noteq> 0 then
        if m (a + i) \<noteq> m (b + i) then Some False else cstr_eq_loop a b (i + 1) m
      else Some (m (a + i) = m (b + i)))"

definition fl_cstr_eq :: "ptr \<Rightarrow> ptr \<Rightarrow> memory \<Rightarrow> bool option" where
  "fl_cstr_eq a b m = (if a = NULL \<or> b = NULL then Some False else cstr_eq_loop a b 0 m)"

text \<open>The two byte loops of the copy, upwards from \<open>i\<close> and downwards from \<open>i\<close>.\<close>

fun copy_up :: "u64 \<Rightarrow> u64 \<Rightarrow> nat \<Rightarrow> nat \<Rightarrow> memory \<Rightarrow> memory" where
  "copy_up dst src i 0 m = m"
| "copy_up dst src i (Suc k) m = copy_up dst src (Suc i) k (m(dst + of_nat i := m (src + of_nat i)))"

fun copy_down :: "u64 \<Rightarrow> u64 \<Rightarrow> nat \<Rightarrow> memory \<Rightarrow> memory" where
  "copy_down dst src 0 m = m"
| "copy_down dst src (Suc i) m = copy_down dst src i (m(dst + of_nat i := m (src + of_nat i)))"

definition fl_cstr_copy :: "ptr \<Rightarrow> u64 \<Rightarrow> ptr \<Rightarrow> memory \<Rightarrow> memory" where
  "fl_cstr_copy dst dst_len src m =
     (if dst = NULL \<or> dst_len = 0 then m
      else
        let n = fl_cstr_len src (dst_len - 1) m;
            m = (if n \<noteq> 0 then
                   let dst_end = dst + n; src_end = src + n;
                       overlaps = (src \<noteq> NULL \<and> dst < src_end \<and> dst_end > src)
                   in if \<not> overlaps then asm_mem_copy dst src n m
                      else if dst \<le> src then copy_up dst src 0 (unat n) m
                      else copy_down dst src (unat n) m
                 else m)
        in m(dst + n := 0))"

section \<open>Strings in memory\<close>

text \<open>The string \<open>s\<close> with its terminator lies at \<open>p\<close>, and its addresses do not wrap.\<close>

definition cstr_at :: "memory \<Rightarrow> ptr \<Rightarrow> u8 list \<Rightarrow> bool" where
  "cstr_at m p s \<longleftrightarrow> p \<noteq> NULL \<and> 0 \<notin> set s \<and> unat p + length s < 2 ^ 64 \<and>
     (\<forall>i < length s. m (p + of_nat i) = s ! i) \<and> m (p + of_nat (length s)) = 0"

lemma cstr_at_nonzero: "cstr_at m p s \<Longrightarrow> i < length s \<Longrightarrow> m (p + of_nat i) \<noteq> 0"
  by (metis cstr_at_def nth_mem)

lemma cstr_len_loop_at:
  assumes "cstr_at m p s" and "n \<le> min (length s) (unat max_len)"
  shows "cstr_len_loop p max_len (of_nat n) m = of_nat (min (length s) (unat max_len))"
  using assms(2)
proof (induction "min (length s) (unat max_len) - n" arbitrary: n rule: less_induct)
  case less
  have "n < 2 ^ 64" using less.prems unsigned_less [of max_len, where ?'a = nat] by simp
  then have u: "unat (of_nat n :: u64) = n" by (simp add: unat_of_nat)
  show ?case
  proof (cases "n < min (length s) (unat max_len)")
    case True
    then have "m (p + of_nat n) \<noteq> 0" "of_nat n < max_len"
      using cstr_at_nonzero [OF assms(1)] u by (simp_all add: word_less_nat_alt)
    then have "cstr_len_loop p max_len (of_nat n) m = cstr_len_loop p max_len (of_nat (n + 1)) m"
      by (subst cstr_len_loop.simps) (simp add: add.commute)
    moreover have "min (length s) (unat max_len) - (n + 1) < min (length s) (unat max_len) - n" using True by linarith
    ultimately show ?thesis using less.hyps [of "n + 1"] True by simp
  next
    case False
    then have n: "n = min (length s) (unat max_len)" using less.prems by linarith
    then have "\<not> (of_nat n < max_len \<and> m (p + of_nat n) \<noteq> 0)"
      using assms(1) u by (auto simp: cstr_at_def word_less_nat_alt min_def split: if_splits)
    then show ?thesis unfolding n by (subst cstr_len_loop.simps) auto
  qed
qed

lemma fl_cstr_len_at: "cstr_at m p s \<Longrightarrow> fl_cstr_len p max_len m = of_nat (min (length s) (unat max_len))"
  using cstr_len_loop_at [of m p s 0 max_len] by (simp add: fl_cstr_len_def cstr_at_def)

lemma cstr_eq_loop_at:
  assumes "cstr_at m a s" and "cstr_at m b t" and "i \<le> length s" and "i \<le> length t" and "take i s = take i t"
  shows "cstr_eq_loop a b (of_nat i) m = Some (s = t)"
  using assms(3-)
proof (induction "length s - i" arbitrary: i rule: less_induct)
  case less
  have s: "m (a + of_nat j) = (if j < length s then s ! j else 0)" if "j \<le> length s" for j
    using assms(1) that by (auto simp: cstr_at_def)
  have t: "m (b + of_nat j) = (if j < length t then t ! j else 0)" if "j \<le> length t" for j
    using assms(2) that by (auto simp: cstr_at_def)
  have nz: "j < length s \<Longrightarrow> s ! j \<noteq> 0" "j < length t \<Longrightarrow> t ! j \<noteq> 0" for j
    using assms(1,2) by (metis cstr_at_def nth_mem)+
  show ?case
  proof (cases "i < length s \<and> i < length t \<and> s ! i = t ! i")
    case True
    then have "take (i + 1) s = take (i + 1) t" using less.prems by (simp add: take_Suc_conv_app_nth)
    moreover have "cstr_eq_loop a b (of_nat i) m = cstr_eq_loop a b (of_nat (i + 1)) m"
      using True s [of i] t [of i] nz by (subst cstr_eq_loop.simps) (simp add: add.commute)
    moreover have "length s - (i + 1) < length s - i" using True by linarith
    ultimately show ?thesis using less.hyps [of "i + 1"] True by (simp only:) simp
  next
    case False
    then have "s = t \<longleftrightarrow> i = length s \<and> i = length t"
      using less.prems by (metis le_neq_implies_less take_all order_refl)
    then show ?thesis
      using False s [of i] t [of i] nz less.prems by (subst cstr_eq_loop.simps) auto
  qed
qed

lemma fl_cstr_eq_at: "cstr_at m a s \<Longrightarrow> cstr_at m b t \<Longrightarrow> fl_cstr_eq a b m = Some (s = t)"
  using cstr_eq_loop_at [of m a s b t 0] by (simp add: fl_cstr_eq_def cstr_at_def)

section \<open>The copy\<close>

text \<open>Distance from \<open>d\<close> to a byte of the source, in a memory where neither buffer wraps.\<close>

lemma source_offset:
  fixes s d :: u64
  assumes "unat s + n \<le> 2 ^ 64" and "unat d + n \<le> 2 ^ 64" and "i < n"
  shows "unat (s + of_nat i - d) = (if unat d \<le> unat s + i then unat s + i - unat d else unat s + i + 2 ^ 64 - unat d)"
proof -
  have "unat (s + of_nat i) = unat s + i"
    using assms(1,3) by (simp add: unat_word_ariths(1) unat_of_nat)
  then show ?thesis using unsigned_less [of d, where ?'a = nat] by (simp add: unat_sub_if')
qed

lemma apart_disjoint:
  assumes "unat s + n \<le> 2 ^ 64" and "unat d + n \<le> 2 ^ 64" and "unat s + n \<le> unat d \<or> unat d + n \<le> unat s"
  shows "apart s d n"
  unfolding apart_def using source_offset [OF assms(1,2)] assms(2,3) by auto

lemma copy_up_copied:
  assumes w: "unat s + n \<le> 2 ^ 64" "unat d + n \<le> 2 ^ 64" and "unat d \<le> unat s" and "j + r \<le> n" and "n < 2 ^ 64"
  shows "copy_up d s j r (copied s d j m) = copied s d (j + r) m"
  using assms(4)
proof (induction r arbitrary: j)
  case (Suc r)
  have "\<not> unat (s + of_nat j - d) < j" using source_offset [OF w, of j] Suc.prems assms(3) by simp
  then have "copied s d j m (s + of_nat j) = m (s + of_nat j)" by (simp add: mem_fill_def)
  then have "(copied s d j m)(d + of_nat j := copied s d j m (s + of_nat j))
      = mem_fill (d + of_nat j) 1 (\<lambda>i. m (s + of_nat (j + i))) (copied s d j m)"
    by (auto simp: mem_fill_def fun_eq_iff unat_eq_0)
  also have "\<dots> = copied s d (j + 1) m"
    by (rule copied_extend) (use Suc.prems assms(5) in auto)
  finally show ?case using Suc.IH [of "j + 1"] Suc.prems by simp
qed simp

lemma copy_down_copied:
  assumes w: "unat s + n \<le> 2 ^ 64" "unat d + n \<le> 2 ^ 64" and "unat s < unat d" and "i \<le> n" and "n < 2 ^ 64"
  shows "copy_down d s i (\<lambda>x. if i \<le> unat (x - d) \<and> unat (x - d) < n then m (s + (x - d)) else m x) = copied s d n m"
  using assms(4)
proof (induction i)
  case 0
  show ?case by (auto simp: mem_fill_def)
next
  case (Suc i)
  let ?M = "\<lambda>i x. if i \<le> unat (x - d) \<and> unat (x - d) < n then m (s + (x - d)) else m x"
  have "\<not> (Suc i \<le> unat (s + of_nat i - d) \<and> unat (s + of_nat i - d) < n)"
    using source_offset [OF w, of i] Suc.prems assms(3) w by (cases "unat d \<le> unat s + i") (simp_all, linarith+)
  then have "?M (Suc i) (s + of_nat i) = m (s + of_nat i)" by (rule if_not_P)
  moreover have "unat (of_nat i :: u64) = i" using Suc.prems assms(5) by (simp add: unat_of_nat)
  ultimately have "(?M (Suc i))(d + of_nat i := ?M (Suc i) (s + of_nat i)) = ?M i"
    using Suc.prems by (auto simp: fun_eq_iff Suc_le_eq dest: le_neq_implies_less)
  then show ?case using Suc by simp
qed

lemma copied_terminated:
  assumes "length t = n" and "n < 2 ^ 64" and "\<And>i. i < n \<Longrightarrow> t ! i = m (s + of_nat i)"
  shows "(copied s d n m)(d + of_nat n := 0) = mem_write m d (t @ [0])"
proof
  fix x
  have "unat (of_nat n :: u64) = n" using assms(2) by (simp add: unat_of_nat)
  then have "unat (x - d) = n \<longleftrightarrow> x - d = of_nat n" using unat_inj [of "x - d" "of_nat n"] by simp
  then have "unat (x - d) = n \<longleftrightarrow> x = d + of_nat n" by (simp add: diff_eq_eq add.commute)
  then show "((copied s d n m)(d + of_nat n := 0)) x = mem_write m d (t @ [0]) x"
    using assms(1) assms(3) [of "unat (x - d)"]
    by (cases "unat (x - d) < n"; cases "unat (x - d) = n") (auto simp: mem_write_def mem_fill_def nth_append)
qed

lemma fl_cstr_copy_at:
  assumes "cstr_at m src s" and "dst \<noteq> NULL" and "dst_len \<noteq> 0" and "unat dst + unat dst_len \<le> 2 ^ 64"
  shows "fl_cstr_copy dst dst_len src m = mem_write m dst (take (unat dst_len - 1) s @ [0])"
proof -
  let ?n = "min (length s) (unat dst_len - 1)"
  have len: "unat (dst_len - 1) = unat dst_len - 1" using assms(3) by (simp add: unat_minus_one)
  have n: "fl_cstr_len src (dst_len - 1) m = of_nat ?n" using fl_cstr_len_at [OF assms(1)] len by simp
  have lt: "?n < 2 ^ 64" using unsigned_less [of dst_len, where ?'a = nat] by simp
  then have un: "unat (of_nat ?n :: u64) = ?n" by (simp add: unat_of_nat)
  have ws: "unat src + ?n < 2 ^ 64" using assms(1) unfolding cstr_at_def by linarith
  have wd: "unat dst + ?n < 2 ^ 64" using assms(4) unat_gt_0 [of dst_len] assms(3) by linarith
  have e: "unat (src + of_nat ?n) = unat src + ?n" "unat (dst + of_nat ?n) = unat dst + ?n"
    using ws wd un by (simp_all add: unat_word_ariths(1))
  let ?c = "copied src dst ?n m"
  have up: "copy_up dst src 0 ?n m = ?c" if "dst \<le> src"
    using copy_up_copied [of src ?n dst 0 ?n m] ws wd lt that by (simp add: word_le_nat_alt)
  have down: "copy_down dst src ?n m = ?c" if "\<not> dst \<le> src"
  proof -
    have "(\<lambda>x. if ?n \<le> unat (x - dst) \<and> unat (x - dst) < ?n then m (src + (x - dst)) else m x) = m" by (auto simp: fun_eq_iff)
    then show ?thesis using copy_down_copied [of src ?n dst ?n m] ws wd lt that by (simp add: word_le_nat_alt)
  qed
  have away: "asm_mem_copy dst src (of_nat ?n) m = ?c" if "\<not> (dst < src + of_nat ?n \<and> dst + of_nat ?n > src)"
  proof -
    have "unat src + ?n \<le> unat dst \<or> unat dst + ?n \<le> unat src" using that unfolding word_less_nat_alt e by linarith
    then have "apart src dst ?n" by (intro apart_disjoint) (use ws wd in linarith)+
    then show ?thesis using asm_mem_copy_copied [of src dst "of_nat ?n" m] un by simp
  qed
  have "fl_cstr_copy dst dst_len src m = ?c(dst + of_nat ?n := 0)"
    using assms(1-3) up down away un by (auto simp: fl_cstr_copy_def n Let_def cstr_at_def)
  also have "\<dots> = mem_write m dst (take (unat dst_len - 1) s @ [0])"
    by (rule copied_terminated) (use assms(1) lt in \<open>simp_all add: cstr_at_def\<close>)
  finally show ?thesis .
qed

section \<open>Properties\<close>

text \<open>C32: The string helpers of the drivers. For strings that lie in memory without wrapping,
  \<open>fl_cstr_len\<close> gives the length cut at its bound, \<open>fl_cstr_eq\<close> ends and decides equality,
  and \<open>fl_cstr_copy\<close> stores the string cut to the destination with a terminator, and changes
  nothing else, even when source and destination overlap in either direction.\<close>

theorem fl_cstr_correct:
  assumes "cstr_at m src s" and "cstr_at m p t"
    and "dst \<noteq> NULL" and "dst_len \<noteq> 0" and "unat dst + unat dst_len \<le> 2 ^ 64"
  shows "fl_cstr_len src max_len m = of_nat (min (length s) (unat max_len)) \<and>
         fl_cstr_eq src p m = Some (s = t) \<and>
         fl_cstr_copy dst dst_len src m = mem_write m dst (take (unat dst_len - 1) s @ [0])"
  using fl_cstr_len_at [OF assms(1)] fl_cstr_eq_at [OF assms(1,2)] fl_cstr_copy_at [OF assms(1,3-5)] by blast

theorem fl_cstr_correct_witness:
  "let m = mem_write (\<lambda>_. 0) 0x1000 [0x61, 0x62, 0x63]
   in cstr_at m 0x1000 [0x61, 0x62, 0x63] \<and>
      fl_cstr_eq 0x1000 0x1001 m = Some False \<and>
      fl_cstr_copy 0x1001 3 0x1000 m = mem_write m 0x1001 [0x61, 0x62, 0]"
proof -
  let ?m = "mem_write (\<lambda>_. 0) 0x1000 [0x61, 0x62, 0x63] :: memory"
  have m: "?m 0x1000 = 0x61" "?m 0x1001 = 0x62" "?m 0x1002 = 0x63" "?m 0x1003 = 0"
    by (simp_all add: mem_write_def mem_fill_def)
  then have s: "cstr_at ?m 0x1000 [0x61, 0x62, 0x63]" "cstr_at ?m 0x1001 [0x62, 0x63]"
    unfolding cstr_at_def by (simp_all add: All_less_Suc del: One_nat_def)
  then show ?thesis using fl_cstr_correct [OF s, of "0x1001" 3] unfolding Let_def by simp
qed

end
