(* ===== verification/Drv_Model.thy ===== *)
theory Drv_Model
  imports FL_CStr
begin

text \<open>
  The driver model of \<open>kernel/drivers/driver_model.c\<close>, with the device descriptions of
  \<open>include/fl/driver/bus.h\<close>: registry of drivers, bound devices, claimed resources, device files,
  interrupt slots and DMA buffers. The static tables are the record \<open>drv_model\<close>: arrays of
  their full size with their counters. Each function runs with the model's spin lock held or
  on one CPU, so it is one step. The strings of the tables are HOL strings, compared and
  copied the way \<open>FL_CStr\<close> shows for strings in memory.

  The functions of a driver are called through pointers: \<open>drv_code\<close> gives the code behind a
  pointer. A device is an object on the heap, \<open>s_dev_heap\<close>; \<open>s_blocks\<close> are the blocks of the
  driver memory domain that are in use, and \<open>s_dma_mem\<close> is the memory they lie in.
\<close>

section \<open>Descriptions\<close>

abbreviation FL_MODEL_MAX_DEVICES :: nat where "FL_MODEL_MAX_DEVICES \<equiv> 32"
abbreviation FL_MODEL_MAX_DRIVERS :: nat where "FL_MODEL_MAX_DRIVERS \<equiv> 32"
abbreviation FL_MODEL_MAX_DEVFS :: nat where "FL_MODEL_MAX_DEVFS \<equiv> 32"
abbreviation FL_MODEL_MAX_IRQ :: nat where "FL_MODEL_MAX_IRQ \<equiv> 64"
abbreviation FL_MODEL_MAX_RESOURCES :: nat where "FL_MODEL_MAX_RESOURCES \<equiv> 64"
abbreviation FL_MODEL_MAX_DMA :: nat where "FL_MODEL_MAX_DMA \<equiv> 32"
abbreviation FL_RESOURCE_MAX :: nat where "FL_RESOURCE_MAX \<equiv> 8"
abbreviation FL_SECTOR_SIZE :: u64 where "FL_SECTOR_SIZE \<equiv> 512"

datatype fl_bus_type = FL_BUS_PCI | FL_BUS_DT | FL_BUS_SYNTH

datatype fl_resource_type = FL_RESOURCE_IOPORT | FL_RESOURCE_MMIO | FL_RESOURCE_IRQ | FL_RESOURCE_DMA | FL_RESOURCE_SYNTH

record fl_resource =
  res_type :: fl_resource_type
  res_start :: u64
  res_size :: u64
  res_name :: string

record fl_device_desc =
  bus_type :: fl_bus_type
  pci_bus :: u8
  pci_dev :: u8
  pci_fn :: u8
  vendor_id :: u16
  device_id :: u16
  class_code :: u8
  sub_class :: u8
  prog_if :: u8
  dt_compatible :: string
  synth_id :: string
  resources :: "fl_resource list"
  resource_count :: int
  platform_data :: ptr

record fl_device =
  dv_desc :: fl_device_desc
  dv_driver_data :: ptr
  dv_hal_data :: ptr

datatype fl_driver_state =
  FL_DRV_STATE_NONE | FL_DRV_STATE_PROBED | FL_DRV_STATE_ATTACHED | FL_DRV_STATE_STARTED | FL_DRV_STATE_STOPPED

datatype fl_driver_class =
  FL_DRV_CLASS_NONE | FL_DRV_CLASS_BLOCK | FL_DRV_CLASS_CONSOLE | FL_DRV_CLASS_TIMER | FL_DRV_CLASS_IRQ | FL_DRV_CLASS_NET

record fl_driver_ops =
  op_probe :: ptr
  op_attach :: ptr
  op_start :: ptr
  op_stop :: ptr
  op_detach :: ptr

record fl_driver_desc =
  drv_class :: fl_driver_class
  drv_name :: "string option"
  drv_ops :: "fl_driver_ops option"
  drv_pci_class :: u16
  drv_pci_subclass :: u16
  drv_dt_compatible :: "string option"
  drv_synth_id :: "string option"

text \<open>Strings as values: the comparison, and the copy into an array of \<open>n\<close> characters.\<close>

definition cstr_eq :: "string option \<Rightarrow> string option \<Rightarrow> bool" where
  "cstr_eq a b = (case (a, b) of (Some s, Some t) \<Rightarrow> s = t | _ \<Rightarrow> False)"

definition cstr_copy :: "nat \<Rightarrow> string \<Rightarrow> string" where
  "cstr_copy n s = take (n - 1) s"

section \<open>Tables\<close>

record fl_bound_device =
  bd_dev :: ptr
  bd_driver :: "fl_driver_desc option"
  bd_state :: fl_driver_state

record fl_devfs_ops =
  fo_read :: ptr
  fo_write :: ptr
  fo_byte_read :: ptr
  fo_byte_write :: ptr
  fo_ioctl :: ptr

record fl_devfs_node =
  nd_path :: string
  nd_class :: fl_driver_class
  nd_dev :: ptr
  nd_ops :: fl_devfs_ops

record fl_irq_slot =
  irq_handler :: ptr
  irq_ctx :: ptr
  irq_owner :: ptr
  irq_enabled :: bool
  irq_dispatch_count :: u64
  irq_eoi_count :: u64

record fl_resource_claim_t =
  cl_resource :: fl_resource
  cl_owner :: ptr

record fl_dma_record =
  dma_ptr :: ptr
  dma_size :: u64
  dma_owner :: ptr

record drv_model =
  s_drivers :: "fl_driver_desc option list"
  s_driver_count :: int
  s_devices :: "fl_bound_device list"
  s_device_count :: int
  s_devfs :: "fl_devfs_node list"
  s_devfs_count :: int
  s_irq :: "fl_irq_slot list"
  s_resources :: "fl_resource_claim_t list"
  s_resource_count :: int
  s_dma :: "fl_dma_record list"
  s_dma_count :: int
  s_model_initialized :: bool
  s_dev_heap :: "ptr \<rightharpoonup> fl_device"
  s_blocks :: "ptr set"
  s_dma_mem :: memory

text \<open>Entries filled with zeros.\<close>

definition zero_resource :: fl_resource where
  "zero_resource = \<lparr>res_type = FL_RESOURCE_IOPORT, res_start = 0, res_size = 0, res_name = ''''\<rparr>"

definition zero_bound :: fl_bound_device where
  "zero_bound = \<lparr>bd_dev = NULL, bd_driver = None, bd_state = FL_DRV_STATE_NONE\<rparr>"

definition zero_ops :: fl_devfs_ops where
  "zero_ops = \<lparr>fo_read = NULL, fo_write = NULL, fo_byte_read = NULL, fo_byte_write = NULL, fo_ioctl = NULL\<rparr>"

definition zero_node :: fl_devfs_node where
  "zero_node = \<lparr>nd_path = '''', nd_class = FL_DRV_CLASS_BLOCK, nd_dev = NULL, nd_ops = zero_ops\<rparr>"

definition zero_irq :: fl_irq_slot where
  "zero_irq = \<lparr>irq_handler = NULL, irq_ctx = NULL, irq_owner = NULL, irq_enabled = False, irq_dispatch_count = 0, irq_eoi_count = 0\<rparr>"

definition zero_claim :: fl_resource_claim_t where
  "zero_claim = \<lparr>cl_resource = zero_resource, cl_owner = NULL\<rparr>"

definition zero_dma :: fl_dma_record where
  "zero_dma = \<lparr>dma_ptr = NULL, dma_size = 0, dma_owner = NULL\<rparr>"

text \<open>The model before anything has run, with a given DMA memory.\<close>

definition model_static :: "memory \<Rightarrow> drv_model" where
  "model_static m =
     \<lparr>s_drivers = replicate FL_MODEL_MAX_DRIVERS None, s_driver_count = 0,
      s_devices = replicate FL_MODEL_MAX_DEVICES zero_bound, s_device_count = 0,
      s_devfs = replicate FL_MODEL_MAX_DEVFS zero_node, s_devfs_count = 0,
      s_irq = replicate FL_MODEL_MAX_IRQ zero_irq,
      s_resources = replicate FL_MODEL_MAX_RESOURCES zero_claim, s_resource_count = 0,
      s_dma = replicate FL_MODEL_MAX_DMA zero_dma, s_dma_count = 0,
      s_model_initialized = False, s_dev_heap = Map.empty, s_blocks = {}, s_dma_mem = m\<rparr>"

text \<open>The code behind the function pointers: \<open>probe\<close> and \<open>attach\<close>; \<open>start\<close>, \<open>stop\<close> and \<open>detach\<close>;
  interrupt handlers; reads and writes of device files, with the unit (a sector) for the block
  functions, which return their result and the number of bytes; and the end-of-interrupt
  function of the PIC driver, if there is one.\<close>

record drv_code =
  k_int :: "ptr \<Rightarrow> ptr \<Rightarrow> drv_model \<Rightarrow> (int \<times> drv_model) outcome option"
  k_void :: "ptr \<Rightarrow> ptr \<Rightarrow> drv_model \<Rightarrow> drv_model outcome option"
  k_irq :: "ptr \<Rightarrow> int \<Rightarrow> ptr \<Rightarrow> drv_model \<Rightarrow> drv_model"
  k_io :: "ptr \<Rightarrow> ptr \<Rightarrow> u32 option \<Rightarrow> ptr \<Rightarrow> u64 \<Rightarrow> drv_model \<Rightarrow> int \<times> u64 \<times> drv_model"
  k_ioctl :: "ptr \<Rightarrow> ptr \<Rightarrow> u64 \<Rightarrow> ptr \<Rightarrow> drv_model \<Rightarrow> int \<times> drv_model"
  k_pic_eoi :: "(int \<Rightarrow> drv_model \<Rightarrow> drv_model) option"

section \<open>Registry\<close>

definition driver_matches :: "fl_driver_desc option \<Rightarrow> fl_device_desc \<Rightarrow> bool" where
  "driver_matches driver dev =
     (case driver of
        None \<Rightarrow> False
      | Some driver \<Rightarrow>
          if drv_synth_id driver \<noteq> None \<and> bus_type dev = FL_BUS_SYNTH
          then cstr_eq (drv_synth_id driver) (Some (synth_id dev))
          else if drv_dt_compatible driver \<noteq> None \<and> bus_type dev = FL_BUS_DT
          then cstr_eq (drv_dt_compatible driver) (Some (dt_compatible dev))
          else if bus_type dev = FL_BUS_PCI then
            if drv_pci_class driver \<noteq> 0 \<and> drv_pci_class driver \<noteq> ucast (class_code dev) then False
            else if drv_pci_subclass driver \<noteq> 0 \<and> drv_pci_subclass driver \<noteq> ucast (sub_class dev) then False
            else drv_pci_class driver \<noteq> 0 \<or> drv_pci_subclass driver \<noteq> 0
          else False)"

text \<open>A full table ends in \<open>model_overflow_panic\<close>, which does not return.\<close>

definition fl_driver_registry_register :: "fl_driver_desc \<Rightarrow> drv_model \<Rightarrow> (int \<times> drv_model) outcome option" where
  "fl_driver_registry_register desc s =
     (if drv_name desc = None \<or> drv_ops desc = None then Some (Ret (- 1, s))
      else if s_driver_count s \<ge> int FL_MODEL_MAX_DRIVERS then Some Block
      else do {
        ds \<leftarrow> aset (s_drivers s) (s_driver_count s) (Some desc);
        Some (Ret (0, s\<lparr>s_drivers := ds, s_driver_count := s_driver_count s + 1\<rparr>))
      })"

text \<open>The loops of the file that look for the first entry of a table with a property: from \<open>i\<close> on,
  below the counter \<open>n\<close>.\<close>

function find_from :: "('a \<Rightarrow> bool) \<Rightarrow> 'a list \<Rightarrow> int \<Rightarrow> int \<Rightarrow> int option option" where
  "find_from P xs i n =
     (if i < n then do {
        x \<leftarrow> aget xs i;
        if P x then Some (Some i) else find_from P xs (i + 1) n
      }
      else Some None)"
  by pat_completeness auto
termination by (relation "measure (\<lambda>(P, xs, i, n). nat (n - i))") auto

declare find_from.simps [simp del]

text \<open>\<open>Some None\<close> is the result \<open>-1\<close>.\<close>

definition fl_driver_registry_match :: "fl_device_desc \<Rightarrow> drv_model \<Rightarrow> fl_driver_desc option option" where
  "fl_driver_registry_match dev s = do {
     r \<leftarrow> find_from (\<lambda>d. driver_matches d dev) (s_drivers s) 0 (s_driver_count s);
     case r of None \<Rightarrow> Some None | Some i \<Rightarrow> aget (s_drivers s) i
   }"

definition fl_device_count :: "drv_model \<Rightarrow> int" where
  "fl_device_count s = s_device_count s"

definition fl_device_get_desc :: "drv_model \<Rightarrow> ptr \<Rightarrow> fl_device_desc option option" where
  "fl_device_get_desc s dev =
     (if dev = NULL then Some None else map_option (\<lambda>d. Some (dv_desc d)) (s_dev_heap s dev))"

record fl_device_info =
  inf_dev :: ptr
  inf_desc :: "fl_device_desc option"
  inf_driver_name :: "string option"
  inf_driver_class :: fl_driver_class
  inf_state :: fl_driver_state

definition fl_device_get_info :: "int \<Rightarrow> drv_model \<Rightarrow> fl_device_info option option" where
  "fl_device_get_info index s =
     (if index < 0 \<or> index \<ge> s_device_count s then Some None
      else do {
        bound \<leftarrow> aget (s_devices s) index;
        desc \<leftarrow> fl_device_get_desc s (bd_dev bound);
        Some (Some \<lparr>inf_dev = bd_dev bound, inf_desc = desc,
                    inf_driver_name = (case bd_driver bound of None \<Rightarrow> None | Some d \<Rightarrow> drv_name d),
                    inf_driver_class = (case bd_driver bound of None \<Rightarrow> FL_DRV_CLASS_NONE | Some d \<Rightarrow> drv_class d),
                    inf_state = bd_state bound\<rparr>)
      })"

definition fl_device_at :: "int \<Rightarrow> drv_model \<Rightarrow> ptr option" where
  "fl_device_at index s =
     (if index < 0 \<or> index \<ge> s_device_count s then Some NULL
      else map_option bd_dev (aget (s_devices s) index))"

text \<open>The search follows every device pointer of the table up to the hit.\<close>

function find_synth_from :: "string \<Rightarrow> int \<Rightarrow> drv_model \<Rightarrow> ptr option" where
  "find_synth_from sid i s =
     (if i < s_device_count s then do {
        bound \<leftarrow> aget (s_devices s) i;
        desc \<leftarrow> fl_device_get_desc s (bd_dev bound);
        case desc of
          Some d \<Rightarrow> if bus_type d = FL_BUS_SYNTH \<and> cstr_eq (Some (synth_id d)) (Some sid) then Some (bd_dev bound)
                    else find_synth_from sid (i + 1) s
        | None \<Rightarrow> find_synth_from sid (i + 1) s
      }
      else Some NULL)"
  by pat_completeness auto
termination by (relation "measure (\<lambda>(sid, i, s). nat (s_device_count s - i))") auto

declare find_synth_from.simps [simp del]

definition fl_device_find_synth :: "string \<Rightarrow> drv_model \<Rightarrow> ptr option" where
  "fl_device_find_synth sid s = find_synth_from sid 0 s"

definition fl_device_get_driver :: "ptr \<Rightarrow> drv_model \<Rightarrow> fl_driver_desc option option" where
  "fl_device_get_driver dev s =
     (if dev = NULL then Some None
      else do {
        r \<leftarrow> find_from (\<lambda>b. bd_dev b = dev) (s_devices s) 0 (s_device_count s);
        case r of None \<Rightarrow> Some None | Some i \<Rightarrow> map_option bd_driver (aget (s_devices s) i)
      })"

definition fl_device_get_state :: "ptr \<Rightarrow> drv_model \<Rightarrow> fl_driver_state option" where
  "fl_device_get_state dev s =
     (if dev = NULL then Some FL_DRV_STATE_NONE
      else do {
        r \<leftarrow> find_from (\<lambda>b. bd_dev b = dev) (s_devices s) 0 (s_device_count s);
        case r of None \<Rightarrow> Some FL_DRV_STATE_NONE | Some i \<Rightarrow> map_option bd_state (aget (s_devices s) i)
      })"

section \<open>Resources\<close>

definition resource_overlaps :: "fl_resource \<Rightarrow> fl_resource \<Rightarrow> bool" where
  "resource_overlaps a b =
     (if res_type a \<noteq> res_type b then False
      else if res_type a = FL_RESOURCE_IRQ then res_start a = res_start b
      else if res_size a = 0 \<or> res_size b = 0 then False
      else
        let a_end = res_start a + res_size a - 1; b_end = res_start b + res_size b - 1
        in res_start a \<le> b_end \<and> res_start b \<le> a_end)"

definition claim_resource_desc :: "ptr \<Rightarrow> fl_resource \<Rightarrow> drv_model \<Rightarrow> (int \<times> drv_model) option" where
  "claim_resource_desc dev resource s =
     (if dev = NULL \<or> s_resource_count s \<ge> int FL_MODEL_MAX_RESOURCES then Some (- 1, s)
      else do {
        r \<leftarrow> find_from (\<lambda>c. resource_overlaps (cl_resource c) resource) (s_resources s) 0 (s_resource_count s);
        case r of
          Some i \<Rightarrow> Some (- 1, s)
        | None \<Rightarrow> do {
            rs \<leftarrow> aset (s_resources s) (s_resource_count s) \<lparr>cl_resource = resource, cl_owner = dev\<rparr>;
            Some (0, s\<lparr>s_resources := rs, s_resource_count := s_resource_count s + 1\<rparr>)
          }
      })"

text \<open>The number \<open>index\<close> of the entries from \<open>i\<close> on that have the property: \<open>seen\<close> counts.\<close>

function nth_from :: "('a \<Rightarrow> bool) \<Rightarrow> 'a list \<Rightarrow> int \<Rightarrow> int \<Rightarrow> int \<Rightarrow> int \<Rightarrow> 'a option option" where
  "nth_from P xs i n seen index =
     (if i < n then do {
        x \<leftarrow> aget xs i;
        if \<not> P x then nth_from P xs (i + 1) n seen index
        else if seen = index then Some (Some x)
        else nth_from P xs (i + 1) n (seen + 1) index
      }
      else Some None)"
  by pat_completeness auto
termination by (relation "measure (\<lambda>(P, xs, i, n, seen, index). nat (n - i))") auto

declare nth_from.simps [simp del]

definition fl_resource_claim :: "ptr \<Rightarrow> fl_resource_type \<Rightarrow> int \<Rightarrow> drv_model \<Rightarrow> (int \<times> drv_model) option" where
  "fl_resource_claim dev type' index s = do {
     d \<leftarrow> fl_device_get_desc s dev;
     case d of
       None \<Rightarrow> Some (- 1, s)
     | Some desc \<Rightarrow>
         if index < 0 then Some (- 1, s)
         else do {
           r \<leftarrow> nth_from (\<lambda>r. res_type r = type') (resources desc) 0 (resource_count desc) 0 index;
           case r of None \<Rightarrow> Some (- 1, s) | Some res \<Rightarrow> claim_resource_desc dev res s
         }
   }"

text \<open>The entry at \<open>i\<close> is overwritten with the last one and \<open>i\<close> is looked at again.\<close>

function release_loop :: "ptr \<Rightarrow> fl_resource_claim_t list \<Rightarrow> int \<Rightarrow> int \<Rightarrow> (fl_resource_claim_t list \<times> int) option" where
  "release_loop dev rs i n =
     (if i < n then do {
        c \<leftarrow> aget rs i;
        if cl_owner c = dev then do {
          l \<leftarrow> aget rs (n - 1);
          rs \<leftarrow> aset rs i l;
          release_loop dev rs i (n - 1)
        }
        else release_loop dev rs (i + 1) n
      }
      else Some (rs, n))"
  by pat_completeness auto
termination by (relation "measure (\<lambda>(dev, rs, i, n). nat (n - i))") auto

declare release_loop.simps [simp del]

definition fl_resource_release_all :: "ptr \<Rightarrow> drv_model \<Rightarrow> drv_model option" where
  "fl_resource_release_all dev s =
     (if dev = NULL then Some s
      else do {
        (rs, n) \<leftarrow> release_loop dev (s_resources s) 0 (s_resource_count s);
        Some (s\<lparr>s_resources := rs, s_resource_count := n\<rparr>)
      })"

function count_from :: "('a \<Rightarrow> bool) \<Rightarrow> 'a list \<Rightarrow> int \<Rightarrow> int \<Rightarrow> int \<Rightarrow> int option" where
  "count_from P xs i n cnt =
     (if i < n then do {
        x \<leftarrow> aget xs i;
        count_from P xs (i + 1) n (if P x then cnt + 1 else cnt)
      }
      else Some cnt)"
  by pat_completeness auto
termination by (relation "measure (\<lambda>(P, xs, i, n, cnt). nat (n - i))") auto

declare count_from.simps [simp del]

definition fl_resource_count :: "ptr \<Rightarrow> drv_model \<Rightarrow> int option" where
  "fl_resource_count dev s = count_from (\<lambda>c. dev = NULL \<or> cl_owner c = dev) (s_resources s) 0 (s_resource_count s) 0"

definition fl_resource_get :: "ptr \<Rightarrow> int \<Rightarrow> drv_model \<Rightarrow> fl_resource option option" where
  "fl_resource_get dev index s =
     (if index < 0 then Some None
      else map_option (map_option cl_resource)
             (nth_from (\<lambda>c. \<not> (dev \<noteq> NULL \<and> cl_owner c \<noteq> dev)) (s_resources s) 0 (s_resource_count s) 0 index))"

function claim_loop :: "ptr \<Rightarrow> fl_device_desc \<Rightarrow> int \<Rightarrow> drv_model \<Rightarrow> (int \<times> drv_model) option" where
  "claim_loop dev desc i s =
     (if i < resource_count desc then do {
        r \<leftarrow> aget (resources desc) i;
        (rc, s) \<leftarrow> claim_resource_desc dev r s;
        if rc \<noteq> 0 then Some (- 1, s) else claim_loop dev desc (i + 1) s
      }
      else Some (0, s))"
  by pat_completeness auto
termination by (relation "measure (\<lambda>(dev, desc, i, s). nat (resource_count desc - i))") auto

declare claim_loop.simps [simp del]

definition claim_device_resources :: "ptr \<Rightarrow> drv_model \<Rightarrow> (int \<times> drv_model) option" where
  "claim_device_resources dev s = do {
     d \<leftarrow> fl_device_get_desc s dev;
     case d of None \<Rightarrow> Some (- 1, s) | Some desc \<Rightarrow> claim_loop dev desc 0 s
   }"

end
