(* ===== verification/Drv_Ops.thy ===== *)
theory Drv_Ops
  imports Drv_Model
begin

text \<open>
  The rest of \<open>kernel/drivers/driver_model.c\<close>: device files, interrupts, DMA buffers, the life
  cycle of the devices, and the block driver that the file registers; with \<open>bus.c\<close>, which
  enumerates and creates devices.
\<close>

section \<open>Device files\<close>

text \<open>An open file points to a node of the table, here by its index.\<close>

record fl_devfs_file =
  fd_node :: "int option"
  fd_pos :: u64
  fd_flags :: u32

abbreviation FL_DEVFS_O_READ :: u32 where "FL_DEVFS_O_READ \<equiv> 1"
abbreviation FL_DEVFS_O_WRITE :: u32 where "FL_DEVFS_O_WRITE \<equiv> 2"
abbreviation FL_DEVFS_IOCTL_BLOCK_CAPS :: u64 where "FL_DEVFS_IOCTL_BLOCK_CAPS \<equiv> 1"
abbreviation DEVFS_PATH_SIZE :: nat where "DEVFS_PATH_SIZE \<equiv> 32"

definition fl_devfs_register ::
  "string \<Rightarrow> fl_driver_class \<Rightarrow> ptr \<Rightarrow> fl_devfs_ops \<Rightarrow> drv_model \<Rightarrow> (int \<times> drv_model) outcome option" where
  "fl_devfs_register path class_id dev ops s =
     (if dev = NULL then Some (Ret (- 1, s))
      else if s_devfs_count s \<ge> int FL_MODEL_MAX_DEVFS then Some Block
      else if min (length path) DEVFS_PATH_SIZE \<ge> DEVFS_PATH_SIZE then Some (Ret (- 1, s))
      else do {
        r \<leftarrow> find_from (\<lambda>n. cstr_eq (Some (nd_path n)) (Some path)) (s_devfs s) 0 (s_devfs_count s);
        case r of
          Some i \<Rightarrow> Some (Ret (- 1, s))
        | None \<Rightarrow> do {
            ns \<leftarrow> aset (s_devfs s) (s_devfs_count s)
                    \<lparr>nd_path = cstr_copy DEVFS_PATH_SIZE path, nd_class = class_id, nd_dev = dev, nd_ops = ops\<rparr>;
            Some (Ret (0, s\<lparr>s_devfs := ns, s_devfs_count := s_devfs_count s + 1\<rparr>))
          }
      })"

definition fl_devfs_unregister :: "string \<Rightarrow> drv_model \<Rightarrow> drv_model option" where
  "fl_devfs_unregister path s = do {
     r \<leftarrow> find_from (\<lambda>n. cstr_eq (Some (nd_path n)) (Some path)) (s_devfs s) 0 (s_devfs_count s);
     case r of
       None \<Rightarrow> Some s
     | Some i \<Rightarrow> do {
         l \<leftarrow> aget (s_devfs s) (s_devfs_count s - 1);
         ns \<leftarrow> aset (s_devfs s) i l;
         Some (s\<lparr>s_devfs := ns, s_devfs_count := s_devfs_count s - 1\<rparr>)
       }
   }"

definition fl_devfs_open :: "string \<Rightarrow> u32 \<Rightarrow> drv_model \<Rightarrow> fl_devfs_file option option" where
  "fl_devfs_open path flags s = do {
     r \<leftarrow> find_from (\<lambda>n. cstr_eq (Some (nd_path n)) (Some path)) (s_devfs s) 0 (s_devfs_count s);
     Some (map_option (\<lambda>i. \<lparr>fd_node = Some i, fd_pos = 0, fd_flags = flags\<rparr>) r)
   }"

text \<open>Reading and writing: \<open>want\<close> tells whether the caller passes a place for the number of bytes.\<close>

definition fl_devfs_read ::
  "drv_code \<Rightarrow> bool \<Rightarrow> fl_devfs_file \<Rightarrow> ptr \<Rightarrow> u64 \<Rightarrow> drv_model \<Rightarrow> (int \<times> u64 \<times> fl_devfs_file \<times> drv_model) option" where
  "fl_devfs_read k want file buf sz s =
     (case fd_node file of
        None \<Rightarrow> Some (- 1, 0, file, s)
      | Some i \<Rightarrow>
          if fd_flags file AND FL_DEVFS_O_READ = 0 then Some (- 1, 0, file, s)
          else do {
            node \<leftarrow> aget (s_devfs s) i;
            let unit' = (ucast (fd_pos file div FL_SECTOR_SIZE) :: u32);
            let finish = (\<lambda>(rc, got, s). Some (rc, got, (if rc = 0 then file\<lparr>fd_pos := fd_pos file + (if want then got else 0)\<rparr> else file), s));
            if fo_byte_read (nd_ops node) \<noteq> NULL then finish (k_io k (fo_byte_read (nd_ops node)) (nd_dev node) None buf sz s)
            else if fo_read (nd_ops node) \<noteq> NULL then finish (k_io k (fo_read (nd_ops node)) (nd_dev node) (Some unit') buf sz s)
            else Some (- 1, 0, file, s)
          })"

definition fl_devfs_write ::
  "drv_code \<Rightarrow> bool \<Rightarrow> fl_devfs_file \<Rightarrow> ptr \<Rightarrow> u64 \<Rightarrow> drv_model \<Rightarrow> (int \<times> u64 \<times> fl_devfs_file \<times> drv_model) option" where
  "fl_devfs_write k want file buf sz s =
     (case fd_node file of
        None \<Rightarrow> Some (- 1, 0, file, s)
      | Some i \<Rightarrow>
          if fd_flags file AND FL_DEVFS_O_WRITE = 0 then Some (- 1, 0, file, s)
          else do {
            node \<leftarrow> aget (s_devfs s) i;
            let unit' = (ucast (fd_pos file div FL_SECTOR_SIZE) :: u32);
            let finish = (\<lambda>(rc, put, s). Some (rc, put, (if rc = 0 then file\<lparr>fd_pos := fd_pos file + (if want then put else 0)\<rparr> else file), s));
            if fo_byte_write (nd_ops node) \<noteq> NULL then finish (k_io k (fo_byte_write (nd_ops node)) (nd_dev node) None buf sz s)
            else if fo_write (nd_ops node) \<noteq> NULL then finish (k_io k (fo_write (nd_ops node)) (nd_dev node) (Some unit') buf sz s)
            else Some (- 1, 0, file, s)
          })"

definition fl_devfs_ioctl :: "drv_code \<Rightarrow> fl_devfs_file \<Rightarrow> u64 \<Rightarrow> ptr \<Rightarrow> drv_model \<Rightarrow> (int \<times> drv_model) option" where
  "fl_devfs_ioctl k file request arg' s =
     (case fd_node file of
        None \<Rightarrow> Some (- 1, s)
      | Some i \<Rightarrow> do {
          node \<leftarrow> aget (s_devfs s) i;
          if fo_ioctl (nd_ops node) = NULL then Some (- 1, s)
          else Some (k_ioctl k (fo_ioctl (nd_ops node)) (nd_dev node) request arg' s)
        })"

definition fl_devfs_close :: "fl_devfs_file \<Rightarrow> fl_devfs_file" where
  "fl_devfs_close file = \<lparr>fd_node = None, fd_pos = 0, fd_flags = 0\<rparr>"

section \<open>Interrupts\<close>

definition fl_irq_init :: "drv_model \<Rightarrow> drv_model" where
  "fl_irq_init s = s\<lparr>s_irq := replicate FL_MODEL_MAX_IRQ zero_irq\<rparr>"

text \<open>A search result lies within the table.\<close>

lemma nth_from_bound:
  "nth_from P xs i n seen index = Some (Some x) \<Longrightarrow> seen \<le> index \<Longrightarrow> index - seen < n - i"
proof (induction P xs i n seen index rule: nth_from.induct)
  case (1 P xs i n seen index)
  obtain y where i: "i < n" and y: "aget xs i = Some y"
    using "1.prems"(1) by (subst (asm) nth_from.simps) (auto split: if_splits bind_splits)
  have e: "nth_from P xs i n seen index = (if \<not> P y then nth_from P xs (i + 1) n seen index
      else if seen = index then Some (Some y) else nth_from P xs (i + 1) n (seen + 1) index)"
    using i y by (subst nth_from.simps) simp
  show ?case
  proof (cases "P y")
    case False
    then show ?thesis using "1.IH"(1) [OF i y] "1.prems" e by simp
  next
    case True
    then show ?thesis using "1.IH"(2) [OF i y] "1.prems" e i by (cases "seen = index") simp_all
  qed
qed

function irq_at_loop :: "ptr \<Rightarrow> int \<Rightarrow> int \<Rightarrow> int \<Rightarrow> drv_model \<Rightarrow> int option option" where
  "irq_at_loop dev irq_resource_index i seen s = do {
     r \<leftarrow> fl_resource_get dev i s;
     case r of
       None \<Rightarrow> Some None
     | Some res \<Rightarrow>
         if res_type res \<noteq> FL_RESOURCE_IRQ then irq_at_loop dev irq_resource_index (i + 1) seen s
         else if seen = irq_resource_index then Some (Some (sint (ucast (res_start res) :: u32)))
         else irq_at_loop dev irq_resource_index (i + 1) (seen + 1) s
   }"
  by pat_completeness auto
termination
proof (relation "measure (\<lambda>(dev, idx, i, seen, s). nat (s_resource_count s - i))")
  have "i < s_resource_count s" if "fl_resource_get dev i s = Some (Some res)" for dev i s res
    using that nth_from_bound [of _ "s_resources s" 0 "s_resource_count s" 0 i]
    by (fastforce simp: fl_resource_get_def split: if_splits)
  then show "\<And>dev idx i seen s x res. fl_resource_get dev i s = Some x \<Longrightarrow> x = Some res \<Longrightarrow> res_type res \<noteq> FL_RESOURCE_IRQ \<Longrightarrow>
      ((dev, idx, i + 1, seen, s), dev, idx, i, seen, s) \<in> measure (\<lambda>(dev, idx, i, seen, s). nat (s_resource_count s - i))"
    "\<And>dev idx i seen s x res. fl_resource_get dev i s = Some x \<Longrightarrow> x = Some res \<Longrightarrow> \<not> res_type res \<noteq> FL_RESOURCE_IRQ \<Longrightarrow> seen \<noteq> idx \<Longrightarrow>
      ((dev, idx, i + 1, seen + 1, s), dev, idx, i, seen, s) \<in> measure (\<lambda>(dev, idx, i, seen, s). nat (s_resource_count s - i))"
    by fastforce+
qed simp

declare irq_at_loop.simps [simp del]

definition device_irq_at :: "ptr \<Rightarrow> int \<Rightarrow> drv_model \<Rightarrow> int option option" where
  "device_irq_at dev irq_resource_index s =
     (if dev = NULL \<or> irq_resource_index < 0 then Some None else irq_at_loop dev irq_resource_index 0 0 s)"

definition irq_owner_from_resources :: "int \<Rightarrow> drv_model \<Rightarrow> ptr option" where
  "irq_owner_from_resources irq s = do {
     r \<leftarrow> find_from (\<lambda>c. res_type (cl_resource c) = FL_RESOURCE_IRQ \<and> res_start (cl_resource c) = of_int irq)
           (s_resources s) 0 (s_resource_count s);
     case r of None \<Rightarrow> Some NULL | Some i \<Rightarrow> map_option cl_owner (aget (s_resources s) i)
   }"

definition irq_ok :: "int \<Rightarrow> bool" where
  "irq_ok irq \<longleftrightarrow> 0 \<le> irq \<and> irq < int FL_MODEL_MAX_IRQ"

text \<open>An update of the slot \<open>irq\<close>.\<close>

definition set_irq :: "int \<Rightarrow> (fl_irq_slot \<Rightarrow> fl_irq_slot) \<Rightarrow> drv_model \<Rightarrow> drv_model option" where
  "set_irq irq f s = do {
     slot \<leftarrow> aget (s_irq s) irq;
     slots' \<leftarrow> aset (s_irq s) irq (f slot);
     Some (s\<lparr>s_irq := slots'\<rparr>)
   }"

definition fl_irq_register :: "int \<Rightarrow> ptr \<Rightarrow> ptr \<Rightarrow> drv_model \<Rightarrow> (int \<times> drv_model) option" where
  "fl_irq_register irq handler ctx s =
     (if \<not> irq_ok irq \<or> handler = NULL then Some (- 1, s)
      else do {
        owner \<leftarrow> irq_owner_from_resources irq s;
        if owner = NULL then Some (- 1, s)
        else do {
          slot \<leftarrow> aget (s_irq s) irq;
          if irq_handler slot \<noteq> NULL then Some (- 1, s)
          else do {
            s \<leftarrow> set_irq irq (\<lambda>q. q\<lparr>irq_handler := handler, irq_ctx := ctx, irq_owner := owner\<rparr>) s;
            Some (0, s)
          }
        }
      })"

definition fl_irq_register_device :: "ptr \<Rightarrow> int \<Rightarrow> ptr \<Rightarrow> ptr \<Rightarrow> drv_model \<Rightarrow> (int \<times> drv_model) option" where
  "fl_irq_register_device dev irq_resource_index handler ctx s = do {
     r \<leftarrow> device_irq_at dev irq_resource_index s;
     case r of
       None \<Rightarrow> Some (- 1, s)
     | Some irq \<Rightarrow> do {
         (rc, s) \<leftarrow> fl_irq_register irq handler ctx s;
         Some (if rc \<noteq> 0 then - 1 else 0, s)
       }
   }"

definition fl_irq_unregister :: "int \<Rightarrow> drv_model \<Rightarrow> drv_model option" where
  "fl_irq_unregister irq s = (if \<not> irq_ok irq then Some s else set_irq irq (\<lambda>_. zero_irq) s)"

definition fl_irq_unregister_device :: "ptr \<Rightarrow> drv_model \<Rightarrow> drv_model" where
  "fl_irq_unregister_device dev s =
     (if dev = NULL then s else s\<lparr>s_irq := map (\<lambda>q. if irq_owner q = dev then zero_irq else q) (s_irq s)\<rparr>)"

definition fl_irq_enable :: "int \<Rightarrow> drv_model \<Rightarrow> drv_model option" where
  "fl_irq_enable irq s = (if irq_ok irq then set_irq irq (\<lambda>q. q\<lparr>irq_enabled := True\<rparr>) s else Some s)"

definition fl_irq_disable :: "int \<Rightarrow> drv_model \<Rightarrow> drv_model option" where
  "fl_irq_disable irq s = (if irq_ok irq then set_irq irq (\<lambda>q. q\<lparr>irq_enabled := False\<rparr>) s else Some s)"

definition fl_irq_eoi :: "drv_code \<Rightarrow> int \<Rightarrow> drv_model \<Rightarrow> drv_model option" where
  "fl_irq_eoi k irq s = do {
     s \<leftarrow> (if irq_ok irq then set_irq irq (\<lambda>q. q\<lparr>irq_eoi_count := irq_eoi_count q + 1\<rparr>) s else Some s);
     Some (case k_pic_eoi k of None \<Rightarrow> s | Some eoi \<Rightarrow> eoi irq s)
   }"

definition fl_irq_owner :: "int \<Rightarrow> drv_model \<Rightarrow> ptr option" where
  "fl_irq_owner irq s = (if \<not> irq_ok irq then Some NULL else map_option irq_owner (aget (s_irq s) irq))"

definition fl_irq_dispatch_count :: "int \<Rightarrow> drv_model \<Rightarrow> u64 option" where
  "fl_irq_dispatch_count irq s = (if \<not> irq_ok irq then Some 0 else map_option irq_dispatch_count (aget (s_irq s) irq))"

text \<open>The slot is what the caller's structure is filled from; \<open>Some None\<close> is the result \<open>-1\<close>.\<close>

definition fl_irq_get_info :: "int \<Rightarrow> drv_model \<Rightarrow> (int \<times> bool \<times> u64 \<times> u64 \<times> ptr) option option" where
  "fl_irq_get_info irq s =
     (if \<not> irq_ok irq then Some None
      else map_option (\<lambda>q. Some (irq, irq_enabled q, irq_dispatch_count q, irq_eoi_count q, irq_owner q)) (aget (s_irq s) irq))"

definition fl_irq_dispatch :: "drv_code \<Rightarrow> int \<Rightarrow> drv_model \<Rightarrow> (int \<times> drv_model) option" where
  "fl_irq_dispatch k irq s =
     (if \<not> irq_ok irq then Some (- 1, s)
      else do {
        slot \<leftarrow> aget (s_irq s) irq;
        if \<not> irq_enabled slot \<or> irq_handler slot = NULL then Some (- 1, s)
        else do {
          let s = k_irq k (irq_handler slot) irq (irq_ctx slot) s;
          s \<leftarrow> set_irq irq (\<lambda>q. q\<lparr>irq_dispatch_count := irq_dispatch_count q + 1\<rparr>) s;
          s \<leftarrow> fl_irq_eoi k irq s;
          Some (0, s)
        }
      })"

section \<open>DMA buffers\<close>

text \<open>
  The memory domain behind the buffers (\<open>mem_domain.c\<close>) keeps its own data next to and inside the
  blocks: \<open>al_take\<close> is what it does to the memory when it hands out a block of a given size,
  \<open>al_give\<close> when it takes a block back. \<open>s_blocks\<close> are the blocks that are handed out: giving back
  any other address corrupts the allocator and is undefined.
\<close>

record allocator =
  al_take :: "ptr \<Rightarrow> u64 \<Rightarrow> memory \<Rightarrow> memory"
  al_give :: "ptr \<Rightarrow> memory \<Rightarrow> memory"

text \<open>The bare-metal build: a block from the part of the arena that was never used has its size in
  the eight bytes before it; a freed block becomes a node of the free list, with the link over
  these bytes and the size in the first bytes of the block itself. \<open>fl\<close> is the address of the
  head of the free list. (The host build calls the C library.)\<close>

definition bump_take :: "ptr \<Rightarrow> u64 \<Rightarrow> memory \<Rightarrow> memory" where
  "bump_take p sz m = mem_write m (p - 8) (le_bytes 8 sz)"

definition arena_give :: "ptr \<Rightarrow> ptr \<Rightarrow> memory \<Rightarrow> memory" where
  "arena_give fl p m =
     (let hdr = p - 8;
          data_size = mem_read m hdr 8;
          m = mem_write m (hdr + 8) data_size;
          m = mem_write m hdr (mem_read m fl 8)
      in mem_write m fl (le_bytes 8 hdr))"

definition arena_allocator :: "ptr \<Rightarrow> allocator" where
  "arena_allocator fl = \<lparr>al_take = bump_take, al_give = arena_give fl\<rparr>"

definition mem_domain_free :: "allocator \<Rightarrow> ptr \<Rightarrow> drv_model \<Rightarrow> drv_model option" where
  "mem_domain_free al p s =
     (if p = NULL then Some s
      else if p \<in> s_blocks s then Some (s\<lparr>s_blocks := s_blocks s - {p}, s_dma_mem := al_give al p (s_dma_mem s)\<rparr>)
      else None)"

text \<open>\<open>p\<close> is what \<open>mem_domain_alloc\<close> returns.\<close>

definition fl_dma_alloc_device :: "allocator \<Rightarrow> ptr \<Rightarrow> ptr \<Rightarrow> u64 \<Rightarrow> drv_model \<Rightarrow> (ptr \<times> drv_model) option" where
  "fl_dma_alloc_device al p dev sz s =
     (if sz = 0 then Some (NULL, s)
      else if p = NULL then Some (NULL, s)
      else do {
        let s = s\<lparr>s_blocks := insert p (s_blocks s), s_dma_mem := al_take al p sz (s_dma_mem s)\<rparr>;
        let s = s\<lparr>s_dma_mem := asm_mem_zero p sz (s_dma_mem s)\<rparr>;
        if s_dma_count s \<ge> int FL_MODEL_MAX_DMA then do { s \<leftarrow> mem_domain_free al p s; Some (NULL, s) }
        else do {
          ds \<leftarrow> aset (s_dma s) (s_dma_count s) \<lparr>dma_ptr = p, dma_size = sz, dma_owner = dev\<rparr>;
          Some (p, s\<lparr>s_dma := ds, s_dma_count := s_dma_count s + 1\<rparr>)
        }
      })"

definition fl_dma_alloc :: "allocator \<Rightarrow> ptr \<Rightarrow> u64 \<Rightarrow> drv_model \<Rightarrow> (ptr \<times> drv_model) option" where
  "fl_dma_alloc al p sz s = fl_dma_alloc_device al p NULL sz s"

definition fl_dma_free :: "allocator \<Rightarrow> ptr \<Rightarrow> drv_model \<Rightarrow> drv_model option" where
  "fl_dma_free al p s =
     (if p = NULL then Some s
      else do {
        r \<leftarrow> find_from (\<lambda>d. dma_ptr d = p) (s_dma s) 0 (s_dma_count s);
        case r of
          None \<Rightarrow> Some s
        | Some i \<Rightarrow> do {
            d \<leftarrow> aget (s_dma s) i;
            l \<leftarrow> aget (s_dma s) (s_dma_count s - 1);
            ds \<leftarrow> aset (s_dma s) i l;
            let s = s\<lparr>s_dma := ds, s_dma_count := s_dma_count s - 1\<rparr>;
            let s = s\<lparr>s_dma_mem := asm_mem_zero p (dma_size d) (s_dma_mem s)\<rparr>;
            mem_domain_free al p s
          }
      })"

definition fl_dma_get_info :: "ptr \<Rightarrow> drv_model \<Rightarrow> fl_dma_record option option" where
  "fl_dma_get_info p s =
     (if p = NULL then Some None
      else do {
        r \<leftarrow> find_from (\<lambda>d. dma_ptr d = p) (s_dma s) 0 (s_dma_count s);
        case r of None \<Rightarrow> Some None | Some i \<Rightarrow> map_option Some (aget (s_dma s) i)
      })"

definition fl_dma_allocation_count :: "drv_model \<Rightarrow> int" where
  "fl_dma_allocation_count s = s_dma_count s"

definition fl_dma_zero :: "ptr \<Rightarrow> u64 \<Rightarrow> drv_model \<Rightarrow> drv_model" where
  "fl_dma_zero p sz s = (if p \<noteq> NULL \<and> sz \<noteq> 0 then s\<lparr>s_dma_mem := asm_mem_zero p sz (s_dma_mem s)\<rparr> else s)"

definition fl_dma_copy :: "ptr \<Rightarrow> ptr \<Rightarrow> u64 \<Rightarrow> drv_model \<Rightarrow> drv_model" where
  "fl_dma_copy dst src sz s =
     (if dst \<noteq> NULL \<and> src \<noteq> NULL \<and> sz \<noteq> 0 then s\<lparr>s_dma_mem := asm_mem_copy dst src sz (s_dma_mem s)\<rparr> else s)"

text \<open>The loop ends only if every pass takes an entry out of the table.\<close>

partial_function (option) fl_dma_release_all :: "allocator \<Rightarrow> drv_model \<Rightarrow> drv_model option" where
  "fl_dma_release_all al s =
     (if s_dma_count s > 0 then do {
        d \<leftarrow> aget (s_dma s) (s_dma_count s - 1);
        s \<leftarrow> fl_dma_free al (dma_ptr d) s;
        fl_dma_release_all al s
      }
      else Some s)"

section \<open>Bus\<close>

datatype bus_build = BareMetal | Host

abbreviation CWD_MAX :: nat where "CWD_MAX \<equiv> 256"

definition zero_desc :: fl_device_desc where
  "zero_desc =
     \<lparr>bus_type = FL_BUS_PCI, pci_bus = 0, pci_dev = 0, pci_fn = 0, vendor_id = 0, device_id = 0, class_code = 0,
      sub_class = 0, prog_if = 0, dt_compatible = [], synth_id = [],
      resources = replicate FL_RESOURCE_MAX zero_resource, resource_count = 0, platform_data = NULL\<rparr>"

text \<open>The devices found: none on bare metal; on a host one synthetic block device, described by the
  address and the contents of \<open>current_disk_file\<close>.\<close>

definition fl_bus_enumerate :: "bus_build \<Rightarrow> ptr \<Rightarrow> string \<Rightarrow> int \<Rightarrow> fl_device_desc list" where
  "fl_bus_enumerate build file_ptr file max_descs =
     (if max_descs < 1 then []
      else case build of
        BareMetal \<Rightarrow> []
      | Host \<Rightarrow>
          [zero_desc\<lparr>
             bus_type := FL_BUS_SYNTH, synth_id := cstr_copy 32 ''host_blk'',
             resources :=
               [\<lparr>res_type = FL_RESOURCE_SYNTH, res_start = file_ptr, res_size = of_nat (min (length file) CWD_MAX) + 1,
                 res_name = cstr_copy 32 ''host-disk''\<rparr>,
                \<lparr>res_type = FL_RESOURCE_IRQ, res_start = 3, res_size = 1, res_name = cstr_copy 32 ''host-irq''\<rparr>,
                \<lparr>res_type = FL_RESOURCE_DMA, res_start = 0, res_size = FL_SECTOR_SIZE, res_name = cstr_copy 32 ''block-dma''\<rparr>,
                \<lparr>res_type = FL_RESOURCE_IOPORT, res_start = 0xF100, res_size = 8, res_name = cstr_copy 32 ''synth-io''\<rparr>]
               @ replicate 4 zero_resource,
             resource_count := 4, platform_data := file_ptr\<rparr>])"

text \<open>\<open>p\<close> is what \<open>kmalloc\<close> returns.\<close>

definition fl_device_create :: "ptr \<Rightarrow> fl_device_desc \<Rightarrow> drv_model \<Rightarrow> ptr \<times> drv_model" where
  "fl_device_create p desc s =
     (if p = NULL then (NULL, s)
      else (p, s\<lparr>s_dev_heap := (s_dev_heap s)(p \<mapsto> \<lparr>dv_desc = desc, dv_driver_data = NULL, dv_hal_data = NULL\<rparr>)\<rparr>))"

text \<open>Releasing a device that is not on the heap is undefined; \<open>kfree\<close> ignores \<open>NULL\<close>.\<close>

definition fl_device_destroy :: "ptr \<Rightarrow> drv_model \<Rightarrow> drv_model option" where
  "fl_device_destroy dev s =
     (if dev = NULL then Some s
      else if s_dev_heap s dev = None then None
      else Some (s\<lparr>s_dev_heap := (s_dev_heap s)(dev := None)\<rparr>))"

text \<open>The lists a driver derives from a description, cut at the size of the caller's array.\<close>

function desc_list_loop :: "fl_resource_type \<Rightarrow> fl_device_desc \<Rightarrow> nat \<Rightarrow> int \<Rightarrow> fl_resource list \<Rightarrow> fl_resource list option" where
  "desc_list_loop t desc max_out i acc =
     (if i < resource_count desc \<and> length acc < max_out then do {
        r \<leftarrow> aget (resources desc) i;
        desc_list_loop t desc max_out (i + 1) (if res_type r = t then acc @ [r] else acc)
      }
      else Some acc)"
  by pat_completeness auto
termination by (relation "measure (\<lambda>(t, desc, max_out, i, acc). nat (resource_count desc - i))") auto

declare desc_list_loop.simps [simp del]

definition fl_device_desc_irq_list :: "fl_device_desc \<Rightarrow> nat \<Rightarrow> int list option" where
  "fl_device_desc_irq_list desc max_irq =
     map_option (map (\<lambda>r. sint (ucast (res_start r) :: u32))) (desc_list_loop FL_RESOURCE_IRQ desc max_irq 0 [])"

text \<open>A region is its physical base and its size; the code leaves it unmapped.\<close>

definition fl_device_desc_mmio_list :: "fl_device_desc \<Rightarrow> nat \<Rightarrow> (u64 \<times> u64) list option" where
  "fl_device_desc_mmio_list desc max_mmio =
     map_option (map (\<lambda>r. (res_start r, res_size r))) (desc_list_loop FL_RESOURCE_MMIO desc max_mmio 0 [])"

text \<open>\<open>Some None\<close> is the result \<open>-1\<close>, which leaves base and count zero.\<close>

definition fl_device_desc_ioport_range :: "fl_device_desc \<Rightarrow> (u16 \<times> u16) option option" where
  "fl_device_desc_ioport_range desc = do {
     r \<leftarrow> find_from (\<lambda>r. res_type r = FL_RESOURCE_IOPORT) (resources desc) 0 (resource_count desc);
     case r of
       None \<Rightarrow> Some None
     | Some i \<Rightarrow> map_option (\<lambda>r. Some (ucast (res_start r), ucast (res_size r))) (aget (resources desc) i)
   }"

section \<open>Life cycle\<close>

definition call_int :: "drv_code \<Rightarrow> ptr \<Rightarrow> ptr \<Rightarrow> drv_model \<Rightarrow> (int \<times> drv_model) outcome option" where
  "call_int k f dev s = (if f = NULL then Some (Ret (0, s)) else k_int k f dev s)"

definition call_void :: "drv_code \<Rightarrow> ptr \<Rightarrow> ptr \<Rightarrow> drv_model \<Rightarrow> drv_model outcome option" where
  "call_void k f dev s = (if f = NULL then Some (Ret s) else k_void k f dev s)"

definition set_bound :: "int \<Rightarrow> (fl_bound_device \<Rightarrow> fl_bound_device) \<Rightarrow> drv_model \<Rightarrow> drv_model option" where
  "set_bound i f s = do {
     b \<leftarrow> aget (s_devices s) i;
     bs \<leftarrow> aset (s_devices s) i (f b);
     Some (s\<lparr>s_devices := bs\<rparr>)
   }"

text \<open>The two ways the binding of a device is given up: its claims and its slot are returned.\<close>

definition unbind :: "ptr \<Rightarrow> drv_model \<Rightarrow> (bool \<times> drv_model) outcome option" where
  "unbind dev s = do {
     s \<leftarrow> fl_resource_release_all dev s;
     Some (Ret (False, s\<lparr>s_device_count := s_device_count s - 1\<rparr>))
   }"

text \<open>One driver tried on a device: \<open>True\<close> means it is attached and started.\<close>

definition try_driver ::
  "drv_code \<Rightarrow> fl_driver_desc \<Rightarrow> fl_device_desc \<Rightarrow> ptr \<Rightarrow> drv_model \<Rightarrow> (bool \<times> drv_model) outcome option" where
  "try_driver k driver desc dev s =
     (if \<not> driver_matches (Some driver) desc then Some (Ret (False, s))
      else case drv_ops driver of
        None \<Rightarrow> None
      | Some ops \<Rightarrow>
          obind (call_int k (op_probe ops) dev s) (\<lambda>(rc, s).
          if rc \<noteq> 0 then Some (Ret (False, s))
          else do {
            let b = s_device_count s;
            s \<leftarrow> set_bound b (\<lambda>_. \<lparr>bd_dev = dev, bd_driver = Some driver, bd_state = FL_DRV_STATE_PROBED\<rparr>)
                  (s\<lparr>s_device_count := b + 1\<rparr>);
            (rc, s) \<leftarrow> claim_device_resources dev s;
            if rc \<noteq> 0 then unbind dev s
            else obind (call_int k (op_attach ops) dev s) (\<lambda>(rc, s).
              if rc \<noteq> 0 then unbind dev s
              else do {
                s \<leftarrow> set_bound b (\<lambda>x. x\<lparr>bd_state := FL_DRV_STATE_ATTACHED\<rparr>) s;
                obind (call_void k (op_start ops) dev s) (\<lambda>s. do {
                  s \<leftarrow> set_bound b (\<lambda>x. x\<lparr>bd_state := FL_DRV_STATE_STARTED\<rparr>) s;
                  Some (Ret (True, s))
                })
              })
          }))"

text \<open>The loop over the registered drivers, within the bounds of their array.\<close>

function try_drivers :: "drv_code \<Rightarrow> nat \<Rightarrow> fl_device_desc \<Rightarrow> ptr \<Rightarrow> drv_model \<Rightarrow> (bool \<times> drv_model) outcome option" where
  "try_drivers k d desc dev s =
     (if int d < s_driver_count s then
        if d \<ge> FL_MODEL_MAX_DRIVERS then None
        else do {
          dr \<leftarrow> aget (s_drivers s) (int d);
          case dr of
            None \<Rightarrow> try_drivers k (d + 1) desc dev s
          | Some driver \<Rightarrow>
              obind (try_driver k driver desc dev s) (\<lambda>(bound, s).
              if bound then Some (Ret (True, s)) else try_drivers k (d + 1) desc dev s)
        }
      else Some (Ret (False, s)))"
  by pat_completeness auto
termination by (relation "measure (\<lambda>(k, d, desc, dev, s). FL_MODEL_MAX_DRIVERS - d)") auto

declare try_drivers.simps [simp del]

text \<open>The loop over the enumerated devices; \<open>ps\<close> are the blocks \<open>kmalloc\<close> returns for them.\<close>

fun init_devices :: "drv_code \<Rightarrow> (fl_device_desc \<times> ptr) list \<Rightarrow> drv_model \<Rightarrow> drv_model outcome option" where
  "init_devices k [] s = Some (Ret s)"
| "init_devices k ((desc, p) # ds) s =
     (if s_device_count s < int FL_MODEL_MAX_DEVICES then
        let (dev, s) = fl_device_create p desc s
        in if dev = NULL then init_devices k ds s
           else obind (try_drivers k 0 desc dev s) (\<lambda>(bound, s).
             if bound then init_devices k ds s
             else do {
               s \<leftarrow> fl_device_destroy dev s;
               init_devices k ds s
             })
      else Some (Ret s))"

text \<open>\<open>ps\<close> gives the block that \<open>kmalloc\<close> returns for each device.\<close>

definition fl_drivers_init ::
  "drv_code \<Rightarrow> bus_build \<Rightarrow> ptr \<Rightarrow> string \<Rightarrow> (nat \<Rightarrow> ptr) \<Rightarrow> drv_model \<Rightarrow> drv_model outcome option" where
  "fl_drivers_init k build file_ptr file ps s =
     (if s_model_initialized s then Some (Ret s)
      else
        let descs = fl_bus_enumerate build file_ptr file (int FL_MODEL_MAX_DEVICES)
        in if length descs > FL_MODEL_MAX_DEVICES then Some Block
           else obind (init_devices k (zip descs (map ps [0..<length descs])) s) (\<lambda>s. Some (Ret (s\<lparr>s_model_initialized := True\<rparr>))))"

text \<open>The shutdown of the device in slot \<open>i\<close>.\<close>

definition shutdown_device :: "drv_code \<Rightarrow> nat \<Rightarrow> drv_model \<Rightarrow> drv_model outcome option" where
  "shutdown_device k i s = do {
     b \<leftarrow> aget (s_devices s) (int i);
     obind
       (case bd_driver b of
          None \<Rightarrow> Some (Ret s)
        | Some driver \<Rightarrow>
            (case drv_ops driver of
               None \<Rightarrow> Some (Ret s)
             | Some ops \<Rightarrow>
                 obind (if bd_state b = FL_DRV_STATE_STARTED then call_void k (op_stop ops) (bd_dev b) s else Some (Ret s)) (\<lambda>s. do {
                   b \<leftarrow> aget (s_devices s) (int i);
                   driver \<leftarrow> bd_driver b;
                   ops \<leftarrow> drv_ops driver;
                   call_void k (op_detach ops) (bd_dev b) s
                 })))
       (\<lambda>s. do {
          b \<leftarrow> aget (s_devices s) (int i);
          s \<leftarrow> fl_resource_release_all (bd_dev b) s;
          s \<leftarrow> fl_device_destroy (bd_dev b) s;
          Some (Ret s)
        })
   }"

fun shutdown_devices :: "drv_code \<Rightarrow> nat \<Rightarrow> drv_model \<Rightarrow> drv_model outcome option" where
  "shutdown_devices k 0 s = Some (Ret s)"
| "shutdown_devices k (Suc i) s = obind (shutdown_device k i s) (shutdown_devices k i)"

definition fl_drivers_shutdown :: "allocator \<Rightarrow> drv_code \<Rightarrow> drv_model \<Rightarrow> drv_model outcome option" where
  "fl_drivers_shutdown al k s = do {
     s \<leftarrow> fl_dma_release_all al s;
     obind (shutdown_devices k (nat (s_device_count s)) s) (\<lambda>s.
     Some (Ret ((fl_irq_init (s\<lparr>s_device_count := 0, s_driver_count := 0, s_devfs_count := 0, s_resource_count := 0, s_dma_count := 0,
       s_devices := replicate FL_MODEL_MAX_DEVICES zero_bound, s_resources := replicate FL_MODEL_MAX_RESOURCES zero_claim,
       s_devfs := replicate FL_MODEL_MAX_DEVFS zero_node, s_dma := replicate FL_MODEL_MAX_DMA zero_dma\<rparr>))
       \<lparr>s_model_initialized := False\<rparr>)))
   }"

section \<open>The block driver\<close>

text \<open>The driver behind \<open>g_block_driver\<close>: its address, and its functions to read and write a sector
  from and to a buffer and to report its capabilities.\<close>

record blk_driver =
  bk_addr :: ptr
  bk_read_sector :: "u32 \<Rightarrow> ptr \<Rightarrow> drv_model \<Rightarrow> int \<times> drv_model"
  bk_write_sector :: "u32 \<Rightarrow> ptr \<Rightarrow> drv_model \<Rightarrow> int \<times> drv_model"
  bk_get_caps :: "ptr \<Rightarrow> drv_model \<Rightarrow> int \<times> drv_model"

definition block_devfs_read :: "blk_driver option \<Rightarrow> u32 \<Rightarrow> ptr \<Rightarrow> u64 \<Rightarrow> drv_model \<Rightarrow> int \<times> u64 \<times> drv_model" where
  "block_devfs_read g unit' buf len s =
     (case g of
        None \<Rightarrow> (- 1, 0, s)
      | Some blk \<Rightarrow>
          if buf = NULL \<or> len < FL_SECTOR_SIZE then (- 1, 0, s)
          else let (rc, s) = bk_read_sector blk unit' buf s
               in if rc \<noteq> 0 then (- 1, 0, s) else (0, FL_SECTOR_SIZE, s))"

definition block_devfs_write :: "blk_driver option \<Rightarrow> u32 \<Rightarrow> ptr \<Rightarrow> u64 \<Rightarrow> drv_model \<Rightarrow> int \<times> u64 \<times> drv_model" where
  "block_devfs_write g unit' buf len s =
     (case g of
        None \<Rightarrow> (- 1, 0, s)
      | Some blk \<Rightarrow>
          if buf = NULL \<or> len < FL_SECTOR_SIZE then (- 1, 0, s)
          else let (rc, s) = bk_write_sector blk unit' buf s
               in if rc \<noteq> 0 then (- 1, 0, s) else (0, FL_SECTOR_SIZE, s))"

definition block_devfs_ioctl :: "blk_driver option \<Rightarrow> u64 \<Rightarrow> ptr \<Rightarrow> drv_model \<Rightarrow> int \<times> drv_model" where
  "block_devfs_ioctl g request arg' s =
     (case g of
        None \<Rightarrow> (- 1, s)
      | Some blk \<Rightarrow> if request = FL_DEVFS_IOCTL_BLOCK_CAPS then bk_get_caps blk arg' s else (- 1, s))"

text \<open>The addresses of the functions: any distinct addresses other than \<open>NULL\<close>.\<close>

definition block_ops :: fl_devfs_ops where
  "block_ops = \<lparr>fo_read = 0x402000, fo_write = 0x402100, fo_byte_read = NULL, fo_byte_write = NULL, fo_ioctl = 0x402200\<rparr>"

definition block_model_ops :: fl_driver_ops where
  "block_model_ops = \<lparr>op_probe = 0x402300, op_attach = 0x402400, op_start = 0x402500, op_stop = 0x402600, op_detach = 0x402700\<rparr>"

definition block_model_driver :: fl_driver_desc where
  "block_model_driver =
     \<lparr>drv_class = FL_DRV_CLASS_BLOCK, drv_name = Some ''host-block'', drv_ops = Some block_model_ops, drv_pci_class = 0,
      drv_pci_subclass = 0, drv_dt_compatible = None, drv_synth_id = Some ''host_blk''\<rparr>"

definition block_probe :: "ptr \<Rightarrow> drv_model \<Rightarrow> int option" where
  "block_probe dev s = do {
     d \<leftarrow> fl_device_get_desc s dev;
     Some (case d of
             None \<Rightarrow> - 1
           | Some desc \<Rightarrow> if bus_type desc = FL_BUS_SYNTH \<and> cstr_eq (Some (synth_id desc)) (Some ''host_blk'') then 0 else - 1)
   }"

definition block_attach :: "blk_driver option \<Rightarrow> ptr \<Rightarrow> drv_model \<Rightarrow> (int \<times> drv_model) outcome option" where
  "block_attach g dev s = do {
     d \<leftarrow> s_dev_heap s dev;
     let data = (case g of None \<Rightarrow> NULL | Some blk \<Rightarrow> bk_addr blk);
     fl_devfs_register ''/dev/blk0'' FL_DRV_CLASS_BLOCK dev block_ops
       (s\<lparr>s_dev_heap := (s_dev_heap s)(dev \<mapsto> d\<lparr>dv_driver_data := data\<rparr>)\<rparr>)
   }"

definition block_start :: "ptr \<Rightarrow> drv_model \<Rightarrow> drv_model" where
  "block_start dev s = s"

definition block_stop :: "ptr \<Rightarrow> drv_model \<Rightarrow> drv_model" where
  "block_stop dev s = s"

definition block_detach :: "ptr \<Rightarrow> drv_model \<Rightarrow> drv_model option" where
  "block_detach dev s = fl_devfs_unregister ''/dev/blk0'' s"

definition fl_driver_registry_register_all :: "drv_model \<Rightarrow> drv_model outcome option" where
  "fl_driver_registry_register_all s = obind (fl_driver_registry_register block_model_driver s) (\<lambda>(rc, s). Some (Ret s))"

text \<open>The code behind the pointers of the block driver.\<close>

definition block_code :: "blk_driver option \<Rightarrow> (int \<Rightarrow> drv_model \<Rightarrow> drv_model) option \<Rightarrow> drv_code" where
  "block_code g eoi =
     \<lparr>k_int = (\<lambda>f dev s.
        if f = op_probe block_model_ops then map_option (\<lambda>rc. Ret (rc, s)) (block_probe dev s)
        else if f = op_attach block_model_ops then block_attach g dev s else None),
      k_void = (\<lambda>f dev s.
        if f = op_start block_model_ops then Some (Ret (block_start dev s))
        else if f = op_stop block_model_ops then Some (Ret (block_stop dev s))
        else if f = op_detach block_model_ops then map_option Ret (block_detach dev s) else None),
      k_irq = (\<lambda>f irq ctx s. s),
      k_io = (\<lambda>f dev unit' buf len s.
        case unit' of
          None \<Rightarrow> (- 1, 0, s)
        | Some u \<Rightarrow> if f = fo_read block_ops then block_devfs_read g u buf len s else block_devfs_write g u buf len s),
      k_ioctl = (\<lambda>f dev request arg' s. block_devfs_ioctl g request arg' s),
      k_pic_eoi = eoi\<rparr>"

end
