(* ===== verification/Drv_Tables.thy ===== *)
theory Drv_Tables
  imports Drv_Ops
begin

text \<open>
  What the tables of the driver model hold: the first entries of each array, as many as its
  counter says. An entry is added at the end and removed by overwriting it with the last one,
  so a table is a multiset of its entries. Device files and DMA buffers are tables with a
  key, which behave as finite maps: the files by the locale \<open>keyed_table\<close>, the buffers under the
  contract of the allocator.
\<close>

section \<open>Searching and removing\<close>

lemma find_from_cases:
  assumes "0 \<le> i" and "n \<le> int (length xs)"
  obtains "find_from P xs i n = Some None" and "\<And>j. i \<le> j \<Longrightarrow> j < n \<Longrightarrow> \<not> P (xs ! nat j)"
  | j where "find_from P xs i n = Some (Some j)" and "i \<le> j" and "j < n" and "P (xs ! nat j)"
      and "\<And>l. i \<le> l \<Longrightarrow> l < j \<Longrightarrow> \<not> P (xs ! nat l)"
proof -
  have "(find_from P xs i n = Some None \<and> (\<forall>j. i \<le> j \<and> j < n \<longrightarrow> \<not> P (xs ! nat j))) \<or>
        (\<exists>j. find_from P xs i n = Some (Some j) \<and> i \<le> j \<and> j < n \<and> P (xs ! nat j) \<and> (\<forall>l. i \<le> l \<and> l < j \<longrightarrow> \<not> P (xs ! nat l)))"
    using assms(1)
  proof (induction "nat (n - i)" arbitrary: i rule: less_induct)
    case less
    show ?case
    proof (cases "i < n")
      case False
      then have "find_from P xs i n = Some None" by (subst find_from.simps) simp
      then show ?thesis using False by auto
    next
      case True
      then have a: "aget xs i = Some (xs ! nat i)" using less.prems assms(2) by (simp add: aget_def)
      show ?thesis
      proof (cases "P (xs ! nat i)")
        case P: True
        then have "find_from P xs i n = Some (Some i)" using True a by (subst find_from.simps) simp
        then show ?thesis using P True by auto
      next
        case P: False
        then have e: "find_from P xs i n = find_from P xs (i + 1) n" using True a by (subst find_from.simps) simp
        have "i \<le> l \<longleftrightarrow> l = i \<or> i + 1 \<le> l" for l by linarith
        then show ?thesis unfolding e using less.hyps [of "i + 1"] True less.prems P by auto
      qed
    qed
  qed
  then show thesis using that by blast
qed

text \<open>The entries in use.\<close>

abbreviation live :: "'a list \<Rightarrow> int \<Rightarrow> 'a list" where
  "live xs n \<equiv> take (nat n) xs"

lemma live_all: "0 \<le> n \<Longrightarrow> n \<le> int (length xs) \<Longrightarrow> (\<forall>x \<in> set (live xs n). Q x) \<longleftrightarrow> (\<forall>j. 0 \<le> j \<and> j < n \<longrightarrow> Q (xs ! nat j))"
proof -
  assume n: "0 \<le> n" "n \<le> int (length xs)"
  have "(\<forall>x \<in> set (live xs n). Q x) \<longleftrightarrow> (\<forall>j < nat n. Q (xs ! j))" using n by (auto simp: all_set_conv_all_nth)
  also have "\<dots> \<longleftrightarrow> (\<forall>j. 0 \<le> j \<and> j < n \<longrightarrow> Q (xs ! nat j))"
  proof (intro iffI allI impI)
    show "Q (xs ! nat j)" if "\<forall>j < nat n. Q (xs ! j)" "0 \<le> j \<and> j < n" for j using that by simp
    show "Q (xs ! j)" if "\<forall>j. 0 \<le> j \<and> j < n \<longrightarrow> Q (xs ! nat j)" "j < nat n" for j
      using that(1) [rule_format, of "int j"] that(2) by simp
  qed
  finally show ?thesis .
qed

lemma find_live:
  assumes "0 \<le> n" and "n \<le> int (length xs)"
  obtains "find_from P xs 0 n = Some None" and "\<And>x. x \<in> set (live xs n) \<Longrightarrow> \<not> P x"
  | j where "find_from P xs 0 n = Some (Some (int j))" and "j < nat n" and "P (xs ! j)" and "aget xs (int j) = Some (xs ! j)"
      and "xs ! j \<in> set (live xs n)" and "\<And>l. l < j \<Longrightarrow> \<not> P (xs ! l)"
proof (rule find_from_cases [of 0 n xs P])
  assume "find_from P xs 0 n = Some None" "\<And>j. 0 \<le> j \<Longrightarrow> j < n \<Longrightarrow> \<not> P (xs ! nat j)"
  then show thesis using that(1) live_all [OF assms, of "\<lambda>x. \<not> P x"] by blast
next
  fix j assume j: "find_from P xs 0 n = Some (Some j)" "0 \<le> j" "j < n" "P (xs ! nat j)" "\<And>l. 0 \<le> l \<Longrightarrow> l < j \<Longrightarrow> \<not> P (xs ! nat l)"
  have l: "nat j < length (live xs n)" "live xs n ! nat j = xs ! nat j" using j assms by simp_all
  then have m: "xs ! nat j \<in> set (live xs n)" using nth_mem [OF l(1)] by simp
  have f: "\<not> P (xs ! l)" if "l < nat j" for l using j(5) [of "int l"] that by simp
  show thesis
  proof (rule that(2) [OF _ _ j(4) _ m f])
    show "find_from P xs 0 n = Some (Some (int (nat j)))" "nat j < nat n" "aget xs (int (nat j)) = Some (xs ! nat j)"
      using j assms by (simp_all add: aget_def)
  qed
qed (use assms in auto)

lemma find_live_None:
  assumes "0 \<le> n" and "n \<le> int (length xs)" and "\<And>x. x \<in> set (live xs n) \<Longrightarrow> \<not> P x"
  shows "find_from P xs 0 n = Some None"
  by (rule find_live [OF assms(1,2), of P]) (use assms(3) in auto)

lemma live_append:
  assumes "0 \<le> n" and "n < int (length xs)"
  shows "live (xs[nat n := x]) (n + 1) = live xs n @ [x]"
  using assms by (simp add: nat_add_distrib take_Suc_conv_app_nth)

lemma live_swap_remove:
  assumes "j < nat n" and "n \<le> int (length xs)"
  shows "mset (live (xs[j := xs ! nat (n - 1)]) (n - 1)) = mset (live xs n) - {#xs ! j#}"
proof -
  let ?m = "nat (n - 1)"
  have m: "nat n = Suc ?m" "?m < length xs" using assms by auto
  have t: "mset (live xs n) = add_mset (xs ! ?m) (mset (take ?m xs))"
    unfolding m(1) using m(2) by (simp add: take_Suc_conv_app_nth)
  show ?thesis
  proof (cases "j = ?m")
    case True
    then show ?thesis using t by simp
  next
    case False
    then have j: "j < ?m" using assms m by simp
    then have "mset (take ?m (xs[j := xs ! ?m])) = add_mset (xs ! ?m) (mset (take ?m xs) - {#xs ! j#})"
      using m by (simp add: take_update_swap mset_update)
    moreover have "xs ! j \<in> set (take ?m xs)" using j m nth_mem [of j "take ?m xs"] by simp
    ultimately show ?thesis using t by simp
  qed
qed

lemma live_swap_remove_add:
  assumes "j < nat n" and "n \<le> int (length xs)"
  shows "mset (live xs n) = mset (xs ! j # live (xs[j := xs ! nat (n - 1)]) (n - 1))"
proof -
  have "live xs n ! j = xs ! j" "j < length (live xs n)" using assms by simp_all
  then have "xs ! j \<in># mset (live xs n)" using nth_mem [of j "live xs n"] by simp
  then show ?thesis unfolding mset.simps live_swap_remove [OF assms] by simp
qed

text \<open>Removing from a table whose entries have distinct keys.\<close>

lemma live_swap_remove_map:
  assumes "j < nat n" and "n \<le> int (length xs)" and "distinct (map f (live xs n))"
  shows "distinct (map f (live (xs[j := xs ! nat (n - 1)]) (n - 1)))"
    and "set (live (xs[j := xs ! nat (n - 1)]) (n - 1)) = set (live xs n) - {xs ! j}"
proof -
  let ?ys = "live (xs[j := xs ! nat (n - 1)]) (n - 1)"
  have m: "mset (live xs n) = mset (xs ! j # ?ys)" by (rule live_swap_remove_add [OF assms(1,2)])
  then have "mset (map f (live xs n)) = mset (map f (xs ! j # ?ys))" by (simp only: mset_map)
  then have d: "distinct (map f (xs ! j # ?ys))" using assms(3) mset_eq_imp_distinct_iff by blast
  then show "distinct (map f ?ys)" by simp
  have "set (live xs n) = insert (xs ! j) (set ?ys)" using m by (metis list.simps(15) set_mset_mset)
  moreover have "xs ! j \<notin> set ?ys" using d by auto
  ultimately show "set ?ys = set (live xs n) - {xs ! j}" by blast
qed

section \<open>Tables with a key\<close>

definition table_ok :: "nat \<Rightarrow> 'a list \<Rightarrow> int \<Rightarrow> bool" where
  "table_ok cap xs n \<longleftrightarrow> length xs = cap \<and> 0 \<le> n \<and> n \<le> int cap"

definition tab_map :: "('a \<Rightarrow> 'k) \<Rightarrow> ('a \<Rightarrow> 'v) \<Rightarrow> 'a list \<Rightarrow> ('k \<rightharpoonup> 'v)" where
  "tab_map key val xs = map_of (map (\<lambda>x. (key x, val x)) xs)"

lemma tab_map_None: "tab_map key val xs k = None \<longleftrightarrow> (\<forall>x \<in> set xs. key x \<noteq> k)"
  by (force simp: tab_map_def map_of_eq_None_iff)

lemma dom_tab_map: "dom (tab_map key val xs) = key ` set xs"
  by (auto simp: dom_def tab_map_None)

lemma tab_map_in: "distinct (map key xs) \<Longrightarrow> x \<in> set xs \<Longrightarrow> tab_map key val xs (key x) = Some (val x)"
  unfolding tab_map_def by (rule map_of_is_SomeI) (auto simp: comp_def)

lemma tab_map_append:
  assumes "key x \<notin> key ` set xs"
  shows "tab_map key val (xs @ [x]) = (tab_map key val xs)(key x \<mapsto> val x)"
proof
  fix k
  show "tab_map key val (xs @ [x]) k = ((tab_map key val xs)(key x \<mapsto> val x)) k"
  proof (cases "k = key x")
    case True
    then have "tab_map key val xs k = None" using assms unfolding tab_map_None by (metis imageI)
    then show ?thesis using True by (simp add: tab_map_def map_add_def)
  qed (auto simp: tab_map_def map_add_def split: option.splits)
qed

lemma tab_map_eq:
  assumes "distinct (map key xs)" and "distinct (map key ys)" and "set ys = set xs - {x}" and "x \<in> set xs"
  shows "tab_map key val ys = (tab_map key val xs)(key x := None)"
proof
  fix k
  show "tab_map key val ys k = ((tab_map key val xs)(key x := None)) k"
  proof (cases "\<exists>y \<in> set ys. key y = k")
    case True
    then obtain y where y: "y \<in> set ys" "key y = k" by blast
    then have "k \<noteq> key x" using assms by (metis DiffD1 DiffD2 distinct_map inj_onD insertI1)
    then show ?thesis using y assms tab_map_in by (metis DiffD1 fun_upd_other)
  next
    case False
    then have "tab_map key val ys k = None" by (auto simp: tab_map_None)
    moreover have "k = key x \<or> tab_map key val xs k = None" using False assms(3) by (auto simp: tab_map_None)
    ultimately show ?thesis by auto
  qed
qed

lemma card_tab_map: "distinct (map key xs) \<Longrightarrow> card (dom (tab_map key val xs)) = length xs"
  unfolding dom_tab_map by (metis distinct_card length_map list.set_map)

lemma find_key:
  assumes "table_ok cap xs n" and "distinct (map key (live xs n))"
  obtains "find_from (\<lambda>x. key x = k) xs 0 n = Some None" and "tab_map key val (live xs n) k = None"
  | j where "find_from (\<lambda>x. key x = k) xs 0 n = Some (Some (int j))" and "j < nat n" and "key (xs ! j) = k"
      and "aget xs (int j) = Some (xs ! j)" and "tab_map key val (live xs n) k = Some (val (xs ! j))" and "xs ! j \<in> set (live xs n)"
proof (rule find_live [of n xs "\<lambda>x. key x = k"])
  assume "find_from (\<lambda>x. key x = k) xs 0 n = Some None" "\<And>x. x \<in> set (live xs n) \<Longrightarrow> \<not> key x = k"
  then show thesis using that(1) by (auto simp: tab_map_None)
next
  fix j assume j: "find_from (\<lambda>x. key x = k) xs 0 n = Some (Some (int j))" "j < nat n" "key (xs ! j) = k"
    "aget xs (int j) = Some (xs ! j)" "xs ! j \<in> set (live xs n)"
  then show thesis using that(2) [OF j(1-4)] tab_map_in [OF assms(2) j(5), of val] by simp
qed (use assms(1) in \<open>auto simp: table_ok_def\<close>)

text \<open>Overwriting the entry \<open>j\<close> with the last one takes its key out of the map.\<close>

lemma swap_remove_key:
  assumes t: "table_ok cap xs n" and d: "distinct (map key (live xs n))" and j: "j < nat n"
  obtains ys where "aget xs (n - 1) = Some (xs ! nat (n - 1))" and "aset xs (int j) (xs ! nat (n - 1)) = Some ys"
    and "table_ok cap ys (n - 1)" and "distinct (map key (live ys (n - 1)))"
    and "tab_map key val (live ys (n - 1)) = (tab_map key val (live xs n))(key (xs ! j) := None)"
    and "set (live ys (n - 1)) = set (live xs n) - {xs ! j}"
proof -
  let ?ys = "xs[j := xs ! nat (n - 1)]"
  have n: "n \<le> int (length xs)" using t by (simp add: table_ok_def)
  have m: "xs ! j \<in> set (live xs n)" using j n nth_mem [of j "live xs n"] by simp
  note r = live_swap_remove_map [OF j n d]
  show thesis
  proof (rule that [of ?ys])
    show "aget xs (n - 1) = Some (xs ! nat (n - 1))" "aset xs (int j) (xs ! nat (n - 1)) = Some ?ys" "table_ok cap ?ys (n - 1)"
      using j n t by (auto simp: aget_def aset_def table_ok_def)
    show "tab_map key val (live ?ys (n - 1)) = (tab_map key val (live xs n))(key (xs ! j) := None)"
      by (rule tab_map_eq [OF d r m])
  qed (rule r)+
qed

lemma append_key:
  assumes t: "table_ok cap xs n" and d: "distinct (map key (live xs n))" and n: "n < int cap" and k: "tab_map key val (live xs n) (key x) = None"
  obtains ys where "aset xs n x = Some ys" and "table_ok cap ys (n + 1)" and "distinct (map key (live ys (n + 1)))"
    and "tab_map key val (live ys (n + 1)) = (tab_map key val (live xs n))(key x \<mapsto> val x)"
    and "live ys (n + 1) = live xs n @ [x]"
proof -
  have l: "live (xs[nat n := x]) (n + 1) = live xs n @ [x]"
    by (rule live_append) (use t n in \<open>auto simp: table_ok_def\<close>)
  have "key x \<notin> key ` set (live xs n)" using k by (auto simp: tab_map_None)
  then show thesis
    using that [of "xs[nat n := x]"] l d t n tab_map_append [of key x "live xs n" val] by (auto simp: table_ok_def aset_def)
qed

text \<open>The contract of a table with a key: it is a finite map of at most \<open>cap\<close> entries, with insertion
  of a new valid key, removal and lookup.\<close>

locale keyed_table =
  fixes inv :: "'s \<Rightarrow> bool" and cap :: nat and valid :: "'k \<Rightarrow> 'v \<Rightarrow> bool" and mp :: "'s \<Rightarrow> 'k \<rightharpoonup> 'v"
    and put :: "'k \<Rightarrow> 'v \<Rightarrow> 's \<Rightarrow> (bool \<times> 's) option" and del :: "'k \<Rightarrow> 's \<Rightarrow> 's option" and get :: "'k \<Rightarrow> 's \<Rightarrow> 'v option option"
  assumes mp_bound: "inv s \<Longrightarrow> finite (dom (mp s)) \<and> card (dom (mp s)) \<le> cap"
    and get_ok: "inv s \<Longrightarrow> get k s = Some (mp s k)"
    and put_new: "inv s \<Longrightarrow> card (dom (mp s)) < cap \<Longrightarrow> valid k v \<Longrightarrow> mp s k = None \<Longrightarrow>
          \<exists>s'. put k v s = Some (True, s') \<and> inv s' \<and> mp s' = (mp s)(k \<mapsto> v)"
    and put_old: "inv s \<Longrightarrow> card (dom (mp s)) < cap \<Longrightarrow> \<not> valid k v \<or> mp s k \<noteq> None \<Longrightarrow> put k v s = Some (False, s)"
    and del_ok: "inv s \<Longrightarrow> \<exists>s'. del k s = Some s' \<and> inv s' \<and> mp s' = (mp s)(k := None)"

datatype ('k, 'v) tab_op = TPut 'k 'v | TDel 'k

fun tab_run :: "('k \<Rightarrow> 'v \<Rightarrow> 's \<Rightarrow> (bool \<times> 's) option) \<Rightarrow> ('k \<Rightarrow> 's \<Rightarrow> 's option) \<Rightarrow> ('k, 'v) tab_op list \<Rightarrow> 's \<Rightarrow> 's option" where
  "tab_run put del [] s = Some s"
| "tab_run put del (TPut k v # ops) s = do { (_, s) \<leftarrow> put k v s; tab_run put del ops s }"
| "tab_run put del (TDel k # ops) s = do { s \<leftarrow> del k s; tab_run put del ops s }"

fun map_run :: "('k \<Rightarrow> 'v \<Rightarrow> bool) \<Rightarrow> ('k, 'v) tab_op list \<Rightarrow> ('k \<rightharpoonup> 'v) \<Rightarrow> ('k \<rightharpoonup> 'v)" where
  "map_run valid [] m = m"
| "map_run valid (TPut k v # ops) m = map_run valid ops (if valid k v \<and> m k = None then m(k \<mapsto> v) else m)"
| "map_run valid (TDel k # ops) m = map_run valid ops (m(k := None))"

fun puts :: "('k, 'v) tab_op list \<Rightarrow> nat" where
  "puts [] = 0"
| "puts (TPut k v # ops) = Suc (puts ops)"
| "puts (TDel k # ops) = puts ops"

context keyed_table
begin

lemma run_refines:
  "inv s \<Longrightarrow> card (dom (mp s)) + puts ops \<le> cap \<Longrightarrow>
     \<exists>s'. tab_run put del ops s = Some s' \<and> inv s' \<and> mp s' = map_run valid ops (mp s)"
proof (induction ops arbitrary: s)
  case Nil
  then show ?case by simp
next
  case (Cons op ops)
  have fin: "finite (dom (mp s))" using mp_bound Cons.prems(1) by blast
  show ?case
  proof (cases op)
    case (TPut k v)
    then have c: "card (dom (mp s)) < cap" using Cons.prems(2) by simp
    show ?thesis
    proof (cases "valid k v \<and> mp s k = None")
      case True
      then obtain s1 where s1: "put k v s = Some (True, s1)" "inv s1" "mp s1 = (mp s)(k \<mapsto> v)"
        using put_new [OF Cons.prems(1) c] by blast
      have "card (dom (mp s1)) \<le> Suc (card (dom (mp s)))" using s1(3) fin by (simp add: card_insert_if)
      then have "card (dom (mp s1)) + puts ops \<le> cap" using Cons.prems(2) TPut by simp
      from Cons.IH [OF s1(2) this] show ?thesis unfolding s1(3) TPut using True s1(1) by (simp add: fun_upd_def)
    next
      case False
      then have p: "put k v s = Some (False, s)" using put_old [OF Cons.prems(1) c] by blast
      have "card (dom (mp s)) + puts ops \<le> cap" using Cons.prems(2) TPut by simp
      from Cons.IH [OF Cons.prems(1) this] show ?thesis using TPut False p by auto
    qed
  next
    case (TDel k)
    obtain s1 where s1: "del k s = Some s1" "inv s1" "mp s1 = (mp s)(k := None)" using del_ok [OF Cons.prems(1)] by blast
    have "card (dom (mp s1)) \<le> card (dom (mp s))" using s1(3) fin by (simp add: card_Diff1_le)
    then have "card (dom (mp s1)) + puts ops \<le> cap" using Cons.prems(2) TDel by simp
    from Cons.IH [OF s1(2) this] show ?thesis unfolding s1(3) TDel using s1(1) by (simp add: fun_upd_def)
  qed
qed

lemma run_lookup:
  assumes "inv s" and "card (dom (mp s)) + puts ops \<le> cap"
  shows "\<exists>s'. tab_run put del ops s = Some s' \<and> inv s' \<and> (\<forall>k. get k s' = Some (map_run valid ops (mp s) k))"
proof -
  obtain s' where "tab_run put del ops s = Some s'" "inv s'" "mp s' = map_run valid ops (mp s)"
    using run_refines [OF assms] by blast
  then show ?thesis using get_ok by auto
qed

end

section \<open>The invariant of the tables\<close>

definition tables_inv :: "drv_model \<Rightarrow> bool" where
  "tables_inv s \<longleftrightarrow>
     table_ok FL_MODEL_MAX_DRIVERS (s_drivers s) (s_driver_count s) \<and>
     table_ok FL_MODEL_MAX_DEVICES (s_devices s) (s_device_count s) \<and>
     table_ok FL_MODEL_MAX_DEVFS (s_devfs s) (s_devfs_count s) \<and> distinct (map nd_path (live (s_devfs s) (s_devfs_count s))) \<and>
     table_ok FL_MODEL_MAX_RESOURCES (s_resources s) (s_resource_count s) \<and>
     table_ok FL_MODEL_MAX_DMA (s_dma s) (s_dma_count s) \<and> distinct (map dma_ptr (live (s_dma s) (s_dma_count s))) \<and>
     dma_ptr ` set (live (s_dma s) (s_dma_count s)) = s_blocks s \<and> NULL \<notin> s_blocks s \<and>
     length (s_irq s) = FL_MODEL_MAX_IRQ"

lemma tables_invD:
  assumes "tables_inv s"
  shows "table_ok FL_MODEL_MAX_DRIVERS (s_drivers s) (s_driver_count s)"
    and "table_ok FL_MODEL_MAX_DEVICES (s_devices s) (s_device_count s)"
    and "table_ok FL_MODEL_MAX_DEVFS (s_devfs s) (s_devfs_count s)" and "distinct (map nd_path (live (s_devfs s) (s_devfs_count s)))"
    and "table_ok FL_MODEL_MAX_RESOURCES (s_resources s) (s_resource_count s)"
    and "table_ok FL_MODEL_MAX_DMA (s_dma s) (s_dma_count s)" and "distinct (map dma_ptr (live (s_dma s) (s_dma_count s)))"
    and "dma_ptr ` set (live (s_dma s) (s_dma_count s)) = s_blocks s" and "NULL \<notin> s_blocks s"
    and "length (s_irq s) = FL_MODEL_MAX_IRQ"
  using assms unfolding tables_inv_def by blast+

lemma model_static_inv: "tables_inv (model_static m)"
  by (simp add: tables_inv_def model_static_def table_ok_def)

subsection \<open>Device files\<close>

abbreviation node_val :: "fl_devfs_node \<Rightarrow> fl_driver_class \<times> ptr \<times> fl_devfs_ops" where
  "node_val n \<equiv> (nd_class n, nd_dev n, nd_ops n)"

definition devfs_map :: "drv_model \<Rightarrow> string \<rightharpoonup> fl_driver_class \<times> ptr \<times> fl_devfs_ops" where
  "devfs_map s = tab_map nd_path node_val (live (s_devfs s) (s_devfs_count s))"

text \<open>Registration without the panic, and the node an open file points to.\<close>

definition devfs_put :: "string \<Rightarrow> fl_driver_class \<times> ptr \<times> fl_devfs_ops \<Rightarrow> drv_model \<Rightarrow> (bool \<times> drv_model) option" where
  "devfs_put path = (\<lambda>(class_id, dev, ops) s. do {
     r \<leftarrow> fl_devfs_register path class_id dev ops s;
     case r of Block \<Rightarrow> None | Ret (rc, s) \<Rightarrow> Some (rc = 0, s)
   })"

definition devfs_get :: "string \<Rightarrow> drv_model \<Rightarrow> (fl_driver_class \<times> ptr \<times> fl_devfs_ops) option option" where
  "devfs_get path s = do {
     f \<leftarrow> fl_devfs_open path 0 s;
     case f of
       None \<Rightarrow> Some None
     | Some file \<Rightarrow> do { i \<leftarrow> fd_node file; n \<leftarrow> aget (s_devfs s) i; Some (Some (node_val n)) }
   }"

lemma cstr_eq_Some [simp]: "cstr_eq (Some a) (Some b) \<longleftrightarrow> a = b"
  by (simp add: cstr_eq_def)

lemma devfs_register_ok:
  assumes i: "tables_inv s" and c: "s_devfs_count s < int FL_MODEL_MAX_DEVFS" and d: "dev \<noteq> NULL"
  shows "if length path < DEVFS_PATH_SIZE \<and> devfs_map s path = None
         then \<exists>ns. fl_devfs_register path cls dev ops s = Some (Ret (0, s\<lparr>s_devfs := ns, s_devfs_count := s_devfs_count s + 1\<rparr>)) \<and>
                tables_inv (s\<lparr>s_devfs := ns, s_devfs_count := s_devfs_count s + 1\<rparr>) \<and>
                devfs_map (s\<lparr>s_devfs := ns, s_devfs_count := s_devfs_count s + 1\<rparr>) = (devfs_map s)(path \<mapsto> (cls, dev, ops))
         else fl_devfs_register path cls dev ops s = Some (Ret (- 1, s))"
proof (cases "length path < DEVFS_PATH_SIZE")
  case True
  note t = tables_invD [OF i]
  let ?n = "\<lparr>nd_path = cstr_copy DEVFS_PATH_SIZE path, nd_class = cls, nd_dev = dev, nd_ops = ops\<rparr>"
  have p: "cstr_copy DEVFS_PATH_SIZE path = path" using True by (simp add: cstr_copy_def)
  show ?thesis
  proof (rule find_key [OF t(3,4), of path node_val])
    assume f: "find_from (\<lambda>x. nd_path x = path) (s_devfs s) 0 (s_devfs_count s) = Some None"
      and m: "tab_map nd_path node_val (live (s_devfs s) (s_devfs_count s)) path = None"
    show ?thesis
    proof (rule append_key [OF t(3,4) c, of node_val ?n])
      show "tab_map nd_path node_val (live (s_devfs s) (s_devfs_count s)) (nd_path ?n) = None" using m p by simp
    next
      fix ys
      assume ys: "aset (s_devfs s) (s_devfs_count s) ?n = Some ys" "table_ok FL_MODEL_MAX_DEVFS ys (s_devfs_count s + 1)"
        "distinct (map nd_path (live ys (s_devfs_count s + 1)))"
        "tab_map nd_path node_val (live ys (s_devfs_count s + 1)) = (tab_map nd_path node_val (live (s_devfs s) (s_devfs_count s)))(nd_path ?n \<mapsto> node_val ?n)"
      have "fl_devfs_register path cls dev ops s = Some (Ret (0, s\<lparr>s_devfs := ys, s_devfs_count := s_devfs_count s + 1\<rparr>))"
        using f ys(1) True c d by (simp add: fl_devfs_register_def)
      then show ?thesis using ys m True t p by (auto simp: devfs_map_def tables_inv_def)
    qed
  next
    fix j assume "find_from (\<lambda>x. nd_path x = path) (s_devfs s) 0 (s_devfs_count s) = Some (Some (int j))"
      "tab_map nd_path node_val (live (s_devfs s) (s_devfs_count s)) path = Some (node_val (s_devfs s ! j))"
    then show ?thesis using True c d by (simp add: fl_devfs_register_def devfs_map_def)
  qed
qed (use c d in \<open>simp add: fl_devfs_register_def\<close>)

lemma devfs_unregister_ok:
  assumes i: "tables_inv s"
  shows "\<exists>ns n. fl_devfs_unregister path s = Some (s\<lparr>s_devfs := ns, s_devfs_count := n\<rparr>) \<and>
           tables_inv (s\<lparr>s_devfs := ns, s_devfs_count := n\<rparr>) \<and>
           devfs_map (s\<lparr>s_devfs := ns, s_devfs_count := n\<rparr>) = (devfs_map s)(path := None)"
proof -
  note t = tables_invD [OF i]
  show ?thesis
  proof (rule find_key [OF t(3,4), of path node_val])
    assume "find_from (\<lambda>x. nd_path x = path) (s_devfs s) 0 (s_devfs_count s) = Some None"
      "tab_map nd_path node_val (live (s_devfs s) (s_devfs_count s)) path = None"
    then show ?thesis using i
      by (intro exI [of _ "s_devfs s"] exI [of _ "s_devfs_count s"]) (simp add: fl_devfs_unregister_def devfs_map_def fun_upd_idem)
  next
    fix j assume f: "find_from (\<lambda>x. nd_path x = path) (s_devfs s) 0 (s_devfs_count s) = Some (Some (int j))" "j < nat (s_devfs_count s)"
      and p: "nd_path (s_devfs s ! j) = path"
    show ?thesis
    proof (rule swap_remove_key [OF t(3,4) f(2), of node_val])
      fix ys
      assume ys: "aget (s_devfs s) (s_devfs_count s - 1) = Some (s_devfs s ! nat (s_devfs_count s - 1))"
        "aset (s_devfs s) (int j) (s_devfs s ! nat (s_devfs_count s - 1)) = Some ys"
        "table_ok FL_MODEL_MAX_DEVFS ys (s_devfs_count s - 1)" "distinct (map nd_path (live ys (s_devfs_count s - 1)))"
        "tab_map nd_path node_val (live ys (s_devfs_count s - 1)) =
          (tab_map nd_path node_val (live (s_devfs s) (s_devfs_count s)))(nd_path (s_devfs s ! j) := None)"
      then show ?thesis using f p t
        by (intro exI [of _ ys] exI [of _ "s_devfs_count s - 1"]) (auto simp: fl_devfs_unregister_def devfs_map_def tables_inv_def)
    qed
  qed
qed

abbreviation devfs_valid :: "string \<Rightarrow> fl_driver_class \<times> ptr \<times> fl_devfs_ops \<Rightarrow> bool" where
  "devfs_valid path v \<equiv> length path < DEVFS_PATH_SIZE \<and> fst (snd v) \<noteq> NULL"

lemma card_devfs: "tables_inv s \<Longrightarrow> int (card (dom (devfs_map s))) = s_devfs_count s"
  using tables_invD(3,4) [of s] unfolding devfs_map_def by (subst card_tab_map) (auto simp: table_ok_def)

interpretation devfs_tab: keyed_table tables_inv FL_MODEL_MAX_DEVFS devfs_valid devfs_map devfs_put fl_devfs_unregister devfs_get
proof
  fix s :: drv_model and path :: string and v :: "fl_driver_class \<times> ptr \<times> fl_devfs_ops"
  assume i: "tables_inv s"
  note t = tables_invD [OF i]
  have f: "finite (dom (devfs_map s))" by (simp add: devfs_map_def dom_tab_map)
  have le: "s_devfs_count s \<le> int FL_MODEL_MAX_DEVFS" using t(3) by (simp add: table_ok_def)
  then show "finite (dom (devfs_map s)) \<and> card (dom (devfs_map s)) \<le> FL_MODEL_MAX_DEVFS" using f card_devfs [OF i] by linarith
  show "devfs_get path s = Some (devfs_map s path)"
    by (rule find_key [OF t(3,4), of path node_val]) (simp_all add: devfs_get_def fl_devfs_open_def devfs_map_def)
  show "\<exists>s'. fl_devfs_unregister path s = Some s' \<and> tables_inv s' \<and> devfs_map s' = (devfs_map s)(path := None)"
    using devfs_unregister_ok [OF i] by blast
  assume "card (dom (devfs_map s)) < FL_MODEL_MAX_DEVFS"
  then have c: "s_devfs_count s < int FL_MODEL_MAX_DEVFS" using card_devfs [OF i] by linarith
  obtain cls dev ops where v: "v = (cls, dev, ops)" using prod_cases3 by blast
  show "\<exists>s'. devfs_put path v s = Some (True, s') \<and> tables_inv s' \<and> devfs_map s' = (devfs_map s)(path \<mapsto> v)"
    if "devfs_valid path v" "devfs_map s path = None"
    using devfs_register_ok [OF i c, of dev path cls ops] that unfolding v by (auto simp: devfs_put_def)
  show "devfs_put path v s = Some (False, s)" if "\<not> devfs_valid path v \<or> devfs_map s path \<noteq> None"
  proof (cases "dev = NULL")
    case True
    then show ?thesis unfolding v by (simp add: devfs_put_def fl_devfs_register_def)
  next
    case False
    then show ?thesis using devfs_register_ok [OF i c False, of path cls ops] that unfolding v by (auto simp: devfs_put_def)
  qed
qed

subsection \<open>DMA buffers\<close>

definition dma_map :: "drv_model \<Rightarrow> ptr \<rightharpoonup> u64 \<times> ptr" where
  "dma_map s = tab_map dma_ptr (\<lambda>d. (dma_size d, dma_owner d)) (live (s_dma s) (s_dma_count s))"

definition dma_get :: "ptr \<Rightarrow> drv_model \<Rightarrow> (u64 \<times> ptr) option option" where
  "dma_get p s = map_option (map_option (\<lambda>d. (dma_size d, dma_owner d))) (fl_dma_get_info p s)"

lemma dom_dma: "tables_inv s \<Longrightarrow> dom (dma_map s) = s_blocks s"
  using tables_invD(8) [of s] by (simp add: dma_map_def dom_tab_map)

lemma dma_alloc_ok:
  assumes i: "tables_inv s" and p: "p \<notin> s_blocks s" "p \<noteq> NULL" and z: "sz \<noteq> 0"
  shows "if s_dma_count s < int FL_MODEL_MAX_DMA
         then \<exists>s'. fl_dma_alloc_device al p dev sz s = Some (p, s') \<and> tables_inv s' \<and> dma_map s' = (dma_map s)(p \<mapsto> (sz, dev)) \<and>
                s_dma_mem s' = mem_fill p (unat sz) (\<lambda>_. 0) (al_take al p sz (s_dma_mem s))
         else \<exists>s'. fl_dma_alloc_device al p dev sz s = Some (NULL, s') \<and> tables_inv s' \<and> dma_map s' = dma_map s"
proof (cases "s_dma_count s < int FL_MODEL_MAX_DMA")
  case c: True
  note t = tables_invD [OF i]
  let ?d = "\<lparr>dma_ptr = p, dma_size = sz, dma_owner = dev\<rparr>" and ?v = "\<lambda>d. (dma_size d, dma_owner d)"
  have m: "tab_map dma_ptr ?v (live (s_dma s) (s_dma_count s)) (dma_ptr ?d) = None"
    using p(1) t(8) by (auto simp: tab_map_None)
  show ?thesis
  proof (rule append_key [OF t(6,7) c m])
    fix ys
    assume ys: "aset (s_dma s) (s_dma_count s) ?d = Some ys" "table_ok FL_MODEL_MAX_DMA ys (s_dma_count s + 1)"
      "distinct (map dma_ptr (live ys (s_dma_count s + 1)))"
      "tab_map dma_ptr ?v (live ys (s_dma_count s + 1)) = (tab_map dma_ptr ?v (live (s_dma s) (s_dma_count s)))(dma_ptr ?d \<mapsto> ?v ?d)"
      "live ys (s_dma_count s + 1) = live (s_dma s) (s_dma_count s) @ [?d]"
    let ?s = "s\<lparr>s_blocks := insert p (s_blocks s), s_dma_mem := asm_mem_zero p sz (al_take al p sz (s_dma_mem s)),
                s_dma := ys, s_dma_count := s_dma_count s + 1\<rparr>"
    have "fl_dma_alloc_device al p dev sz s = Some (p, ?s)"
      using ys(1) c p z by (simp add: fl_dma_alloc_device_def)
    moreover have "tables_inv ?s"
      using ys(2,3,5) t p(2) unfolding tables_inv_def by (simp del: take_append)
    ultimately show ?thesis using c ys(4) by (simp add: dma_map_def asm_mem_zero_fill)
  qed
next
  case False
  have "fl_dma_alloc_device al p dev sz s =
      Some (NULL, s\<lparr>s_dma_mem := al_give al p (asm_mem_zero p sz (al_take al p sz (s_dma_mem s)))\<rparr>)" (is "_ = Some (_, ?s)")
    using False p z by (simp add: fl_dma_alloc_device_def mem_domain_free_def)
  moreover have "tables_inv ?s" "dma_map ?s = dma_map s" using i by (simp_all add: tables_inv_def dma_map_def)
  ultimately show ?thesis using False by auto
qed

text \<open>The memory after a buffer is freed: the buffer is cleared over its whole length, then the
  allocator takes it back.\<close>

definition free_mem :: "allocator \<Rightarrow> ptr \<Rightarrow> u64 \<Rightarrow> memory \<Rightarrow> memory" where
  "free_mem al p sz m = al_give al p (mem_fill p (unat sz) (\<lambda>_. 0) m)"

lemma dma_free_found:
  fixes al :: allocator
  assumes i: "tables_inv s" and p: "p \<noteq> NULL" and j: "find_from (\<lambda>x. dma_ptr x = p) (s_dma s) 0 (s_dma_count s) = Some (Some (int j))"
    "j < nat (s_dma_count s)" "dma_ptr (s_dma s ! j) = p"
  defines "s' \<equiv> s\<lparr>s_dma := (s_dma s)[j := s_dma s ! nat (s_dma_count s - 1)], s_dma_count := s_dma_count s - 1,
                    s_dma_mem := free_mem al p (dma_size (s_dma s ! j)) (s_dma_mem s), s_blocks := s_blocks s - {p}\<rparr>"
  shows "fl_dma_free al p s = Some s'" and "tables_inv s'" and "dma_map s' = (dma_map s)(p := None)"
proof -
  note t = tables_invD [OF i]
  let ?v = "\<lambda>d. (dma_size d, dma_owner d)"
  have n: "s_dma_count s \<le> int (length (s_dma s))" using t(6) by (simp add: table_ok_def)
  then have len: "j < length (s_dma s)" using j(2) by linarith
  have m: "s_dma s ! j \<in> set (live (s_dma s) (s_dma_count s))"
    using j(2) len nth_mem [of j "live (s_dma s) (s_dma_count s)"] by simp
  have g: "aget (s_dma s) (int j) = Some (s_dma s ! j)" using len by simp
  have b: "p \<in> s_blocks s" using t(8) m j(3) by auto
  obtain ys where ys: "aget (s_dma s) (s_dma_count s - 1) = Some (s_dma s ! nat (s_dma_count s - 1))"
      "aset (s_dma s) (int j) (s_dma s ! nat (s_dma_count s - 1)) = Some ys"
      "table_ok FL_MODEL_MAX_DMA ys (s_dma_count s - 1)" "distinct (map dma_ptr (live ys (s_dma_count s - 1)))"
      "tab_map dma_ptr ?v (live ys (s_dma_count s - 1)) = (tab_map dma_ptr ?v (live (s_dma s) (s_dma_count s)))(dma_ptr (s_dma s ! j) := None)"
      "set (live ys (s_dma_count s - 1)) = set (live (s_dma s) (s_dma_count s)) - {s_dma s ! j}"
    by (rule swap_remove_key [OF t(6,7) j(2), of ?v])
  have e: "ys = (s_dma s)[j := s_dma s ! nat (s_dma_count s - 1)]" using ys(2) len by simp
  show "fl_dma_free al p s = Some s'"
    using j p b g ys(1,2) unfolding s'_def e [symmetric]
    by (simp add: fl_dma_free_def mem_domain_free_def free_mem_def asm_mem_zero_fill)
  have "inj_on dma_ptr (set (live (s_dma s) (s_dma_count s)))" using t(7) by (simp add: distinct_map)
  then have "dma_ptr ` set (live ys (s_dma_count s - 1)) = s_blocks s - {p}"
    using ys(6) j(3) m t(8) by (simp add: inj_on_image_set_diff)
  then show "tables_inv s'" using ys(3,4) t unfolding tables_inv_def s'_def e [symmetric] by simp
  show "dma_map s' = (dma_map s)(p := None)" using ys(5) j(3) unfolding s'_def e [symmetric] by (simp add: dma_map_def)
qed

lemma dma_free_ok:
  assumes i: "tables_inv s"
  shows "\<exists>s'. fl_dma_free al p s = Some s' \<and> tables_inv s' \<and> dma_map s' = (dma_map s)(p := None) \<and>
           (dma_map s p = None \<longrightarrow> s' = s)"
proof -
  note t = tables_invD [OF i]
  let ?v = "\<lambda>d. (dma_size d, dma_owner d)"
  show ?thesis
  proof (cases "p = NULL")
    case True
    then have "dma_map s p = None" using t(9) dom_dma [OF i] by (metis domIff)
    then show ?thesis using True i by (simp add: fl_dma_free_def fun_upd_idem)
  next
    case p: False
    show ?thesis
    proof (rule find_key [OF t(6,7), of p ?v])
      assume f: "find_from (\<lambda>x. dma_ptr x = p) (s_dma s) 0 (s_dma_count s) = Some None"
        and m: "tab_map dma_ptr ?v (live (s_dma s) (s_dma_count s)) p = None"
      then have "dma_map s p = None" by (simp add: dma_map_def)
      then show ?thesis using f p i by (simp add: fl_dma_free_def fun_upd_idem)
    next
      fix j assume f: "find_from (\<lambda>x. dma_ptr x = p) (s_dma s) 0 (s_dma_count s) = Some (Some (int j))" "j < nat (s_dma_count s)"
          "dma_ptr (s_dma s ! j) = p" "tab_map dma_ptr ?v (live (s_dma s) (s_dma_count s)) p = Some (?v (s_dma s ! j))"
      show ?thesis using dma_free_found [OF i p f(1-3), of al] f(4) by (simp add: dma_map_def)
    qed
  qed
qed

text \<open>Freeing the last entry leaves the array as it is.\<close>

lemma dma_free_last:
  fixes al :: allocator
  assumes i: "tables_inv s" and c: "0 < s_dma_count s"
  defines "d \<equiv> s_dma s ! nat (s_dma_count s - 1)"
  defines "s' \<equiv> s\<lparr>s_dma_count := s_dma_count s - 1, s_dma_mem := free_mem al (dma_ptr d) (dma_size d) (s_dma_mem s),
                    s_blocks := s_blocks s - {dma_ptr d}\<rparr>"
  shows "aget (s_dma s) (s_dma_count s - 1) = Some d" and "fl_dma_free al (dma_ptr d) s = Some s'" and "tables_inv s'"
proof -
  note t = tables_invD [OF i]
  let ?v = "\<lambda>d. (dma_size d, dma_owner d)" and ?l = "nat (s_dma_count s - 1)"
  have n: "s_dma_count s \<le> int (length (s_dma s))" using t(6) by (simp add: table_ok_def)
  show "aget (s_dma s) (s_dma_count s - 1) = Some d" using c n by (simp add: aget_def d_def)
  have l: "?l < length (live (s_dma s) (s_dma_count s))" using c n by simp
  have dl: "live (s_dma s) (s_dma_count s) ! ?l = d" using c by (simp add: d_def)
  have m: "d \<in> set (live (s_dma s) (s_dma_count s))" using nth_mem [OF l] unfolding dl .
  then have nz: "dma_ptr d \<noteq> NULL" using t(8,9) by auto
  obtain j where j: "find_from (\<lambda>x. dma_ptr x = dma_ptr d) (s_dma s) 0 (s_dma_count s) = Some (Some (int j))" "j < nat (s_dma_count s)"
      "dma_ptr (s_dma s ! j) = dma_ptr d"
    by (rule find_key [OF t(6,7), of "dma_ptr d" ?v]) (use m in \<open>auto simp: tab_map_None\<close>)
  have jn: "j < length (live (s_dma s) (s_dma_count s))" using j(2) n by simp
  have "dma_ptr (live (s_dma s) (s_dma_count s) ! j) = dma_ptr (live (s_dma s) (s_dma_count s) ! ?l)"
    using j(2,3) dl by simp
  then have jl: "j = ?l" using nth_eq_iff_index_eq [OF t(7), of j ?l] jn l
    by (simp only: nth_map length_map True_implies_equals simp_thms)
  have e: "(s_dma s)[j := d] = s_dma s" by (simp add: jl d_def)
  note f = dma_free_found [OF i nz j, of al, folded d_def]
  show "fl_dma_free al (dma_ptr d) s = Some s'" "tables_inv s'"
    using f(1,2) unfolding s'_def e by (simp_all add: jl d_def [symmetric])
qed

lemma card_dma: "tables_inv s \<Longrightarrow> int (card (dom (dma_map s))) = s_dma_count s"
  using tables_invD(6,7) [of s] unfolding dma_map_def by (subst card_tab_map) (auto simp: table_ok_def)

lemma dma_get_map: "tables_inv s \<Longrightarrow> dma_get p s = Some (dma_map s p)"
proof -
  assume i: "tables_inv s"
  note t = tables_invD [OF i]
  have n: "dma_map s NULL = None" using t(9) dom_dma [OF i] by (metis domIff)
  show ?thesis
  proof (cases "p = NULL")
    case True
    then show ?thesis using n by (simp add: dma_get_def fl_dma_get_info_def)
  next
    case False
    show ?thesis
      by (rule find_key [OF t(6,7), of p "\<lambda>d. (dma_size d, dma_owner d)"])
        (simp_all add: dma_get_def fl_dma_get_info_def dma_map_def False)
  qed
qed

text \<open>Sequences of allocations, with the block \<open>mem_domain_alloc\<close> returns (\<open>NULL\<close> when it fails), and
  releases, with the pointers the allocations return; what they do to the map of the buffers;
  and the contract of the allocator: a block it hands out is not one of the buffers in use.\<close>

datatype dma_call = Dma_Alloc ptr u64 ptr | Dma_Free ptr

fun dma_run :: "allocator \<Rightarrow> dma_call list \<Rightarrow> drv_model \<Rightarrow> (ptr list \<times> drv_model) option" where
  "dma_run al [] s = Some ([], s)"
| "dma_run al (Dma_Alloc p sz dev # cs) s = do {
     (r, s) \<leftarrow> fl_dma_alloc_device al p dev sz s;
     (rs, s) \<leftarrow> dma_run al cs s;
     Some (r # rs, s)
   }"
| "dma_run al (Dma_Free p # cs) s = do { s \<leftarrow> fl_dma_free al p s; dma_run al cs s }"

definition records :: "(ptr \<rightharpoonup> u64 \<times> ptr) \<Rightarrow> ptr \<Rightarrow> u64 \<Rightarrow> bool" where
  "records t p sz \<longleftrightarrow> p \<noteq> NULL \<and> sz \<noteq> 0 \<and> card (dom t) < FL_MODEL_MAX_DMA"

fun dma_spec :: "dma_call list \<Rightarrow> (ptr \<rightharpoonup> u64 \<times> ptr) \<Rightarrow> ptr list \<times> (ptr \<rightharpoonup> u64 \<times> ptr)" where
  "dma_spec [] t = ([], t)"
| "dma_spec (Dma_Alloc p sz dev # cs) t =
     (let (rs, t') = dma_spec cs (if records t p sz then t(p \<mapsto> (sz, dev)) else t)
      in ((if records t p sz then p else NULL) # rs, t'))"
| "dma_spec (Dma_Free p # cs) t = dma_spec cs (t(p := None))"

fun dma_fresh :: "dma_call list \<Rightarrow> (ptr \<rightharpoonup> u64 \<times> ptr) \<Rightarrow> bool" where
  "dma_fresh [] t \<longleftrightarrow> True"
| "dma_fresh (Dma_Alloc p sz dev # cs) t \<longleftrightarrow> t p = None \<and> dma_fresh cs (if records t p sz then t(p \<mapsto> (sz, dev)) else t)"
| "dma_fresh (Dma_Free p # cs) t \<longleftrightarrow> dma_fresh cs (t(p := None))"

lemma dma_alloc_step:
  assumes i: "tables_inv s" and p: "dma_map s p = None"
  shows "\<exists>s'. fl_dma_alloc_device al p dev sz s = Some (if records (dma_map s) p sz then p else NULL, s') \<and> tables_inv s' \<and>
    dma_map s' = (if records (dma_map s) p sz then (dma_map s)(p \<mapsto> (sz, dev)) else dma_map s)"
proof (cases "p = NULL \<or> sz = 0")
  case True
  then show ?thesis using i by (auto simp: fl_dma_alloc_device_def records_def)
next
  case False
  have "p \<notin> s_blocks s" using dom_dma [OF i] p by (metis domIff)
  moreover have "s_dma_count s < int FL_MODEL_MAX_DMA \<longleftrightarrow> card (dom (dma_map s)) < FL_MODEL_MAX_DMA"
    using card_dma [OF i] by linarith
  ultimately show ?thesis using dma_alloc_ok [OF i, of p sz al dev] False by (auto simp: records_def split: if_splits)
qed

lemma dma_run_ok:
  assumes "tables_inv s" and "dma_fresh cs (dma_map s)"
  shows "\<exists>s'. dma_run al cs s = Some (fst (dma_spec cs (dma_map s)), s') \<and> tables_inv s' \<and> dma_map s' = snd (dma_spec cs (dma_map s))"
  using assms
proof (induction cs arbitrary: s)
  case (Cons c cs)
  show ?case
  proof (cases c)
    case (Dma_Alloc p sz dev)
    define t1 where "t1 = (if records (dma_map s) p sz then (dma_map s)(p \<mapsto> (sz, dev)) else dma_map s)"
    obtain s1 where s1: "fl_dma_alloc_device al p dev sz s = Some (if records (dma_map s) p sz then p else NULL, s1)" "tables_inv s1"
        "dma_map s1 = t1"
      using dma_alloc_step [OF Cons.prems(1), of p al dev sz] Cons.prems(2) Dma_Alloc t1_def by auto
    have "dma_fresh cs (dma_map s1)" using Cons.prems(2) unfolding s1(3) Dma_Alloc t1_def by simp
    then show ?thesis using Cons.IH [OF s1(2)] s1(1) unfolding s1(3) Dma_Alloc dma_spec.simps t1_def [symmetric]
      by (auto simp: case_prod_beta)
  next
    case (Dma_Free p)
    define t1 where "t1 = (dma_map s)(p := None)"
    obtain s1 where s1: "fl_dma_free al p s = Some s1" "tables_inv s1" "dma_map s1 = t1"
      using dma_free_ok [OF Cons.prems(1), of al p] unfolding t1_def by blast
    have "dma_fresh cs (dma_map s1)" using Cons.prems(2) unfolding s1(3) Dma_Free t1_def by simp
    then show ?thesis using Cons.IH [OF s1(2)] s1(1) unfolding s1(3) Dma_Free dma_spec.simps t1_def [symmetric] by simp
  qed
qed simp

end
