(* ===== verification/Drv_Life.thy ===== *)
theory Drv_Life
  imports Drv_Tables
begin

text \<open>
  The life cycle of the devices of the driver model. A device that is bound has all the
  resources of its description and no other device has one that overlaps; a device whose
  driver refuses it leaves nothing behind in the tables of the model. The code of the drivers
  is held to a contract (the locale \<open>driver_code\<close>), which the block driver of the sources keeps.
\<close>

section \<open>Resource claims\<close>

abbreviation claims :: "drv_model \<Rightarrow> fl_resource_claim_t list" where
  "claims s \<equiv> live (s_resources s) (s_resource_count s)"

text \<open>No two claims overlap. The relation is symmetric, so the order of the table does not matter.\<close>

definition no_overlap :: "fl_resource_claim_t list \<Rightarrow> bool" where
  "no_overlap = sorted_wrt (\<lambda>a b. \<not> resource_overlaps (cl_resource a) (cl_resource b))"

lemma resource_overlaps_sym: "resource_overlaps a b \<longleftrightarrow> resource_overlaps b a"
  by (auto simp: resource_overlaps_def Let_def)

lemma sorted_wrt_mset:
  assumes "\<And>a b. R a b \<Longrightarrow> R b a" and "mset xs = mset ys" and "sorted_wrt R xs"
  shows "sorted_wrt R ys"
  using assms(2,3)
proof (induction xs arbitrary: ys)
  case (Cons x xs)
  then obtain as bs where ys: "ys = as @ x # bs" by (metis list.set_intros(1) set_mset_mset split_list)
  then have m: "mset xs = mset (as @ bs)" using Cons.prems(1) by simp
  then have "set xs = set (as @ bs)" by (metis set_mset_mset)
  moreover have "sorted_wrt R (as @ bs)" using Cons.IH [OF m] Cons.prems(2) by simp
  ultimately show ?case using Cons.prems(2) assms(1) unfolding ys by (auto simp: sorted_wrt_append)
qed simp

lemma no_overlap_mset: "mset xs = mset ys \<Longrightarrow> no_overlap xs \<Longrightarrow> no_overlap ys"
  unfolding no_overlap_def by (rule sorted_wrt_mset) (auto simp: resource_overlaps_sym)

lemma claim_resource_ok:
  assumes i: "tables_inv s" and d: "dev \<noteq> NULL"
  shows "\<exists>rc s'. claim_resource_desc dev r s = Some (rc, s') \<and> tables_inv s' \<and>
           (\<exists>rs n. s' = s\<lparr>s_resources := rs, s_resource_count := n\<rparr>) \<and>
           claims s' = (if rc = 0 then claims s @ [\<lparr>cl_resource = r, cl_owner = dev\<rparr>] else claims s) \<and>
           (no_overlap (claims s) \<longrightarrow> no_overlap (claims s')) \<and>
           (rc = 0 \<longleftrightarrow> s_resource_count s < int FL_MODEL_MAX_RESOURCES \<and> (\<forall>c \<in> set (claims s). \<not> resource_overlaps (cl_resource c) r))"
proof -
  note t = tables_invD(5) [OF i, unfolded table_ok_def]
  have same: "s = s\<lparr>s_resources := s_resources s, s_resource_count := s_resource_count s\<rparr>" by simp
  let ?c = "\<lparr>cl_resource = r, cl_owner = dev\<rparr>"
  show ?thesis
  proof (cases "s_resource_count s < int FL_MODEL_MAX_RESOURCES \<and> (\<forall>c \<in> set (claims s). \<not> resource_overlaps (cl_resource c) r)")
    case True
    have f: "find_from (\<lambda>c. resource_overlaps (cl_resource c) r) (s_resources s) 0 (s_resource_count s) = Some None"
      by (rule find_live_None) (use t True in auto)
    let ?s = "s\<lparr>s_resources := (s_resources s)[nat (s_resource_count s) := ?c], s_resource_count := s_resource_count s + 1\<rparr>"
    have l: "claims ?s = claims s @ [?c]" using live_append [of "s_resource_count s" "s_resources s"] t True by simp
    have "nat (s_resource_count s) < length (s_resources s)" using t True by linarith
    then have "claim_resource_desc dev r s = Some (0, ?s)" using f t True d by (simp add: claim_resource_desc_def aset_def)
    moreover have "tables_inv ?s" using i t True by (auto simp: tables_inv_def table_ok_def)
    moreover have "no_overlap (claims s) \<longrightarrow> no_overlap (claims ?s)"
      unfolding l using True by (auto simp: no_overlap_def sorted_wrt_append)
    moreover have "\<exists>rs n. ?s = s\<lparr>s_resources := rs, s_resource_count := n\<rparr>" by blast
    ultimately show ?thesis using True l by (intro exI [of _ 0] exI [of _ ?s] conjI) simp_all
  next
    case False
    have "claim_resource_desc dev r s = Some (- 1, s)"
    proof (cases "s_resource_count s < int FL_MODEL_MAX_RESOURCES")
      case c: True
      have l: "0 \<le> s_resource_count s" "s_resource_count s \<le> int (length (s_resources s))" using t by auto
      show ?thesis
        by (rule find_live [OF l, of "\<lambda>c. resource_overlaps (cl_resource c) r"])
          (use False c in \<open>auto simp: claim_resource_desc_def\<close>)
    qed (simp add: claim_resource_desc_def)
    moreover have "\<exists>rs n. s = s\<lparr>s_resources := rs, s_resource_count := n\<rparr>" using same by blast
    ultimately show ?thesis using False i by (intro exI [of _ "- 1"] exI [of _ s] conjI) simp_all
  qed
qed

lemma release_loop_ok:
  assumes "0 \<le> i" and "i \<le> n" and "n \<le> int (length rs)" and "\<forall>c \<in> set (live rs i). cl_owner c \<noteq> dev"
  shows "\<exists>rs' n'. release_loop dev rs i n = Some (rs', n') \<and> length rs' = length rs \<and> 0 \<le> n' \<and> n' \<le> n \<and>
           mset (live rs' n') = filter_mset (\<lambda>c. cl_owner c \<noteq> dev) (mset (live rs n))"
  using assms
proof (induction "nat (n - i)" arbitrary: i n rs rule: less_induct)
  case less
  show ?case
  proof (cases "i < n")
    case False
    then have "i = n" using less.prems by simp
    then have "filter_mset (\<lambda>c. cl_owner c \<noteq> dev) (mset (live rs n)) = mset (live rs n)"
      using less.prems(4) by (simp add: filter_mset_eq_conv)
    then show ?thesis using False less.prems by (subst release_loop.simps) auto
  next
    case True
    have a: "aget rs i = Some (rs ! nat i)" "aget rs (n - 1) = Some (rs ! nat (n - 1))"
      using True less.prems by (auto simp: aget_def)
    show ?thesis
    proof (cases "cl_owner (rs ! nat i) = dev")
      case own: True
      let ?rs = "rs[nat i := rs ! nat (n - 1)]"
      have l: "0 \<le> i" "nat i < length rs" using True less.prems by linarith+
      have e: "release_loop dev rs i n = release_loop dev ?rs i (n - 1)"
        using True a own l by (subst release_loop.simps) (simp add: aset_def)
      have "live ?rs i = live rs i" by simp
      moreover have m: "mset (live rs n) = mset (rs ! nat i # live ?rs (n - 1))"
        using live_swap_remove_add [of "nat i" n rs] True less.prems by simp
      ultimately obtain rs' n' where r: "release_loop dev ?rs i (n - 1) = Some (rs', n')" "length rs' = length rs" "0 \<le> n'" "n' \<le> n - 1"
          "mset (live rs' n') = filter_mset (\<lambda>c. cl_owner c \<noteq> dev) (mset (live ?rs (n - 1)))"
        using less.hyps [of "n - 1" i ?rs] True less.prems by auto
      show ?thesis
        unfolding e m using r own by (intro exI [of _ rs'] exI [of _ n']) simp
    next
      case own: False
      have e: "release_loop dev rs i n = release_loop dev rs (i + 1) n"
        using True a own by (subst release_loop.simps) simp
      have "live rs (i + 1) = live rs i @ [rs ! nat i]"
        using True less.prems by (simp add: nat_add_distrib take_Suc_conv_app_nth)
      then show ?thesis unfolding e using less.hyps [of n "i + 1" rs] True less.prems own by simp
    qed
  qed
qed

lemma release_all_ok:
  assumes i: "tables_inv s" and d: "dev \<noteq> NULL"
  shows "\<exists>rs n. fl_resource_release_all dev s = Some (s\<lparr>s_resources := rs, s_resource_count := n\<rparr>) \<and>
           tables_inv (s\<lparr>s_resources := rs, s_resource_count := n\<rparr>) \<and>
           mset (live rs n) = filter_mset (\<lambda>c. cl_owner c \<noteq> dev) (mset (claims s))"
proof -
  note t = tables_invD(5) [OF i, unfolded table_ok_def]
  obtain rs n where r: "release_loop dev (s_resources s) 0 (s_resource_count s) = Some (rs, n)" "length rs = length (s_resources s)"
      "0 \<le> n" "n \<le> s_resource_count s" "mset (live rs n) = filter_mset (\<lambda>c. cl_owner c \<noteq> dev) (mset (claims s))"
    using release_loop_ok [of 0 "s_resource_count s" "s_resources s" dev] t by auto
  then show ?thesis using i t d
    by (intro exI [of _ rs] exI [of _ n]) (simp add: fl_resource_release_all_def tables_inv_def table_ok_def)
qed

section \<open>The claims of a device\<close>

definition desc_ok :: "fl_device_desc \<Rightarrow> bool" where
  "desc_ok d \<longleftrightarrow> 0 \<le> resource_count d \<and> resource_count d \<le> int (length (resources d))"

definition desc_claims :: "ptr \<Rightarrow> fl_device_desc \<Rightarrow> fl_resource_claim_t list" where
  "desc_claims dev d = map (\<lambda>r. \<lparr>cl_resource = r, cl_owner = dev\<rparr>) (take (nat (resource_count d)) (resources d))"

lemma desc_claims_owner: "c \<in> set (desc_claims dev d) \<Longrightarrow> cl_owner c = dev"
  by (auto simp: desc_claims_def)

lemma claim_loop_ok:
  assumes "tables_inv s" and "dev \<noteq> NULL" and "desc_ok d" and "0 \<le> i" and "i \<le> resource_count d"
  shows "\<exists>rc s' j. claim_loop dev d i s = Some (rc, s') \<and> tables_inv s' \<and>
           (\<exists>rs n. s' = s\<lparr>s_resources := rs, s_resource_count := n\<rparr>) \<and>
           claims s' = claims s @ take j (drop (nat i) (desc_claims dev d)) \<and> (rc = 0 \<longrightarrow> j = length (desc_claims dev d) - nat i) \<and>
           (no_overlap (claims s) \<longrightarrow> no_overlap (claims s'))"
  using assms(1,4,5)
proof (induction "nat (resource_count d - i)" arbitrary: i s rule: less_induct)
  case less
  have len: "length (desc_claims dev d) = nat (resource_count d)" using assms(3) by (simp add: desc_claims_def desc_ok_def min_absorb2 nat_le_iff)
  have same: "\<exists>rs n. s = s\<lparr>s_resources := rs, s_resource_count := n\<rparr>"
    by (intro exI [of _ "s_resources s"] exI [of _ "s_resource_count s"]) simp
  show ?case
  proof (cases "i < resource_count d")
    case False
    then have "claim_loop dev d i s = Some (0, s)" by (subst claim_loop.simps) simp
    then show ?thesis using False less.prems same len by (intro exI [of _ 0] exI [of _ s] exI [of _ 0] conjI) simp_all
  next
    case True
    let ?r = "resources d ! nat i"
    have a: "aget (resources d) i = Some ?r" using True assms(3) less.prems by (simp add: aget_def desc_ok_def)
    have n: "drop (nat i) (desc_claims dev d) = \<lparr>cl_resource = ?r, cl_owner = dev\<rparr> # drop (nat (i + 1)) (desc_claims dev d)"
    proof -
      have "nat i < length (desc_claims dev d)" using True less.prems len by simp
      then show ?thesis using less.prems assms(3) True
        by (simp add: Cons_nth_drop_Suc [symmetric] nat_add_distrib) (simp add: desc_claims_def desc_ok_def)
    qed
    obtain rc s1 where c: "claim_resource_desc dev ?r s = Some (rc, s1)" "tables_inv s1"
        "\<exists>rs n. s1 = s\<lparr>s_resources := rs, s_resource_count := n\<rparr>"
        "claims s1 = (if rc = 0 then claims s @ [\<lparr>cl_resource = ?r, cl_owner = dev\<rparr>] else claims s)"
        "no_overlap (claims s) \<longrightarrow> no_overlap (claims s1)"
      using claim_resource_ok [OF less.prems(1) assms(2), of ?r] by blast
    show ?thesis
    proof (cases "rc = 0")
      case False
      then have "claim_loop dev d i s = Some (- 1, s1)" using True a c(1) by (subst claim_loop.simps) simp
      then show ?thesis using False c by (intro exI [of _ "- 1"] exI [of _ s1] exI [of _ 0] conjI) simp_all
    next
      case 0: True
      have e: "claim_loop dev d i s = claim_loop dev d (i + 1) s1" using True a c(1) 0 by (subst claim_loop.simps) simp
      obtain rc' s' j where h: "claim_loop dev d (i + 1) s1 = Some (rc', s')" "tables_inv s'"
          "\<exists>rs n. s' = s1\<lparr>s_resources := rs, s_resource_count := n\<rparr>"
          "claims s' = claims s1 @ take j (drop (nat (i + 1)) (desc_claims dev d))"
          "rc' = 0 \<longrightarrow> j = length (desc_claims dev d) - nat (i + 1)" "no_overlap (claims s1) \<longrightarrow> no_overlap (claims s')"
      proof -
        have q: "nat (resource_count d - (i + 1)) < nat (resource_count d - i)" "0 \<le> i + 1" "i + 1 \<le> resource_count d"
          using True less.prems by linarith+
        from less.hyps [OF q(1) c(2) q(2,3)] that show ?thesis by blast
      qed
      obtain rs n rs' n' where "s1 = s\<lparr>s_resources := rs, s_resource_count := n\<rparr>" "s' = s1\<lparr>s_resources := rs', s_resource_count := n'\<rparr>"
        using c(3) h(3) by blast
      then have "s' = s\<lparr>s_resources := rs', s_resource_count := n'\<rparr>" by simp
      moreover have "claims s' = claims s @ take (Suc j) (drop (nat i) (desc_claims dev d))" using h(4) c(4) 0 n by simp
      moreover have "rc' = 0 \<longrightarrow> Suc j = length (desc_claims dev d) - nat i" using h(5) True less.prems(2) unfolding len by arith
      ultimately show ?thesis unfolding e using h(1,2,6) c(5) by blast
    qed
  qed
qed

text \<open>The claims of the devices of a set, and the claim table that holds exactly these.\<close>

definition claims_of :: "(ptr \<rightharpoonup> fl_device) \<Rightarrow> ptr \<Rightarrow> fl_resource_claim_t multiset" where
  "claims_of h dev = (case h dev of None \<Rightarrow> {#} | Some d \<Rightarrow> mset (desc_claims dev (dv_desc d)))"

definition claims_ok :: "ptr set \<Rightarrow> drv_model \<Rightarrow> bool" where
  "claims_ok A s \<longleftrightarrow> finite A \<and> no_overlap (claims s) \<and> mset (claims s) = (\<Sum>a\<in>A. claims_of (s_dev_heap s) a)"

lemma claims_of_owner: "c \<in># claims_of h dev \<Longrightarrow> cl_owner c = dev"
  by (auto simp: claims_of_def desc_claims_owner split: option.splits)

lemma claims_of_cong: "map_option dv_desc (h dev) = map_option dv_desc (h' dev) \<Longrightarrow> claims_of h dev = claims_of h' dev"
  by (cases "h dev"; cases "h' dev") (auto simp: claims_of_def)

lemma claims_ok_owner: "claims_ok A s \<Longrightarrow> c \<in> set (claims s) \<Longrightarrow> cl_owner c \<in> A"
proof -
  assume a: "claims_ok A s" "c \<in> set (claims s)"
  then have "c \<in># (\<Sum>a\<in>A. claims_of (s_dev_heap s) a)" unfolding claims_ok_def by (metis set_mset_mset)
  then show ?thesis using a(1) by (auto simp: claims_ok_def set_mset_sum dest: claims_of_owner)
qed

lemma filter_mset_id: "(\<And>x. x \<in># M \<Longrightarrow> P x) \<Longrightarrow> filter_mset P M = M"
  by (simp add: filter_mset_eq_conv)

text \<open>Releasing what a device has claimed takes its own claims out and leaves the others.\<close>

lemma release_device:
  assumes i: "tables_inv s" and d: "dev \<noteq> NULL" and o: "no_overlap (claims s)"
    and m: "mset (claims s) = (\<Sum>a\<in>A. claims_of (s_dev_heap s) a) + M" and f: "finite A" "dev \<notin> A" and M: "\<And>c. c \<in># M \<Longrightarrow> cl_owner c = dev"
  shows "\<exists>rs n. fl_resource_release_all dev s = Some (s\<lparr>s_resources := rs, s_resource_count := n\<rparr>) \<and>
           tables_inv (s\<lparr>s_resources := rs, s_resource_count := n\<rparr>) \<and> claims_ok A (s\<lparr>s_resources := rs, s_resource_count := n\<rparr>)"
proof -
  obtain rs n where r: "fl_resource_release_all dev s = Some (s\<lparr>s_resources := rs, s_resource_count := n\<rparr>)"
      "tables_inv (s\<lparr>s_resources := rs, s_resource_count := n\<rparr>)"
      "mset (live rs n) = filter_mset (\<lambda>c. cl_owner c \<noteq> dev) (mset (claims s))"
    using release_all_ok [OF i d] by blast
  have "filter_mset (\<lambda>c. cl_owner c \<noteq> dev) M = {#}" using M by (simp add: filter_mset_eq_conv)
  moreover have "filter_mset (\<lambda>c. cl_owner c \<noteq> dev) (\<Sum>a\<in>A. claims_of (s_dev_heap s) a) = (\<Sum>a\<in>A. claims_of (s_dev_heap s) a)"
    by (rule filter_mset_id) (use f in \<open>auto simp: set_mset_sum dest!: claims_of_owner\<close>)
  ultimately have e: "mset (live rs n) = (\<Sum>a\<in>A. claims_of (s_dev_heap s) a)" unfolding r(3) m by simp
  have "mset (live rs n) = mset (filter (\<lambda>c. cl_owner c \<noteq> dev) (claims s))" unfolding r(3) by simp
  moreover have "no_overlap (filter (\<lambda>c. cl_owner c \<noteq> dev) (claims s))"
    using o unfolding no_overlap_def by (rule sorted_wrt_filter)
  ultimately have "no_overlap (live rs n)" using no_overlap_mset by metis
  then show ?thesis using r(1,2) e f(1) by (intro exI [of _ rs] exI [of _ n]) (simp add: claims_ok_def)
qed

lemma claim_device_ok:
  assumes i: "tables_inv s" and d: "dev \<noteq> NULL" "s_dev_heap s dev = Some d" "desc_ok (dv_desc d)" and A: "claims_ok A s" "dev \<notin> A"
  shows "\<exists>rc s'. claim_device_resources dev s = Some (rc, s') \<and> tables_inv s' \<and>
           (\<exists>rs n. s' = s\<lparr>s_resources := rs, s_resource_count := n\<rparr>) \<and> no_overlap (claims s') \<and>
           (\<exists>M. mset (claims s') = (\<Sum>a\<in>A. claims_of (s_dev_heap s') a) + M \<and> (\<forall>c \<in># M. cl_owner c = dev)) \<and>
           (rc = 0 \<longrightarrow> claims_ok (insert dev A) s')"
proof -
  obtain rc s' j where h: "claim_loop dev (dv_desc d) 0 s = Some (rc, s')" "tables_inv s'"
      "\<exists>rs n. s' = s\<lparr>s_resources := rs, s_resource_count := n\<rparr>"
      "claims s' = claims s @ take j (desc_claims dev (dv_desc d))" "rc = 0 \<longrightarrow> j = length (desc_claims dev (dv_desc d))"
      "no_overlap (claims s) \<longrightarrow> no_overlap (claims s')"
  proof -
    have "0 \<le> resource_count (dv_desc d)" using d(3) by (simp add: desc_ok_def)
    from claim_loop_ok [OF i d(1,3) order_refl this] that show ?thesis unfolding nat_zero_as_int [symmetric] drop_0 minus_nat.diff_0 by blast
  qed
  have e: "claim_device_resources dev s = Some (rc, s')"
    using h(1) d by (simp add: claim_device_resources_def fl_device_get_desc_def)
  have hp: "s_dev_heap s' = s_dev_heap s" using h(3) by auto
  let ?M = "mset (take j (desc_claims dev (dv_desc d)))"
  have m: "mset (claims s') = (\<Sum>a\<in>A. claims_of (s_dev_heap s') a) + ?M"
    unfolding h(4) hp using A(1) by (simp add: claims_ok_def)
  have o: "\<forall>c \<in># ?M. cl_owner c = dev" by (auto dest: in_set_takeD desc_claims_owner)
  have "claims_ok (insert dev A) s'" if "rc = 0"
    using that h(5,6) m A d(2) by (simp add: claims_ok_def hp) (simp add: claims_of_def add.commute)
  then show ?thesis using e h(2,3,6) m o A(1) unfolding claims_ok_def by blast
qed

section \<open>The contract of the code of the drivers\<close>

text \<open>A call that does nothing undefined, and whose result has the property if it returns: a panic
  (\<open>Block\<close>) stops the system.\<close>

definition returns :: "'a outcome option \<Rightarrow> ('a \<Rightarrow> bool) \<Rightarrow> bool" where
  "returns m Q \<longleftrightarrow> (case m of None \<Rightarrow> False | Some Block \<Rightarrow> True | Some (Ret x) \<Rightarrow> Q x)"

lemma returns_simps [simp]: "returns (Some (Ret x)) Q \<longleftrightarrow> Q x" "returns (Some Block) Q" "\<not> returns None Q"
  by (simp_all add: returns_def)

lemma returns_obind: "returns m P \<Longrightarrow> (\<And>x. P x \<Longrightarrow> returns (f x) Q) \<Longrightarrow> returns (obind m f) Q"
  unfolding returns_def [of m P] by (auto split: option.splits outcome.splits)

lemma returns_mono: "returns m P \<Longrightarrow> (\<And>x. P x \<Longrightarrow> Q x) \<Longrightarrow> returns m Q"
  by (cases m; cases "the m") (auto simp: returns_def)

text \<open>What the functions of a driver leave alone: the tables that the driver model itself keeps,
  and the descriptions of the devices.\<close>

definition same_core :: "drv_model \<Rightarrow> drv_model \<Rightarrow> bool" where
  "same_core s s' \<longleftrightarrow>
     s_drivers s' = s_drivers s \<and> s_driver_count s' = s_driver_count s \<and> s_devices s' = s_devices s \<and> s_device_count s' = s_device_count s \<and>
     s_resources s' = s_resources s \<and> s_resource_count s' = s_resource_count s \<and> s_model_initialized s' = s_model_initialized s \<and>
     (\<forall>dev. map_option dv_desc (s_dev_heap s' dev) = map_option dv_desc (s_dev_heap s dev))"

text \<open>A function of a driver, called on a device of the heap, does nothing undefined. It may stop the
  system (a panic, \<open>Block\<close>); if it returns, the tables are intact. While a device goes down it
  gets no new DMA buffers.\<close>

definition int_keeps :: "drv_code \<Rightarrow> ptr \<Rightarrow> bool" where
  "int_keeps k f \<longleftrightarrow> f = NULL \<or> (\<forall>dev s. tables_inv s \<longrightarrow> s_dev_heap s dev \<noteq> None \<longrightarrow>
     returns (k_int k f dev s) (\<lambda>(rc, s'). tables_inv s' \<and> same_core s s'))"

definition void_keeps :: "drv_code \<Rightarrow> bool \<Rightarrow> ptr \<Rightarrow> bool" where
  "void_keeps k down f \<longleftrightarrow> f = NULL \<or> (\<forall>dev s. tables_inv s \<longrightarrow> s_dev_heap s dev \<noteq> None \<longrightarrow>
     returns (k_void k f dev s) (\<lambda>s'. tables_inv s' \<and> same_core s s' \<and> (down \<longrightarrow> s_blocks s' \<subseteq> s_blocks s)))"

definition driver_keeps :: "drv_code \<Rightarrow> fl_driver_desc \<Rightarrow> bool" where
  "driver_keeps k d \<longleftrightarrow> (case drv_ops d of None \<Rightarrow> False | Some ops \<Rightarrow>
     int_keeps k (op_probe ops) \<and> int_keeps k (op_attach ops) \<and> void_keeps k False (op_start ops) \<and>
     void_keeps k True (op_stop ops) \<and> void_keeps k True (op_detach ops))"

lemma same_core_refl [simp]: "same_core s s"
  by (simp add: same_core_def)

lemma same_coreD:
  assumes "same_core s s'"
  shows "s_drivers s' = s_drivers s" "s_driver_count s' = s_driver_count s" "s_devices s' = s_devices s" "s_device_count s' = s_device_count s"
    "s_resources s' = s_resources s" "s_resource_count s' = s_resource_count s" "s_model_initialized s' = s_model_initialized s"
    "map_option dv_desc (s_dev_heap s' dev) = map_option dv_desc (s_dev_heap s dev)"
  using assms by (simp_all add: same_core_def)

lemma same_core_heap:
  assumes "same_core s s'"
  shows "dom (s_dev_heap s') = dom (s_dev_heap s)"
    and "s_dev_heap s dev = Some d \<Longrightarrow> \<exists>d'. s_dev_heap s' dev = Some d' \<and> dv_desc d' = dv_desc d"
    and "claims_of (s_dev_heap s') = claims_of (s_dev_heap s)"
proof -
  note e = same_coreD(8) [OF assms]
  show "dom (s_dev_heap s') = dom (s_dev_heap s)" using e by (auto simp: dom_def) (metis map_option_is_None not_Some_eq)+
  show "s_dev_heap s dev = Some d \<Longrightarrow> \<exists>d'. s_dev_heap s' dev = Some d' \<and> dv_desc d' = dv_desc d" using e [of dev] by auto
  show "claims_of (s_dev_heap s') = claims_of (s_dev_heap s)" by (rule ext) (rule claims_of_cong, rule e)
qed

lemma same_core_claims: "same_core s s' \<Longrightarrow> claims_ok A s' = claims_ok A s"
  using same_core_heap(3) [of s s'] same_coreD(5,6) [of s s'] by (simp add: claims_ok_def)

lemma call_int_ok:
  assumes "int_keeps k f" and "tables_inv s" and "s_dev_heap s dev \<noteq> None"
  shows "returns (call_int k f dev s) (\<lambda>(rc, s'). tables_inv s' \<and> same_core s s')"
  using assms unfolding int_keeps_def call_int_def by (cases "f = NULL") auto

lemma call_void_ok:
  assumes "void_keeps k down f" and "tables_inv s" and "s_dev_heap s dev \<noteq> None"
  shows "returns (call_void k f dev s) (\<lambda>s'. tables_inv s' \<and> same_core s s' \<and> (down \<longrightarrow> s_blocks s' \<subseteq> s_blocks s))"
  using assms unfolding void_keeps_def call_void_def by (cases "f = NULL") auto

end
