(* ===== verification/Drv_Bind.thy ===== *)
theory Drv_Bind
  imports Drv_Life
begin

text \<open>
  Binding and unbinding of devices. Initialisation binds a device completely (all its resources
  claimed, the driver started) or leaves no trace of it in the tables; shutdown takes everything
  back. Both hold for any drivers whose code keeps the contract \<open>driver_keeps\<close>.
\<close>

section \<open>The bound devices\<close>

abbreviation bound :: "drv_model \<Rightarrow> fl_bound_device list" where
  "bound s \<equiv> live (s_devices s) (s_device_count s)"

lemma bound_count: "tables_inv s \<Longrightarrow> int (length (bound s)) = s_device_count s"
  using tables_invD(2) [of s] unfolding table_ok_def by (auto simp: min_def)

text \<open>What no step of the life cycle changes.\<close>

definition kept :: "drv_model \<Rightarrow> drv_model \<Rightarrow> bool" where
  "kept s s' \<longleftrightarrow> s_drivers s' = s_drivers s \<and> s_driver_count s' = s_driver_count s \<and> s_model_initialized s' = s_model_initialized s \<and>
     (\<forall>dev. map_option dv_desc (s_dev_heap s' dev) = map_option dv_desc (s_dev_heap s dev))"

lemma kept_refl [simp]: "kept s s"
  by (simp add: kept_def)

lemma kept_trans: "kept s s1 \<Longrightarrow> kept s1 s2 \<Longrightarrow> kept s s2"
  by (simp add: kept_def)

lemma same_core_kept: "same_core s s' \<Longrightarrow> kept s s'"
  by (simp add: kept_def same_core_def)

lemma kept_resources [simp]: "kept s (s\<lparr>s_resources := rs, s_resource_count := n\<rparr>)"
  by (simp add: kept_def)

lemma kept_devices [simp]: "kept s (s\<lparr>s_devices := bs\<rparr>)" "kept s (s\<lparr>s_device_count := m\<rparr>)"
  by (simp_all add: kept_def)

lemma set_bound_ok:
  assumes i: "tables_inv s" and b: "0 \<le> b" "b < int FL_MODEL_MAX_DEVICES"
  shows "set_bound b f s = Some (s\<lparr>s_devices := (s_devices s)[nat b := f (s_devices s ! nat b)]\<rparr>)"
    and "tables_inv (s\<lparr>s_devices := (s_devices s)[nat b := x]\<rparr>)"
proof -
  have l: "nat b < length (s_devices s)" using tables_invD(2) [OF i] b unfolding table_ok_def by linarith
  then show "set_bound b f s = Some (s\<lparr>s_devices := (s_devices s)[nat b := f (s_devices s ! nat b)]\<rparr>)"
    using b(1) by (simp add: set_bound_def aget_def aset_def)
  show "tables_inv (s\<lparr>s_devices := (s_devices s)[nat b := x]\<rparr>)" using i by (simp add: tables_inv_def table_ok_def)
qed

lemma tables_inv_count: "tables_inv s \<Longrightarrow> 0 \<le> n \<Longrightarrow> n \<le> int FL_MODEL_MAX_DEVICES \<Longrightarrow> tables_inv (s\<lparr>s_device_count := n\<rparr>)"
  by (simp add: tables_inv_def table_ok_def)

lemma unbind_ok:
  assumes "tables_inv s" and "dev \<noteq> NULL" and "no_overlap (claims s)"
    and "mset (claims s) = (\<Sum>a\<in>A. claims_of (s_dev_heap s) a) + M" and "finite A" "dev \<notin> A" and "\<And>c. c \<in># M \<Longrightarrow> cl_owner c = dev"
    and c: "s_device_count s = b + 1" "0 \<le> b"
  shows "returns (unbind dev s) (\<lambda>(bd, s'). \<not> bd \<and> tables_inv s' \<and> kept s s' \<and> claims_ok A s' \<and> bound s' = live (s_devices s) b)"
proof -
  obtain rs n where r: "fl_resource_release_all dev s = Some (s\<lparr>s_resources := rs, s_resource_count := n\<rparr>)"
      "tables_inv (s\<lparr>s_resources := rs, s_resource_count := n\<rparr>)" "claims_ok A (s\<lparr>s_resources := rs, s_resource_count := n\<rparr>)"
    using release_device [OF assms(1-7)] by blast
  have "b \<le> int FL_MODEL_MAX_DEVICES" using tables_invD(2) [OF assms(1)] c by (simp add: table_ok_def)
  then have "tables_inv (s\<lparr>s_resources := rs, s_resource_count := n, s_device_count := b\<rparr>)" using tables_inv_count [OF r(2) c(2)] by simp
  then show ?thesis using r(1,3) c by (simp add: unbind_def kept_def claims_ok_def)
qed

section \<open>Binding one device\<close>

text \<open>Attaching and starting, once the resources are claimed.\<close>

definition attach_start :: "drv_code \<Rightarrow> fl_driver_ops \<Rightarrow> int \<Rightarrow> ptr \<Rightarrow> drv_model \<Rightarrow> (bool \<times> drv_model) outcome option" where
  "attach_start k ops b dev s = obind (call_int k (op_attach ops) dev s) (\<lambda>(rc, s).
     if rc \<noteq> 0 then unbind dev s
     else do {
       s \<leftarrow> set_bound b (\<lambda>x. x\<lparr>bd_state := FL_DRV_STATE_ATTACHED\<rparr>) s;
       obind (call_void k (op_start ops) dev s) (\<lambda>s. do {
         s \<leftarrow> set_bound b (\<lambda>x. x\<lparr>bd_state := FL_DRV_STATE_STARTED\<rparr>) s;
         Some (Ret (True, s))
       })
     })"

lemma try_driver_eq:
  "try_driver k driver desc dev s =
     (if \<not> driver_matches (Some driver) desc then Some (Ret (False, s))
      else case drv_ops driver of
        None \<Rightarrow> None
      | Some ops \<Rightarrow>
          obind (call_int k (op_probe ops) dev s) (\<lambda>(rc, s).
          if rc \<noteq> 0 then Some (Ret (False, s))
          else do {
            s' \<leftarrow> set_bound (s_device_count s) (\<lambda>_. \<lparr>bd_dev = dev, bd_driver = Some driver, bd_state = FL_DRV_STATE_PROBED\<rparr>)
                  (s\<lparr>s_device_count := s_device_count s + 1\<rparr>);
            (rc, s') \<leftarrow> claim_device_resources dev s';
            if rc \<noteq> 0 then unbind dev s' else attach_start k ops (s_device_count s) dev s'
          }))"
  unfolding try_driver_def attach_start_def Let_def ..

text \<open>\<open>bs\<close> are the devices bound before.\<close>

lemma attach_ok:
  assumes i: "tables_inv s" and d: "dev \<noteq> NULL" "s_dev_heap s dev \<noteq> None" and A: "claims_ok (insert dev A) s" "dev \<notin> A"
    and c: "s_device_count s = b + 1" "0 \<le> b" "bound s = bs @ [x]" "bd_dev x = dev" "bd_driver x = Some driver"
    and K: "int_keeps k (op_attach ops)" "void_keeps k False (op_start ops)"
  shows "returns (attach_start k ops b dev s)
          (\<lambda>(bd, s'). tables_inv s' \<and> kept s s' \<and>
            (if bd then bound s' = bs @ [\<lparr>bd_dev = dev, bd_driver = Some driver, bd_state = FL_DRV_STATE_STARTED\<rparr>] \<and> claims_ok (insert dev A) s'
             else bound s' = bs \<and> claims_ok A s'))"
  (is "returns _ ?Q")
  unfolding attach_start_def
proof (rule returns_obind [OF call_int_ok [OF K(1) i d(2)]], clarify, goal_cases)
  case (1 rc s1)
  have c1: "claims_ok (insert dev A) s1" using same_core_claims [OF 1(2)] A(1) by simp
  have k1: "kept s s1" using same_core_kept [OF 1(2)] .
  have n1: "s_device_count s1 = b + 1" "bound s1 = bs @ [x]" using same_coreD [OF 1(2)] c by simp_all
  have fin: "finite A" using A(1) by (simp add: claims_ok_def)
  have b32: "b < int FL_MODEL_MAX_DEVICES" using tables_invD(2) [OF 1(1)] n1 by (simp add: table_ok_def)
  have len: "length (s_devices s1) = FL_MODEL_MAX_DEVICES" using tables_invD(2) [OF 1(1)] by (simp add: table_ok_def)
  have lv: "live (s_devices s1) b = bs" "s_devices s1 ! nat b = x"
  proof -
    have "live (s_devices s1) (b + 1) = live (s_devices s1) b @ [s_devices s1 ! nat b]"
      using c(2) b32 len by (simp add: nat_add_distrib take_Suc_conv_app_nth)
    then show "live (s_devices s1) b = bs" "s_devices s1 ! nat b = x" using n1 by simp_all
  qed
  show ?case
  proof (cases "rc = 0")
    case False
    have m: "mset (claims s1) = (\<Sum>a\<in>A. claims_of (s_dev_heap s1) a) + claims_of (s_dev_heap s1) dev"
      using c1 A(2) fin by (simp add: claims_ok_def add.commute)
    have "returns (unbind dev s1) (\<lambda>(bd, s'). \<not> bd \<and> tables_inv s' \<and> kept s1 s' \<and> claims_ok A s' \<and> bound s' = live (s_devices s1) b)"
      by (rule unbind_ok [OF 1(1) d(1) _ m fin A(2) claims_of_owner n1(1) c(2)]) (use c1 in \<open>simp add: claims_ok_def\<close>)
    then have "returns (unbind dev s1) ?Q" by (rule returns_mono) (use k1 lv in \<open>auto intro: kept_trans\<close>)
    then show ?thesis using False by simp
  next
    case True
    let ?s2 = "s1\<lparr>s_devices := (s_devices s1)[nat b := x\<lparr>bd_state := FL_DRV_STATE_ATTACHED\<rparr>]\<rparr>"
    note sb = set_bound_ok(1) [OF 1(1) c(2) b32, of "\<lambda>x. x\<lparr>bd_state := FL_DRV_STATE_ATTACHED\<rparr>", unfolded lv(2)]
      set_bound_ok(2) [OF 1(1) c(2) b32]
    have h2: "s_dev_heap ?s2 dev \<noteq> None" using same_coreD(8) [OF 1(2), of dev] d(2) by auto
    have "returns (obind (call_void k (op_start ops) dev ?s2) (\<lambda>s. do {
        s \<leftarrow> set_bound b (\<lambda>x. x\<lparr>bd_state := FL_DRV_STATE_STARTED\<rparr>) s;
        Some (Ret (True, s))})) ?Q"
    proof (rule returns_obind [OF call_void_ok [OF K(2) sb(2) h2]], clarify, goal_cases)
      case (1 s3)
      note e = same_coreD [OF 1(2)]
      have "live ((s_devices s3)[nat b := y]) (b + 1) = bs @ [y]" for y
      proof -
        have "length (s_devices s3) = FL_MODEL_MAX_DEVICES" using e(3) len by simp
        moreover have "live (s_devices s3) b = bs" using e(3) lv(1) by simp
        ultimately show ?thesis using live_append [of b "s_devices s3" y] c(2) b32 by simp
      qed
      moreover have "x\<lparr>bd_state := FL_DRV_STATE_STARTED\<rparr> = \<lparr>bd_dev = dev, bd_driver = Some driver, bd_state = FL_DRV_STATE_STARTED\<rparr>"
        using c(4,5) by (cases x) simp
      moreover have "s_devices s3 ! nat b = x\<lparr>bd_state := FL_DRV_STATE_ATTACHED\<rparr>" using e(3) len b32 c(2) by simp
      moreover have "claims_ok (insert dev A) s3" using same_core_claims [OF 1(2)] c1 by (simp add: claims_ok_def)
      moreover have "kept s s3" using k1 same_core_kept [OF 1(2)] by (auto simp: kept_def)
      ultimately show ?case using set_bound_ok [OF 1(1) c(2) b32] e(4) n1(1) by (simp add: kept_def claims_ok_def)
    qed
    then show ?thesis using True sb(1) by simp
  qed
qed

text \<open>A driver tried on a device that is on the heap and has no claims.\<close>

lemma try_driver_ok:
  assumes i: "tables_inv s" and d: "dev \<noteq> NULL" "s_dev_heap s dev = Some d" "desc_ok (dv_desc d)" and A: "claims_ok A s" "dev \<notin> A"
    and n: "s_device_count s < int FL_MODEL_MAX_DEVICES" and K: "driver_keeps k driver"
  shows "returns (try_driver k driver desc dev s)
          (\<lambda>(bd, s'). tables_inv s' \<and> kept s s' \<and>
            (if bd then bound s' = bound s @ [\<lparr>bd_dev = dev, bd_driver = Some driver, bd_state = FL_DRV_STATE_STARTED\<rparr>] \<and> claims_ok (insert dev A) s'
             else bound s' = bound s \<and> claims_ok A s'))"
  (is "returns _ ?Q")
proof (cases "driver_matches (Some driver) desc")
  case False
  then show ?thesis using i A by (simp add: try_driver_def)
next
  case True
  obtain ops where ops: "drv_ops driver = Some ops" and K: "int_keeps k (op_probe ops)" "int_keeps k (op_attach ops)" "void_keeps k False (op_start ops)"
    using K by (auto simp: driver_keeps_def split: option.splits)
  have h: "s_dev_heap s dev \<noteq> None" using d(2) by simp
  show ?thesis unfolding try_driver_eq ops option.case if_not_P [OF iffD2 [OF not_not True]]
  proof (rule returns_obind [OF call_int_ok [OF K(1) i h]], clarify, goal_cases)
    case (1 rc s1)
    note e = same_coreD [OF 1(2)]
    have k1: "kept s s1" using same_core_kept [OF 1(2)] .
    show ?case
    proof (cases "rc = 0")
      case False
      then show ?thesis using 1 e k1 A same_core_claims [OF 1(2)] by simp
    next
      case True
      let ?b = "s_device_count s" and ?x = "\<lparr>bd_dev = dev, bd_driver = Some driver, bd_state = FL_DRV_STATE_PROBED\<rparr>"
      let ?s2 = "s1\<lparr>s_device_count := ?b + 1, s_devices := (s_devices s1)[nat ?b := ?x]\<rparr>"
      have b0: "0 \<le> ?b" using tables_invD(2) [OF i] by (simp add: table_ok_def)
      have i1: "tables_inv (s1\<lparr>s_device_count := ?b + 1\<rparr>)" using tables_inv_count [OF 1(1)] b0 n by simp
      note sb = set_bound_ok(1) [OF i1 b0 n, of "\<lambda>_. ?x"] set_bound_ok(2) [OF i1 b0 n, of ?x]
      have bd: "live ((s_devices s1)[nat ?b := ?x]) (?b + 1) = bound s @ [?x]"
        using live_append [of ?b "s_devices s1" ?x] b0 n tables_invD(2) [OF 1(1)] e(3) by (simp add: table_ok_def)
      obtain d1 where d1: "s_dev_heap ?s2 dev = Some d1" "dv_desc d1 = dv_desc d" using same_core_heap(2) [OF 1(2) d(2)] by auto
      have c2: "claims_ok A ?s2" using A(1) same_core_claims [OF 1(2), of A] by (simp add: claims_ok_def)
      obtain rc2 s3 M where cl: "claim_device_resources dev ?s2 = Some (rc2, s3)" "tables_inv s3"
          "\<exists>rs m. s3 = ?s2\<lparr>s_resources := rs, s_resource_count := m\<rparr>" "no_overlap (claims s3)"
          "mset (claims s3) = (\<Sum>a\<in>A. claims_of (s_dev_heap s3) a) + M" "\<forall>c \<in># M. cl_owner c = dev" "rc2 = 0 \<longrightarrow> claims_ok (insert dev A) s3"
      proof -
        have i2: "tables_inv ?s2" using sb(2) by simp
        have "desc_ok (dv_desc d1)" using d1(2) d(3) by simp
        from claim_device_ok [OF i2 d(1) d1(1) this c2 A(2)] that show ?thesis by blast
      qed
      have s3: "s_device_count s3 = ?b + 1" "s_devices s3 = (s_devices s1)[nat ?b := ?x]" "s_dev_heap s3 dev \<noteq> None" "kept s s3"
        using cl(3) d1(1) k1 by (auto simp: kept_def)
      have b3: "bound s3 = bound s @ [?x]" unfolding s3(1,2) by (rule bd)
      have lv: "live (s_devices s3) ?b = bound s" using e(3) unfolding s3(2) by simp
      have fin: "finite A" using A(1) by (simp add: claims_ok_def)
      have "returns (if rc2 \<noteq> 0 then unbind dev s3 else attach_start k ops ?b dev s3) ?Q"
      proof (cases "rc2 = 0")
        case True
        then have "claims_ok (insert dev A) s3" using cl(7) by simp
        from attach_ok [OF cl(2) d(1) s3(3) this A(2) s3(1) b0 b3 _ _ K(2,3)]
        have "returns (attach_start k ops ?b dev s3) ?Q" by (rule returns_mono) (use s3(4) in \<open>auto intro: kept_trans split: if_splits\<close>)
        then show ?thesis using True by simp
      next
        case False
        have "returns (unbind dev s3) ?Q"
          by (rule returns_mono [OF unbind_ok [OF cl(2) d(1) cl(4,5) fin A(2) _ s3(1) b0]])
            (use cl(6) s3(4) lv in \<open>auto intro: kept_trans\<close>)
        then show ?thesis using False by simp
      qed
      then show ?thesis using True e(4) cl(1) sb(1) by (cases "rc2 = 0") simp_all
    qed
  qed
qed

section \<open>Initialisation\<close>

definition registered :: "drv_model \<Rightarrow> fl_driver_desc set" where
  "registered s = {d. Some d \<in> set (live (s_drivers s) (s_driver_count s))}"

lemma kept_registered: "kept s s' \<Longrightarrow> registered s' = registered s"
  by (simp add: kept_def registered_def)

lemma try_drivers_ok:
  assumes "tables_inv s" and "dev \<noteq> NULL" and "s_dev_heap s dev = Some d" and "desc_ok (dv_desc d)" and "claims_ok A s" and "dev \<notin> A"
    and "s_device_count s < int FL_MODEL_MAX_DEVICES" and K: "\<And>x. x \<in> registered s \<Longrightarrow> driver_keeps k x"
  shows "returns (try_drivers k n desc dev s)
          (\<lambda>(bd, s'). tables_inv s' \<and> kept s s' \<and>
            (if bd then (\<exists>x \<in> registered s. bound s' = bound s @ [\<lparr>bd_dev = dev, bd_driver = Some x, bd_state = FL_DRV_STATE_STARTED\<rparr>]) \<and>
                  claims_ok (insert dev A) s'
             else bound s' = bound s \<and> claims_ok A s'))"
  using assms
proof (induction "FL_MODEL_MAX_DRIVERS - n" arbitrary: n s d rule: less_induct)
  case less
  note i = less.prems(1)
  show ?case (is "returns _ (?Q s)")
  proof (cases "int n < s_driver_count s")
    case False
    then show ?thesis using less.prems by (subst try_drivers.simps) simp
  next
    case True
    have t: "length (s_drivers s) = FL_MODEL_MAX_DRIVERS" "s_driver_count s \<le> int FL_MODEL_MAX_DRIVERS"
      using tables_invD(1) [OF i] by (simp_all add: table_ok_def)
    have n: "n < FL_MODEL_MAX_DRIVERS" using True t(2) by linarith
    have g: "aget (s_drivers s) (int n) = Some (s_drivers s ! n)" using n t(1) by (simp add: aget_def)
    show ?thesis
    proof (cases "s_drivers s ! n")
      case None
      have e: "try_drivers k n desc dev s = try_drivers k (n + 1) desc dev s"
        using True n g None by (subst try_drivers.simps) simp
      show ?thesis unfolding e by (rule less.hyps [OF _ less.prems]) (use n in simp_all)
    next
      case (Some x)
      have x: "x \<in> registered s"
      proof -
        have l: "n < length (live (s_drivers s) (s_driver_count s))" using True t by simp
        then have "live (s_drivers s) (s_driver_count s) ! n = Some x" using Some True by simp
        then show ?thesis unfolding registered_def using nth_mem [OF l] by simp
      qed
      have e: "try_drivers k n desc dev s =
          obind (try_driver k x desc dev s) (\<lambda>(bound, s). if bound then Some (Ret (True, s)) else try_drivers k (n + 1) desc dev s)"
        using True n g Some by (subst try_drivers.simps) simp
      show ?thesis unfolding e
      proof (rule returns_obind [OF try_driver_ok [OF less.prems(1-7) less.prems(8) [OF x]]], clarify, goal_cases)
        case (1 bd s1)
        show ?case
        proof (cases bd)
          case True
          then show ?thesis using 1 x by auto
        next
          case False
          obtain d1 where d1: "s_dev_heap s1 dev = Some d1" "dv_desc d1 = dv_desc d"
            using 1(2) less.prems(3) unfolding kept_def by (metis map_option_eq_Some option.simps(9))
          have c: "bound s1 = bound s" "claims_ok A s1" using False 1(3) by simp_all
          have len: "s_device_count s1 = s_device_count s"
            using bound_count [OF 1(1)] bound_count [OF i] c(1) by simp
          have r: "registered s1 = registered s" using kept_registered [OF 1(2)] .
          have "returns (try_drivers k (n + 1) desc dev s1) (?Q s1)"
            by (rule less.hyps [OF _ 1(1) less.prems(2) d1(1) _ c(2) less.prems(6)])
              (use n d1 less.prems(4,7,8) len r in simp_all)
          then have "returns (try_drivers k (n + 1) desc dev s1) (?Q s)"
            by (rule returns_mono) (use 1(2) c r in \<open>auto intro: kept_trans split: if_splits\<close>)
          then show ?thesis using False by simp
        qed
      qed
    qed
  qed
qed

text \<open>The state between the calls: the devices on the heap are the bound ones, all are started, and the
  claims are those of their descriptions.\<close>

definition life_inv :: "fl_driver_desc set \<Rightarrow> drv_model \<Rightarrow> bool" where
  "life_inv D s \<longleftrightarrow> tables_inv s \<and> s_dev_heap s NULL = None \<and> (\<forall>d \<in> ran (s_dev_heap s). desc_ok (dv_desc d)) \<and>
     distinct (map bd_dev (bound s)) \<and> bd_dev ` set (bound s) = dom (s_dev_heap s) \<and> claims_ok (dom (s_dev_heap s)) s \<and>
     (\<forall>b \<in> set (bound s). bd_state b = FL_DRV_STATE_STARTED \<and> (\<exists>d \<in> D. bd_driver b = Some d))"

lemma life_invD:
  assumes "life_inv D s"
  shows "tables_inv s" and "s_dev_heap s NULL = None" and "\<And>dev d. s_dev_heap s dev = Some d \<Longrightarrow> desc_ok (dv_desc d)"
    and "distinct (map bd_dev (bound s))" and "bd_dev ` set (bound s) = dom (s_dev_heap s)" and "claims_ok (dom (s_dev_heap s)) s"
    and "\<And>b. b \<in> set (bound s) \<Longrightarrow> bd_state b = FL_DRV_STATE_STARTED \<and> (\<exists>d \<in> D. bd_driver b = Some d)"
  using assms unfolding life_inv_def by (auto intro: ranI)

lemma life_inv_same:
  assumes "life_inv D s" and "tables_inv s'" and "s_dev_heap s' NULL = None" and "\<And>dev d. s_dev_heap s' dev = Some d \<Longrightarrow> desc_ok (dv_desc d)"
    and "bound s' = bound s" and "dom (s_dev_heap s') = dom (s_dev_heap s)" and "claims_ok (dom (s_dev_heap s)) s'"
  shows "life_inv D s'"
  using assms(2,3,7) life_invD(4,5,7) [OF assms(1)] unfolding life_inv_def assms(5,6) by (auto simp: ran_def assms(4))

lemma kept_heap: "kept s s' \<Longrightarrow> dom (s_dev_heap s') = dom (s_dev_heap s)"
  unfolding kept_def dom_def by (metis (no_types, opaque_lifting) map_option_is_None)

lemma kept_desc: "kept s s' \<Longrightarrow> s_dev_heap s' dev = Some d \<Longrightarrow> \<exists>d0. s_dev_heap s dev = Some d0 \<and> dv_desc d0 = dv_desc d"
  unfolding kept_def by (metis map_option_eq_Some)

text \<open>One round of the loop: a device is created on a fresh block and offered to the drivers.\<close>

lemma init_device_ok:
  assumes L: "life_inv D s" and p: "p \<noteq> NULL" "s_dev_heap s p = None" and desc: "desc_ok desc"
    and n: "s_device_count s < int FL_MODEL_MAX_DEVICES" and R: "registered s \<subseteq> D" and K: "\<And>x. x \<in> D \<Longrightarrow> driver_keeps k x"
  shows "returns (obind (try_drivers k 0 desc p (snd (fl_device_create p desc s))) (\<lambda>(bd, s).
             if bd then Some (Ret s) else do { s \<leftarrow> fl_device_destroy p s; Some (Ret s) }))
          (\<lambda>s'. life_inv D s' \<and> registered s' = registered s \<and> s_model_initialized s' = s_model_initialized s \<and>
            (dom (s_dev_heap s') = dom (s_dev_heap s) \<and> bound s' = bound s \<or>
             dom (s_dev_heap s') = insert p (dom (s_dev_heap s)) \<and> (\<exists>b. bound s' = bound s @ [b] \<and> bd_dev b = p)))"
  (is "returns _ ?Q")
proof -
  note l = life_invD [OF L]
  let ?d = "\<lparr>dv_desc = desc, dv_driver_data = NULL, dv_hal_data = NULL\<rparr>" and ?A = "dom (s_dev_heap s)"
  define s1 where "s1 = s\<lparr>s_dev_heap := (s_dev_heap s)(p \<mapsto> ?d)\<rparr>"
  have s1: "snd (fl_device_create p desc s) = s1" using p(1) by (simp add: fl_device_create_def s1_def)
  have i1: "tables_inv s1" "s_dev_heap s1 p = Some ?d" "bound s1 = bound s" "registered s1 = registered s" "s_device_count s1 = s_device_count s"
    "s_model_initialized s1 = s_model_initialized s" "dom (s_dev_heap s1) = insert p ?A"
    using l(1) by (simp_all add: s1_def tables_inv_def registered_def)
  have pA: "p \<notin> ?A" using p(2) by (simp add: domIff)
  have c1: "claims_ok ?A s1"
  proof -
    have "(\<Sum>a\<in>?A. claims_of ((s_dev_heap s)(p \<mapsto> ?d)) a) = (\<Sum>a\<in>?A. claims_of (s_dev_heap s) a)"
      by (rule sum.cong) (use pA in \<open>auto simp: claims_of_def\<close>)
    then show ?thesis using l(6) by (simp add: claims_ok_def s1_def)
  qed
  have de: "desc_ok (dv_desc d)" if "s_dev_heap s1 x = Some d" for x d
    using that l(3) [of x d] desc by (auto simp: s1_def split: if_splits)
  show ?thesis unfolding s1
  proof (rule returns_obind [OF try_drivers_ok [OF i1(1) p(1) i1(2) _ c1 pA]], goal_cases)
    case (4 r)
    obtain bd s2 where r: "r = (bd, s2)" by fastforce
    note q = 4 [unfolded r prod.case]
    have k: "kept s1 s2" "tables_inv s2" using q by auto
    have h: "dom (s_dev_heap s2) = insert p ?A" using kept_heap [OF k(1)] i1(7) by simp
    have d2: "desc_ok (dv_desc d)" if "s_dev_heap s2 x = Some d" for x d using kept_desc [OF k(1) that] de by metis
    have nu: "s_dev_heap s2 NULL = None" using h l(2) p(1) by (metis domIff insert_iff)
    have kr: "registered s2 = registered s" "s_model_initialized s2 = s_model_initialized s"
      using kept_registered [OF k(1)] k(1) i1(4,6) by (simp_all add: kept_def)
    show ?case
    proof (cases bd)
      case True
      then obtain x where x: "x \<in> D" "bound s2 = bound s @ [\<lparr>bd_dev = p, bd_driver = Some x, bd_state = FL_DRV_STATE_STARTED\<rparr>]"
          "claims_ok (insert p ?A) s2" using q i1(3,4) R by auto
      have "life_inv D s2" unfolding life_inv_def x(2) h using k(2) nu d2 x(1,3) l(4,5,7) pA by (auto simp: ran_def)
      then show ?thesis using True kr x(2) h by (simp add: r)
    next
      case False
      then have x: "bound s2 = bound s" "claims_ok ?A s2" using q i1(3) by auto
      let ?s3 = "s2\<lparr>s_dev_heap := (s_dev_heap s2)(p := None)\<rparr>"
      have pd: "s_dev_heap s2 p \<noteq> None" using h by (metis domIff insertI1)
      have e: "fl_device_destroy p s2 = Some ?s3" using p(1) pd by (simp add: fl_device_destroy_def)
      have h3: "dom (s_dev_heap ?s3) = ?A" using h pA by auto
      have "(\<Sum>a\<in>?A. claims_of ((s_dev_heap s2)(p := None)) a) = (\<Sum>a\<in>?A. claims_of (s_dev_heap s2) a)"
        by (rule sum.cong) (use pA in \<open>auto simp: claims_of_def\<close>)
      then have c3: "claims_ok ?A ?s3" using x(2) by (simp add: claims_ok_def)
      have "life_inv D ?s3"
      proof (rule life_inv_same [OF L _ _ _ _ h3 c3])
        show "desc_ok (dv_desc d)" if "s_dev_heap ?s3 x = Some d" for x d using that d2 [of x d] by (simp split: if_splits)
      qed (use k(2) nu x(1) in \<open>simp_all add: tables_inv_def\<close>)
      moreover have "registered ?s3 = registered s" using kr(1) by (simp add: registered_def)
      ultimately show ?thesis using False e kr(2) x(1) h3 by (simp add: r)
    qed
  qed (use desc i1 n R K in auto)
qed

lemma init_devices_Cons:
  "p \<noteq> NULL \<Longrightarrow> s_device_count s < int FL_MODEL_MAX_DEVICES \<Longrightarrow>
   init_devices k ((desc, p) # ds) s =
     obind (obind (try_drivers k 0 desc p (snd (fl_device_create p desc s))) (\<lambda>(bd, s).
        if bd then Some (Ret s) else do { s \<leftarrow> fl_device_destroy p s; Some (Ret s) })) (init_devices k ds)"
  by (simp add: fl_device_create_def obind_def split: option.splits outcome.splits) (auto split: Option.bind_splits)

text \<open>The outcome of initialisation: devices at some of the addresses \<open>ps\<close> are bound after those before.\<close>

definition inits :: "fl_driver_desc set \<Rightarrow> ptr set \<Rightarrow> drv_model \<Rightarrow> drv_model \<Rightarrow> bool" where
  "inits D ps s s' \<longleftrightarrow> life_inv D s' \<and> registered s' = registered s \<and> s_model_initialized s' = s_model_initialized s \<and>
     (\<exists>new. bound s' = bound s @ new \<and> bd_dev ` set new \<subseteq> ps)"

lemma inits_refl: "life_inv D s \<Longrightarrow> inits D ps s s"
  unfolding inits_def by (intro conjI exI [of _ "[]"]) simp_all

lemma inits_trans: "inits D ps s s1 \<Longrightarrow> inits D qs s1 s2 \<Longrightarrow> ps \<union> qs \<subseteq> rs \<Longrightarrow> inits D rs s s2"
proof -
  assume a: "inits D ps s s1" "inits D qs s1 s2" "ps \<union> qs \<subseteq> rs"
  then obtain x y where "bound s1 = bound s @ x" "bd_dev ` set x \<subseteq> ps" "bound s2 = bound s1 @ y" "bd_dev ` set y \<subseteq> qs"
    unfolding inits_def by blast
  then have "bound s2 = bound s @ (x @ y)" "bd_dev ` set (x @ y) \<subseteq> rs" using a(3) by auto
  then show ?thesis using a(1,2) unfolding inits_def by metis
qed

lemma init_devices_ok:
  assumes "life_inv D s" and "registered s \<subseteq> D" and "\<And>x. x \<in> D \<Longrightarrow> driver_keeps k x"
    and "\<And>desc p. (desc, p) \<in> set ds \<Longrightarrow> desc_ok desc \<and> s_dev_heap s p = None" and "distinct (map snd ds)"
  shows "returns (init_devices k ds s) (inits D (snd ` set ds) s)"
  using assms
proof (induction ds arbitrary: s)
  case Nil
  then show ?case by (simp add: inits_refl)
next
  case (Cons x ds)
  obtain desc p where x: "x = (desc, p)" by fastforce
  have f: "desc_ok desc" "s_dev_heap s p = None" using Cons.prems(4) [of desc p] x by auto
  show ?case
  proof (cases "s_device_count s < int FL_MODEL_MAX_DEVICES")
    case False
    then show ?thesis using Cons.prems(1) by (simp add: x inits_refl)
  next
    case n: True
    show ?thesis
    proof (cases "p = NULL")
      case True
      have "init_devices k (x # ds) s = init_devices k ds s" using n True by (simp add: x fl_device_create_def)
      moreover have "returns (init_devices k ds s) (inits D (snd ` set ds) s)"
        by (rule Cons.IH [OF Cons.prems(1-3)]) (use Cons.prems(4,5) in auto)
      ultimately show ?thesis
        using inits_trans [OF inits_refl [OF Cons.prems(1)], of _ _ "{}" "snd ` set (x # ds)"] by (auto elim!: returns_mono)
    next
      case False
      show ?thesis unfolding x init_devices_Cons [OF False n]
      proof (rule returns_obind [OF init_device_ok [OF Cons.prems(1) False f(2,1) n Cons.prems(2,3)]], assumption, goal_cases)
        case (1 s1)
        have dm: "dom (s_dev_heap s1) \<subseteq> insert p (dom (s_dev_heap s))" and i1: "inits D {p} s s1"
          using 1 unfolding inits_def by fastforce+
        have d1: "desc_ok de \<and> s_dev_heap s1 q = None" if q: "(de, q) \<in> set ds" for de q
        proof -
          have "q \<noteq> p" using q Cons.prems(5) by (force simp: x)
          moreover have "q \<notin> dom (s_dev_heap s)" "desc_ok de" using Cons.prems(4) [of de q] q by auto
          ultimately show ?thesis using dm by (auto simp: domIff [symmetric])
        qed
        have "returns (init_devices k ds s1) (inits D (snd ` set ds) s1)"
          by (rule Cons.IH [OF _ _ Cons.prems(3) d1]) (use 1 Cons.prems(2,5) in auto)
        then show ?case by (rule returns_mono) (rule inits_trans [OF i1], auto)
      qed
    qed
  qed
qed

section \<open>Shutdown\<close>

text \<open>The DMA buffers. Every pass frees the last one, which is in the table: the buffers are cleared
  and given back one after the other, from the last to the first.\<close>

definition release_mem :: "allocator \<Rightarrow> fl_dma_record list \<Rightarrow> memory \<Rightarrow> memory" where
  "release_mem al ds m = foldl (\<lambda>m d. free_mem al (dma_ptr d) (dma_size d) m) m ds"

definition all_released :: "allocator \<Rightarrow> drv_model \<Rightarrow> drv_model" where
  "all_released al s =
     s\<lparr>s_dma_count := 0, s_blocks := {}, s_dma_mem := release_mem al (rev (live (s_dma s) (s_dma_count s))) (s_dma_mem s)\<rparr>"

lemma dma_release_all_ok:
  assumes "tables_inv s"
  shows "fl_dma_release_all al s = Some (all_released al s) \<and> tables_inv (all_released al s)"
  using assms
proof (induction "nat (s_dma_count s)" arbitrary: s rule: less_induct)
  case less
  note t = tables_invD [OF less.prems]
  have c: "0 \<le> s_dma_count s" "s_dma_count s \<le> int (length (s_dma s))" using t(6) by (simp_all add: table_ok_def)
  show ?case
  proof (cases "s_dma_count s > 0")
    case False
    then have z: "s_dma_count s = 0" using c(1) by simp
    then have "s_blocks s = {}" using t(8) by auto
    then have "all_released al s = s" using z by (simp add: all_released_def release_mem_def)
    moreover have "fl_dma_release_all al s = Some s" using False by (subst fl_dma_release_all.simps) simp
    ultimately show ?thesis using less.prems by simp
  next
    case True
    define d where "d = s_dma s ! nat (s_dma_count s - 1)"
    define s1 where "s1 = s\<lparr>s_dma_count := s_dma_count s - 1, s_dma_mem := free_mem al (dma_ptr d) (dma_size d) (s_dma_mem s),
                            s_blocks := s_blocks s - {dma_ptr d}\<rparr>"
    note f = dma_free_last(1) [OF less.prems True, folded d_def] dma_free_last(2,3) [OF less.prems True, of al, folded d_def, folded s1_def]
    have "nat (s_dma_count s1) < nat (s_dma_count s)" using True by (simp add: s1_def)
    from less.hyps [OF this f(3)] have h: "fl_dma_release_all al s1 = Some (all_released al s1)" "tables_inv (all_released al s1)" by simp_all
    obtain k where k: "nat (s_dma_count s) = Suc k" "nat (s_dma_count s - 1) = k"
      using True by (intro that [of "nat (s_dma_count s - 1)"]) linarith+
    have "live (s_dma s) (s_dma_count s) = live (s_dma s) (s_dma_count s - 1) @ [d]"
      unfolding k d_def using c(2) k by (simp add: take_Suc_conv_app_nth)
    then have "all_released al s1 = all_released al s"
      by (simp add: all_released_def s1_def release_mem_def)
    then show ?thesis using True f(1,2) h by (subst fl_dma_release_all.simps) simp
  qed
qed

text \<open>The state while the devices go down: the first \<open>n\<close> of the table are still there.\<close>

definition down_inv :: "fl_driver_desc set \<Rightarrow> nat \<Rightarrow> drv_model \<Rightarrow> bool" where
  "down_inv D n s \<longleftrightarrow> tables_inv s \<and> n \<le> FL_MODEL_MAX_DEVICES \<and> s_dev_heap s NULL = None \<and> s_blocks s = {} \<and>
     distinct (map bd_dev (take n (s_devices s))) \<and> bd_dev ` set (take n (s_devices s)) = dom (s_dev_heap s) \<and>
     claims_ok (dom (s_dev_heap s)) s \<and> (\<forall>b \<in> set (take n (s_devices s)). \<exists>d \<in> D. bd_driver b = Some d)"

lemma down_inv_core: "down_inv D n s \<Longrightarrow> tables_inv s' \<Longrightarrow> same_core s s' \<Longrightarrow> s_blocks s' \<subseteq> s_blocks s \<Longrightarrow> down_inv D n s'"
  using same_core_heap(1) [of s s'] same_core_claims [of s s'] same_coreD(3,8) [of s s']
  unfolding down_inv_def by (metis map_option_is_None subset_empty)

lemma down_inv_last:
  assumes L: "down_inv D (Suc i) s"
  shows "i < length (s_devices s)" and "aget (s_devices s) (int i) = Some (s_devices s ! i)" and "s_dev_heap s (bd_dev (s_devices s ! i)) \<noteq> None"
    and "bd_dev (s_devices s ! i) \<noteq> NULL" and "\<exists>d \<in> D. bd_driver (s_devices s ! i) = Some d"
proof -
  have i: "i < FL_MODEL_MAX_DEVICES" "length (s_devices s) = FL_MODEL_MAX_DEVICES"
    using L tables_invD(2) [of s] by (auto simp: down_inv_def table_ok_def)
  then show l: "i < length (s_devices s)" by simp
  then show "aget (s_devices s) (int i) = Some (s_devices s ! i)" by (simp add: aget_def)
  have t: "take (Suc i) (s_devices s) = take i (s_devices s) @ [s_devices s ! i]" using l by (rule take_Suc_conv_app_nth)
  then have m: "s_devices s ! i \<in> set (take (Suc i) (s_devices s))" by simp
  then show h: "s_dev_heap s (bd_dev (s_devices s ! i)) \<noteq> None" using L unfolding down_inv_def by (metis domIff imageI)
  then show "bd_dev (s_devices s ! i) \<noteq> NULL" using L unfolding down_inv_def by metis
  show "\<exists>d \<in> D. bd_driver (s_devices s ! i) = Some d" using L m unfolding down_inv_def by blast
qed

lemma down_release:
  assumes L: "down_inv D (Suc i) s" and p: "p = bd_dev (s_devices s ! i)"
  shows "\<exists>s'. (do { s \<leftarrow> fl_resource_release_all p s; s \<leftarrow> fl_device_destroy p s; Some (Ret s) })
           = Some (Ret s') \<and> down_inv D i s' \<and> s_devices s' = s_devices s \<and> s_drivers s' = s_drivers s \<and>
           s_device_count s' = s_device_count s"
proof -
  let ?p = "bd_dev (s_devices s ! i)" and ?A = "dom (s_dev_heap s) - {bd_dev (s_devices s ! i)}"
  note l = down_inv_last [OF L]
  have L': "tables_inv s" "s_blocks s = {}" "s_dev_heap s NULL = None" "claims_ok (dom (s_dev_heap s)) s" "Suc i \<le> FL_MODEL_MAX_DEVICES"
    using L by (auto simp: down_inv_def)
  have fin: "finite (dom (s_dev_heap s))" using L'(4) by (simp add: claims_ok_def)
  have m: "mset (claims s) = (\<Sum>a\<in>?A. claims_of (s_dev_heap s) a) + claims_of (s_dev_heap s) ?p"
    using L'(4) l(3) sum.remove [OF fin, of ?p "claims_of (s_dev_heap s)"] by (simp add: claims_ok_def domIff add.commute)
  have o: "no_overlap (claims s)" using L'(4) by (simp add: claims_ok_def)
  obtain rs n where r: "fl_resource_release_all ?p s = Some (s\<lparr>s_resources := rs, s_resource_count := n\<rparr>)"
      "tables_inv (s\<lparr>s_resources := rs, s_resource_count := n\<rparr>)" "claims_ok ?A (s\<lparr>s_resources := rs, s_resource_count := n\<rparr>)"
  proof -
    have "finite ?A" "?p \<notin> ?A" using fin by auto
    from release_device [OF L'(1) l(4) o m this claims_of_owner [of _ "s_dev_heap s"]] that show ?thesis by blast
  qed
  let ?s = "s\<lparr>s_resources := rs, s_resource_count := n, s_dev_heap := (s_dev_heap s)(?p := None)\<rparr>"
  have e: "fl_device_destroy ?p (s\<lparr>s_resources := rs, s_resource_count := n\<rparr>) = Some ?s"
    using l(3,4) by (simp add: fl_device_destroy_def)
  have dm: "dom (s_dev_heap ?s) = ?A" by auto
  have "(\<Sum>a\<in>?A. claims_of ((s_dev_heap s)(?p := None)) a) = (\<Sum>a\<in>?A. claims_of (s_dev_heap s) a)"
    by (rule sum.cong) (auto simp: claims_of_def)
  then have c: "claims_ok ?A ?s" using r(3) by (simp add: claims_ok_def)
  have t: "take (Suc i) (s_devices s) = take i (s_devices s) @ [s_devices s ! i]" using l(1) by (rule take_Suc_conv_app_nth)
  have d: "distinct (map bd_dev (take i (s_devices s)))" "bd_dev ` set (take i (s_devices s)) = ?A"
  proof -
    have "distinct (map bd_dev (take i (s_devices s)))" "?p \<notin> bd_dev ` set (take i (s_devices s))"
        "insert ?p (bd_dev ` set (take i (s_devices s))) = dom (s_dev_heap s)"
      using L unfolding down_inv_def t by simp_all
    then show "distinct (map bd_dev (take i (s_devices s)))" "bd_dev ` set (take i (s_devices s)) = ?A"
      by (simp, metis Diff_insert_absorb)
  qed
  have i: "tables_inv ?s" using r(2) by (simp add: tables_inv_def)
  have dr: "\<forall>b \<in> set (take i (s_devices s)). \<exists>d \<in> D. bd_driver b = Some d" using L unfolding down_inv_def t by auto
  have "down_inv D i ?s" unfolding down_inv_def dm using i L'(2,3,5) d c dr by simp
  then show ?thesis using r(1) e p by simp
qed

lemma shutdown_device_ok:
  assumes L: "down_inv D (Suc i) s" and K: "\<And>x. x \<in> D \<Longrightarrow> driver_keeps k x"
  shows "returns (shutdown_device k i s) (\<lambda>s'. down_inv D i s' \<and> s_drivers s' = s_drivers s)"
proof -
  note l = down_inv_last [OF L]
  let ?b = "s_devices s ! i"
  obtain driver ops where d: "bd_driver ?b = Some driver" "drv_ops driver = Some ops"
      and k: "void_keeps k True (op_stop ops)" "void_keeps k True (op_detach ops)"
    using l(5) K by (fastforce simp: driver_keeps_def split: option.splits)
  let ?P = "\<lambda>s'. down_inv D (Suc i) s' \<and> s_devices s' = s_devices s \<and> s_drivers s' = s_drivers s"
  have core: "?P s2" if "?P s1" "tables_inv s2" "same_core s1 s2" "s_blocks s2 \<subseteq> s_blocks s1" for s1 s2
    using that down_inv_core [of D "Suc i" s1 s2] same_coreD [OF that(3)] by simp
  have step: "returns (call_void k f (bd_dev ?b) s1) ?P" if "?P s1" "void_keeps k True f" for s1 f
  proof -
    have h: "s_dev_heap s1 (bd_dev ?b) \<noteq> None" using that(1) down_inv_last(3) [of D i s1] by simp
    have i: "tables_inv s1" using that(1) by (simp add: down_inv_def)
    show ?thesis by (rule returns_mono [OF call_void_ok [OF that(2) i h]]) (use core that(1) in blast)
  qed
  have "returns (if bd_state ?b = FL_DRV_STATE_STARTED then call_void k (op_stop ops) (bd_dev ?b) s else Some (Ret s)) ?P"
    using L step [OF _ k(1), of s] by simp
  then have "returns (obind (if bd_state ?b = FL_DRV_STATE_STARTED then call_void k (op_stop ops) (bd_dev ?b) s else Some (Ret s)) (\<lambda>s. do {
      b \<leftarrow> aget (s_devices s) (int i);
      driver \<leftarrow> bd_driver b;
      ops \<leftarrow> drv_ops driver;
      call_void k (op_detach ops) (bd_dev b) s })) ?P"
  proof (rule returns_obind, goal_cases)
    case (1 s1)
    then show ?case using step [OF 1 k(2)] l(2) d by simp
  qed
  then have "returns (case bd_driver ?b of None \<Rightarrow> Some (Ret s) | Some driver \<Rightarrow>
            (case drv_ops driver of None \<Rightarrow> Some (Ret s) | Some ops \<Rightarrow>
                 obind (if bd_state ?b = FL_DRV_STATE_STARTED then call_void k (op_stop ops) (bd_dev ?b) s else Some (Ret s)) (\<lambda>s. do {
                   b \<leftarrow> aget (s_devices s) (int i);
                   driver \<leftarrow> bd_driver b;
                   ops \<leftarrow> drv_ops driver;
                   call_void k (op_detach ops) (bd_dev b) s
                 }))) ?P"
    unfolding d option.case .
  then show ?thesis unfolding shutdown_device_def l(2) bind.bind_lunit
  proof (rule returns_obind, goal_cases)
    case (1 s1)
    obtain s2 where "(do { s \<leftarrow> fl_resource_release_all (bd_dev ?b) s1; s \<leftarrow> fl_device_destroy (bd_dev ?b) s; Some (Ret s) }) = Some (Ret s2)"
        "down_inv D i s2" "s_drivers s2 = s_drivers s"
      using down_release [OF conjunct1 [OF 1], of "bd_dev ?b"] 1 by auto
    then show ?case using 1 l(2) by simp
  qed
qed

lemma shutdown_devices_ok:
  assumes "down_inv D n s" and "\<And>x. x \<in> D \<Longrightarrow> driver_keeps k x"
  shows "returns (shutdown_devices k n s) (\<lambda>s'. down_inv D 0 s' \<and> s_drivers s' = s_drivers s)"
  using assms(1)
proof (induction n arbitrary: s)
  case (Suc n)
  show ?case unfolding shutdown_devices.simps
  proof (rule returns_obind [OF shutdown_device_ok [OF Suc.prems assms(2)]], assumption, goal_cases)
    case (1 s1)
    then show ?case using Suc.IH [of s1] by simp
  qed
qed simp

end
