(* ===== verification/Drv_Block.thy ===== *)
theory Drv_Block
  imports Drv_Bind
begin

text \<open>
  The properties of the driver model. The locale \<open>driver_code\<close> is the interface between the model
  and the drivers; the block driver that \<open>driver_model.c\<close> registers keeps its contract, and the
  device the host build enumerates goes through its whole life with it.
\<close>

section \<open>The interface of the drivers\<close>

lemma enumerated_ok: "d \<in> set (fl_bus_enumerate build file_ptr file n) \<Longrightarrow> desc_ok d"
  by (auto simp: fl_bus_enumerate_def desc_ok_def split: if_splits bus_build.splits)

lemma enumerated_length: "length (fl_bus_enumerate build file_ptr file n) \<le> 1"
  by (simp add: fl_bus_enumerate_def split: bus_build.splits)

lemma drivers_init_ok:
  assumes keeps: "\<And>x. x \<in> D \<Longrightarrow> driver_keeps k x" and L: "life_inv D s" and R: "registered s \<subseteq> D" and n: "\<not> s_model_initialized s" and p: "s_dev_heap s (ps 0) = None"
  shows "returns (fl_drivers_init k build file_ptr file ps s)
          (\<lambda>s'. life_inv D s' \<and> s_model_initialized s' \<and> registered s' = registered s \<and>
            (\<exists>new. bound s' = bound s @ new \<and> bd_dev ` set new \<subseteq> {ps 0}))"
proof -
  define ds where "ds = fl_bus_enumerate build file_ptr file (int FL_MODEL_MAX_DEVICES)"
  define zs where "zs = zip ds (map ps [0..<length ds])"
  have l: "length ds \<le> 1" unfolding ds_def by (rule enumerated_length)
  have ok: "\<And>d. d \<in> set ds \<Longrightarrow> desc_ok d" unfolding ds_def by (rule enumerated_ok)
  have "zs = [] \<or> (\<exists>d. desc_ok d \<and> zs = [(d, ps 0)])"
  proof (cases ds)
    case (Cons d r)
    then have "ds = [d]" using l by simp
    then show ?thesis using ok [of d] by (simp add: zs_def)
  qed (simp add: zs_def)
  then have z: "\<And>d q. (d, q) \<in> set zs \<Longrightarrow> desc_ok d \<and> s_dev_heap s q = None" "distinct (map snd zs)" "snd ` set zs \<subseteq> {ps 0}"
    using p by auto
  have "returns (init_devices k zs s) (inits D (snd ` set zs) s)"
    by (rule init_devices_ok [OF L R keeps z(1,2)])
  then have "returns (obind (init_devices k zs s) (\<lambda>s. Some (Ret (s\<lparr>s_model_initialized := True\<rparr>))))
     (\<lambda>s'. life_inv D s' \<and> s_model_initialized s' \<and> registered s' = registered s \<and>
            (\<exists>new. bound s' = bound s @ new \<and> bd_dev ` set new \<subseteq> {ps 0}))"
  proof (rule returns_obind, goal_cases)
    case (1 s1)
    have "life_inv D (s1\<lparr>s_model_initialized := True\<rparr>) = life_inv D s1"
      by (simp add: life_inv_def tables_inv_def claims_ok_def)
    then show ?case using 1 z(3) unfolding inits_def by (auto simp: registered_def)
  qed
  then show ?thesis unfolding fl_drivers_init_def Let_def ds_def [symmetric] zs_def [symmetric] using n l by simp
qed

lemma drivers_shutdown_ok:
  assumes keeps: "\<And>x. x \<in> D \<Longrightarrow> driver_keeps k x" and L: "life_inv D s"
  shows "returns (fl_drivers_shutdown al k s) (\<lambda>s'. \<exists>m. s' = (model_static m)\<lparr>s_drivers := s_drivers s\<rparr>)"
proof -
  obtain s1 where s1: "fl_dma_release_all al s = Some s1" "tables_inv s1" "same_core s s1" "s_blocks s1 = {}"
    using dma_release_all_ok [OF life_invD(1) [OF L], of al] by (simp add: all_released_def same_core_def)
  note e = same_coreD [OF s1(3)] and l = life_invD [OF L]
  have n: "nat (s_device_count s1) \<le> FL_MODEL_MAX_DEVICES" using tables_invD(2) [OF s1(2)] unfolding table_ok_def by linarith
  have "\<exists>d \<in> D. bd_driver b = Some d" if "b \<in> set (bound s)" for b using l(7) [OF that] by simp
  then have "down_inv D (nat (s_device_count s1)) s1" unfolding down_inv_def e(3,4) same_core_heap(1) [OF s1(3)]
    using s1(2,4) n e(4) e(8) [of NULL] l(2,4,5,6) same_core_claims [OF s1(3)] by simp
  then have "returns (shutdown_devices k (nat (s_device_count s1)) s1) (\<lambda>s'. down_inv D 0 s' \<and> s_drivers s' = s_drivers s1)"
    by (rule shutdown_devices_ok) (rule keeps)
  then have "returns (obind (shutdown_devices k (nat (s_device_count s1)) s1) (\<lambda>s.
     Some (Ret ((fl_irq_init (s\<lparr>s_device_count := 0, s_driver_count := 0, s_devfs_count := 0, s_resource_count := 0, s_dma_count := 0,
       s_devices := replicate FL_MODEL_MAX_DEVICES zero_bound, s_resources := replicate FL_MODEL_MAX_RESOURCES zero_claim,
       s_devfs := replicate FL_MODEL_MAX_DEVFS zero_node, s_dma := replicate FL_MODEL_MAX_DMA zero_dma\<rparr>))
       \<lparr>s_model_initialized := False\<rparr>)))) (\<lambda>s'. \<exists>m. s' = (model_static m)\<lparr>s_drivers := s_drivers s\<rparr>)"
  proof (rule returns_obind, goal_cases)
    case (1 s2)
    then have "s_dev_heap s2 = Map.empty" "s_blocks s2 = {}" "s_drivers s2 = s_drivers s" using e(1) by (auto simp: down_inv_def)
    then show ?case by (intro returns_simps(1) [THEN iffD2] exI [of _ "s_dma_mem s2"]) (simp add: fl_irq_init_def model_static_def)
  qed
  then show ?thesis using s1(1) by (simp add: fl_drivers_shutdown_def)
qed

locale driver_code =
  fixes k :: drv_code and D :: "fl_driver_desc set"
  assumes keeps: "x \<in> D \<Longrightarrow> driver_keeps k x"
begin

lemmas init_complete = drivers_init_ok [OF keeps]
  and shutdown_pristine = drivers_shutdown_ok [OF keeps]

end

section \<open>The block driver keeps the contract\<close>

lemma devfs_register_core:
  assumes i: "tables_inv s"
  shows "returns (fl_devfs_register path c dev ops s) (\<lambda>(rc, s'). tables_inv s' \<and> same_core s s')"
proof (cases "dev = NULL \<or> s_devfs_count s \<ge> int FL_MODEL_MAX_DEVFS")
  case True
  then show ?thesis using i by (auto simp: fl_devfs_register_def)
next
  case False
  then have n: "s_devfs_count s < int FL_MODEL_MAX_DEVFS" "dev \<noteq> NULL" by auto
  show ?thesis
  proof (cases "length path < DEVFS_PATH_SIZE \<and> devfs_map s path = None")
    case True
    then show ?thesis using devfs_register_ok [OF i n, of path c ops] unfolding if_P [OF True] by (auto simp: same_core_def)
  next
    case False
    then show ?thesis using devfs_register_ok [OF i n, of path c ops] i unfolding if_not_P [OF False] by simp
  qed
qed

lemma block_driver_keeps: "driver_keeps (block_code g eoi) block_model_driver"
proof -
  have "int_keeps (block_code g eoi) (op_probe block_model_ops)"
    by (auto simp: int_keeps_def block_code_def block_model_ops_def block_probe_def fl_device_get_desc_def)
  moreover have "int_keeps (block_code g eoi) (op_attach block_model_ops)"
  proof -
    have "returns (block_attach g dev s) (\<lambda>(rc, s'). tables_inv s' \<and> same_core s s')" if i: "tables_inv s" and h: "s_dev_heap s dev \<noteq> None" for dev s
    proof -
      obtain d where d: "s_dev_heap s dev = Some d" using h by auto
      define s1 where "s1 = s\<lparr>s_dev_heap := (s_dev_heap s)(dev \<mapsto> d\<lparr>dv_driver_data := (case g of None \<Rightarrow> NULL | Some blk \<Rightarrow> bk_addr blk)\<rparr>)\<rparr>"
      have "tables_inv s1" "same_core s s1" using i d by (auto simp: s1_def tables_inv_def same_core_def)
      moreover have "same_core s s2" if "same_core s1 s2" for s2
        using that \<open>same_core s s1\<close> unfolding same_core_def by metis
      ultimately have "returns (fl_devfs_register ''/dev/blk0'' FL_DRV_CLASS_BLOCK dev block_ops s1) (\<lambda>(rc, s'). tables_inv s' \<and> same_core s s')"
        using devfs_register_core [of s1 "''/dev/blk0''" FL_DRV_CLASS_BLOCK dev block_ops] by (auto elim!: returns_mono)
      then show ?thesis using d by (simp add: block_attach_def s1_def)
    qed
    then show ?thesis by (simp add: int_keeps_def block_code_def block_model_ops_def)
  qed
  moreover have "void_keeps (block_code g eoi) False (op_start block_model_ops)" "void_keeps (block_code g eoi) True (op_stop block_model_ops)"
    by (simp_all add: void_keeps_def block_code_def block_model_ops_def block_start_def block_stop_def)
  moreover have "void_keeps (block_code g eoi) True (op_detach block_model_ops)"
  proof -
    have "returns (map_option Ret (block_detach dev s)) (\<lambda>s'. tables_inv s' \<and> same_core s s' \<and> (True \<longrightarrow> s_blocks s' \<subseteq> s_blocks s))"
      if i: "tables_inv s" for dev s
    proof -
      obtain ns n where "block_detach dev s = Some (s\<lparr>s_devfs := ns, s_devfs_count := n\<rparr>)" "tables_inv (s\<lparr>s_devfs := ns, s_devfs_count := n\<rparr>)"
        using devfs_unregister_ok [OF i, of "''/dev/blk0''"] unfolding block_detach_def by blast
      then show ?thesis by (simp add: same_core_def)
    qed
    then show ?thesis by (simp add: void_keeps_def block_code_def block_model_ops_def)
  qed
  ultimately show ?thesis by (simp add: driver_keeps_def block_model_driver_def)
qed

interpretation blk: driver_code "block_code g eoi" "{block_model_driver}" for g eoi
  by unfold_locales (simp add: block_driver_keeps)

section \<open>The device of the host\<close>

lemma life_inv_static: "life_inv D ((model_static m)\<lparr>s_drivers := ds, s_driver_count := n\<rparr>)"
  if "length ds = FL_MODEL_MAX_DRIVERS" "0 \<le> n" "n \<le> int FL_MODEL_MAX_DRIVERS"
  using that by (simp add: life_inv_def model_static_def tables_inv_def table_ok_def claims_ok_def no_overlap_def)

abbreviation block_registered :: "memory \<Rightarrow> drv_model" where
  "block_registered m \<equiv> (model_static m)\<lparr>s_drivers := (replicate FL_MODEL_MAX_DRIVERS None)[0 := Some block_model_driver], s_driver_count := 1\<rparr>"

lemma register_all_static: "fl_driver_registry_register_all (model_static m) = Some (Ret (block_registered m))"
  by (simp add: fl_driver_registry_register_all_def fl_driver_registry_register_def block_model_driver_def aset_def model_static_def)

lemma block_registered_set: "registered (block_registered m) = {block_model_driver}"
  by (simp add: registered_def model_static_def take_update_swap)

text \<open>The description of the device of the host, its four claims and the model after initialisation.\<close>

definition host_desc :: "ptr \<Rightarrow> string \<Rightarrow> fl_device_desc" where
  "host_desc fp file = hd (fl_bus_enumerate Host fp file 32)"

definition host_model :: "blk_driver option \<Rightarrow> memory \<Rightarrow> ptr \<Rightarrow> string \<Rightarrow> ptr \<Rightarrow> drv_model" where
  "host_model g m fp file p =
     (let r = resources (host_desc fp file) in
     (block_registered m)\<lparr>
       s_devices := (replicate FL_MODEL_MAX_DEVICES zero_bound)
         [0 := \<lparr>bd_dev = p, bd_driver = Some block_model_driver, bd_state = FL_DRV_STATE_STARTED\<rparr>], s_device_count := 1,
       s_devfs := (replicate FL_MODEL_MAX_DEVFS zero_node)
         [0 := \<lparr>nd_path = ''/dev/blk0'', nd_class = FL_DRV_CLASS_BLOCK, nd_dev = p, nd_ops = block_ops\<rparr>], s_devfs_count := 1,
       s_resources := (replicate FL_MODEL_MAX_RESOURCES zero_claim)
         [0 := \<lparr>cl_resource = r ! 0, cl_owner = p\<rparr>, 1 := \<lparr>cl_resource = r ! 1, cl_owner = p\<rparr>,
          2 := \<lparr>cl_resource = r ! 2, cl_owner = p\<rparr>, 3 := \<lparr>cl_resource = r ! 3, cl_owner = p\<rparr>], s_resource_count := 4,
       s_dev_heap := [p \<mapsto> \<lparr>dv_desc = host_desc fp file, dv_driver_data = (case g of None \<Rightarrow> NULL | Some blk \<Rightarrow> bk_addr blk), dv_hal_data = NULL\<rparr>],
       s_model_initialized := True\<rparr>)"

lemma host_desc_eqs:
  "fl_bus_enumerate Host fp file 32 = [host_desc fp file]" "resource_count (host_desc fp file) = 4"
  "length (resources (host_desc fp file)) = 8" "bus_type (host_desc fp file) = FL_BUS_SYNTH" "synth_id (host_desc fp file) = ''host_blk''"
  "map res_type (resources (host_desc fp file)) =
     [FL_RESOURCE_SYNTH, FL_RESOURCE_IRQ, FL_RESOURCE_DMA, FL_RESOURCE_IOPORT] @ replicate 4 FL_RESOURCE_IOPORT"
  "res_start (resources (host_desc fp file) ! 1) = 3"
  by (simp_all add: host_desc_def fl_bus_enumerate_def cstr_copy_def zero_resource_def)

lemma host_types:
  "res_type (resources (host_desc fp file) ! 0) = FL_RESOURCE_SYNTH" "res_type (resources (host_desc fp file) ! 1) = FL_RESOURCE_IRQ"
  "res_type (resources (host_desc fp file) ! 2) = FL_RESOURCE_DMA" "res_type (resources (host_desc fp file) ! 3) = FL_RESOURCE_IOPORT"
  by (simp_all add: host_desc_def fl_bus_enumerate_def)

lemma host_claims:
  assumes "resources d = r" "length r = 8" "resource_count d = 4" "res_type (r ! 0) = FL_RESOURCE_SYNTH" "res_type (r ! 1) = FL_RESOURCE_IRQ"
    "res_type (r ! 2) = FL_RESOURCE_DMA" "res_type (r ! 3) = FL_RESOURCE_IOPORT"
    "p \<noteq> NULL" "s_resource_count s = 0" "length (s_resources s) = FL_MODEL_MAX_RESOURCES"
  shows "claim_loop p d 0 s = Some (0, s\<lparr>s_resources := (s_resources s)
         [0 := \<lparr>cl_resource = r ! 0, cl_owner = p\<rparr>, 1 := \<lparr>cl_resource = r ! 1, cl_owner = p\<rparr>,
          2 := \<lparr>cl_resource = r ! 2, cl_owner = p\<rparr>, 3 := \<lparr>cl_resource = r ! 3, cl_owner = p\<rparr>], s_resource_count := 4\<rparr>)"
  using assms
  by (simp add: claim_loop.simps claim_resource_desc_def find_from.simps resource_overlaps_def aget_def aset_def)

lemma block_code_eqs:
  "call_int (block_code g eoi) (op_probe block_model_ops) dev s = map_option (\<lambda>rc. Ret (rc, s)) (block_probe dev s)"
  "call_int (block_code g eoi) (op_attach block_model_ops) dev s = block_attach g dev s"
  "call_void (block_code g eoi) (op_start block_model_ops) dev s = Some (Ret s)"
  "call_void (block_code g eoi) (op_stop block_model_ops) dev s = Some (Ret s)"
  "call_void (block_code g eoi) (op_detach block_model_ops) dev s = map_option Ret (fl_devfs_unregister ''/dev/blk0'' s)"
  by (simp_all add: call_int_def call_void_def block_code_def block_model_ops_def block_start_def block_stop_def block_detach_def)

lemma host_init:
  assumes p: "p \<noteq> NULL"
  shows "fl_drivers_init (block_code g eoi) Host fp file (\<lambda>_. p) (block_registered m) = Some (Ret (host_model g m fp file p))"
proof -
  let ?d = "host_desc fp file" and ?k = "block_code g eoi"
  let ?dev = "\<lparr>dv_desc = ?d, dv_driver_data = NULL, dv_hal_data = NULL\<rparr>"
  let ?s1 = "(block_registered m)\<lparr>s_dev_heap := [p \<mapsto> ?dev]\<rparr>"
  have m: "driver_matches (Some block_model_driver) ?d" "drv_ops block_model_driver = Some block_model_ops"
    using host_desc_eqs(4,5) by (simp_all add: driver_matches_def block_model_driver_def)
  have pr: "block_probe p ?s1 = Some 0" using host_desc_eqs(4,5) p by (simp add: block_probe_def fl_device_get_desc_def)
  have t: "try_driver ?k block_model_driver ?d p ?s1 = Some (Ret (True, (host_model g m fp file p)\<lparr>s_model_initialized := False\<rparr>))"
    using p m pr
    by (simp add: try_driver_def block_code_eqs set_bound_def claim_device_resources_def fl_device_get_desc_def
        host_claims [OF refl host_desc_eqs(3,2) host_types p]
        block_attach_def fl_devfs_register_def find_from.simps aget_def aset_def cstr_copy_def host_model_def Let_def model_static_def)
  have "try_drivers ?k 0 ?d p ?s1 = Some (Ret (True, (host_model g m fp file p)\<lparr>s_model_initialized := False\<rparr>))"
    using t by (subst try_drivers.simps) (simp add: aget_def model_static_def)
  then show ?thesis using p host_desc_eqs(1)
    by (simp add: fl_drivers_init_def fl_device_create_def model_static_def) (simp add: host_model_def Let_def model_static_def)
qed

lemma host_shutdown:
  assumes p: "p \<noteq> NULL"
  shows "fl_drivers_shutdown al (block_code g eoi) (host_model g m fp file p) =
     Some (Ret ((model_static m)\<lparr>s_drivers := (replicate FL_MODEL_MAX_DRIVERS None)[0 := Some block_model_driver]\<rparr>))"
proof -
  let ?s = "host_model g m fp file p" and ?k = "block_code g eoi"
  have d: "fl_dma_release_all al ?s = Some ?s" by (subst fl_dma_release_all.simps) (simp add: host_model_def model_static_def Let_def)
  have ops: "drv_ops block_model_driver = Some block_model_ops" by (simp add: block_model_driver_def)
  obtain s1 where "shutdown_device ?k 0 ?s = Some (Ret s1)" "s_drivers s1 = s_drivers ?s" "s_dev_heap s1 = Map.empty" "s_blocks s1 = {}" "s_dma_mem s1 = m"
    using p ops
    by (simp add: shutdown_device_def block_code_eqs aget_def host_model_def model_static_def Let_def fl_devfs_unregister_def find_from.simps
      aset_def fl_resource_release_all_def release_loop.simps fl_device_destroy_def)
  then show ?thesis using d by (simp add: fl_drivers_shutdown_def host_model_def model_static_def Let_def fl_irq_init_def)
qed

section \<open>Properties\<close>

text \<open>C35: The life of the host's block device. With the block driver registered and a block of memory for
  the device, initialisation of the host build returns; the device is then found by its name and started,
  it owns its four resources (the interrupt 3 among them, for which a handler can be registered), and
  \<open>/dev/blk0\<close> opens; a read through the file calls the block driver on the sector of the file position and
  advances it. Shutdown gives the model back as it was before, apart from the stale array of drivers.\<close>
theorem host_block_life:
  assumes "p \<noteq> NULL" and "h \<noteq> NULL"
  shows "\<exists>s0 s1 f s2. fl_driver_registry_register_all (model_static m) = Some (Ret s0) \<and>
     fl_drivers_init (block_code g eoi) Host fp file (\<lambda>_. p) s0 = Some (Ret s1) \<and>
     fl_device_find_synth ''host_blk'' s1 = Some p \<and> fl_device_get_state p s1 = Some FL_DRV_STATE_STARTED \<and>
     fl_resource_count p s1 = Some 4 \<and> (\<exists>s'. fl_irq_register 3 h ctx s1 = Some (0, s')) \<and>
     fl_devfs_open ''/dev/blk0'' FL_DEVFS_O_READ s1 = Some (Some f) \<and>
     fl_devfs_read (block_code g eoi) True (f\<lparr>fd_pos := pos\<rparr>) buf len s1 =
       (let (rc, got, s') = block_devfs_read g (ucast (pos div FL_SECTOR_SIZE)) buf len s1
        in Some (rc, got, f\<lparr>fd_pos := (if rc = 0 then pos + got else pos)\<rparr>, s')) \<and>
     fl_drivers_shutdown al (block_code g eoi) s1 = Some (Ret s2) \<and> s2 = (model_static m)\<lparr>s_drivers := s_drivers s0\<rparr>"
proof -
  let ?s1 = "host_model g m fp file p" and ?f = "\<lparr>fd_node = Some 0, fd_pos = 0, fd_flags = FL_DEVFS_O_READ\<rparr>"
  have a: "fl_device_find_synth ''host_blk'' ?s1 = Some p" "fl_device_get_state p ?s1 = Some FL_DRV_STATE_STARTED"
    using assms(1) host_desc_eqs(4,5) by (simp_all add: fl_device_find_synth_def find_synth_from.simps fl_device_get_state_def find_from.simps
      fl_device_get_desc_def aget_def host_model_def model_static_def Let_def)
  have b: "fl_resource_count p ?s1 = Some 4"
    by (simp add: fl_resource_count_def count_from.simps aget_def host_model_def model_static_def Let_def)
  have c: "\<exists>s'. fl_irq_register 3 h ctx ?s1 = Some (0, s')"
    using assms host_types host_desc_eqs(7) by (simp add: fl_irq_register_def irq_ok_def irq_owner_from_resources_def find_from.simps aget_def set_irq_def aset_def
      host_model_def model_static_def Let_def zero_irq_def)
  have d: "fl_devfs_open ''/dev/blk0'' FL_DEVFS_O_READ ?s1 = Some (Some ?f)"
    by (simp add: fl_devfs_open_def find_from.simps aget_def host_model_def model_static_def Let_def)
  have e: "fl_devfs_read (block_code g eoi) True (?f\<lparr>fd_pos := pos\<rparr>) buf len ?s1 =
       (let (rc, got, s') = block_devfs_read g (ucast (pos div FL_SECTOR_SIZE)) buf len ?s1
        in Some (rc, got, ?f\<lparr>fd_pos := (if rc = 0 then pos + got else pos)\<rparr>, s'))"
  proof -
    have n: "aget (s_devfs ?s1) 0 = Some \<lparr>nd_path = ''/dev/blk0'', nd_class = FL_DRV_CLASS_BLOCK, nd_dev = p, nd_ops = block_ops\<rparr>"
      by (simp add: aget_def host_model_def model_static_def Let_def)
    show ?thesis by (simp add: fl_devfs_read_def n block_ops_def block_code_def split: prod.splits)
  qed
  show ?thesis
    by (rule exI [of _ "block_registered m"], rule exI [of _ ?s1], rule exI [of _ ?f],
        rule exI [of _ "(model_static m)\<lparr>s_drivers := s_drivers (block_registered m)\<rparr>"], intro conjI register_all_static host_init [OF assms(1)])
      (use a b c d e in \<open>simp_all add: host_shutdown [OF assms(1)]\<close>)
qed

theorem host_block_life_witness:
  "\<exists>s0 s1. fl_driver_registry_register_all (model_static (\<lambda>_. 0)) = Some (Ret s0) \<and>
     fl_drivers_init (block_code None None) Host 0x6000 ''disk.img'' (\<lambda>_. 0x9000) s0 = Some (Ret s1) \<and>
     fl_device_find_synth ''host_blk'' s1 = Some 0x9000"
proof -
  have "(0x9000 :: ptr) \<noteq> NULL" "(0x402800 :: ptr) \<noteq> NULL" by simp_all
  from host_block_life [OF this, of "\<lambda>_. 0" None None "0x6000" "''disk.img''" 0 0 0 0] show ?thesis by blast
qed

text \<open>C33: Initialisation of the driver model binds devices completely or not at all. From any state
  between calls, with drivers whose code keeps the contract and a block of memory that is not in use,
  \<open>fl_drivers_init\<close> does nothing undefined; when it returns, the devices it added are started, the
  devices on the heap are exactly the bound ones (a device that no driver took is destroyed), no two
  resource claims overlap, and the claims are exactly the resources of the bound devices.\<close>
theorem drivers_init_complete:
  assumes "\<And>x. x \<in> registered s \<Longrightarrow> driver_keeps k x" and "life_inv (registered s) s" and "\<not> s_model_initialized s"
    and "s_dev_heap s (ps 0) = None"
  shows "returns (fl_drivers_init k build file_ptr file ps s)
          (\<lambda>s'. s_model_initialized s' \<and> tables_inv s' \<and>
            (\<exists>new. bound s' = bound s @ new \<and> (\<forall>b \<in> set new. bd_dev b = ps 0 \<and> bd_state b = FL_DRV_STATE_STARTED)) \<and>
            dom (s_dev_heap s') = bd_dev ` set (bound s') \<and> no_overlap (claims s') \<and>
            mset (claims s') = (\<Sum>dev\<in>dom (s_dev_heap s'). claims_of (s_dev_heap s') dev))"
proof (rule returns_mono [OF drivers_init_ok [where ps = ps, OF assms(1,2) subset_refl assms(3,4)]], assumption, elim conjE exE, goal_cases)
  case (1 s' new)
  note l = life_invD [OF 1(1)]
  have "\<forall>b \<in> set new. bd_dev b = ps 0 \<and> bd_state b = FL_DRV_STATE_STARTED" using 1(4,5) l(7) by auto
  then show ?case using 1(2,4) l(1,5,6) unfolding claims_ok_def by blast
qed

theorem drivers_init_complete_witness:
  "\<exists>s'. fl_drivers_init (block_code None None) BareMetal 0x6000 ''disk.img'' (\<lambda>_. 0x9000) (block_registered (\<lambda>_. 0)) = Some (Ret s') \<and>
     s_model_initialized s' \<and> bound s' = []"
proof -
  let ?s = "block_registered (\<lambda>_. 0)"
  have l: "life_inv (registered ?s) ?s" by (rule life_inv_static) simp_all
  have f: "\<not> s_model_initialized ?s" "s_dev_heap ?s 0x9000 = None" "bound ?s = []" by (simp_all add: model_static_def)
  have k: "driver_keeps (block_code None None) x" if "x \<in> registered ?s" for x
    using that block_driver_keeps unfolding block_registered_set by simp
  have "returns (fl_drivers_init (block_code None None) BareMetal 0x6000 ''disk.img'' (\<lambda>_. 0x9000) ?s) s_model_initialized"
    by (rule returns_mono [OF drivers_init_complete [OF k l f(1)]]) (use f(2) in auto)
  then show ?thesis by (simp add: fl_drivers_init_def fl_bus_enumerate_def model_static_def)
qed

text \<open>C34: Shutdown takes everything back. From any state between calls, with drivers whose code keeps the
  contract, \<open>fl_drivers_shutdown\<close> does nothing undefined; when it returns, no device is left on the heap,
  no DMA buffer is in use, and every table is as before the first call, except that the array of
  drivers (whose counter is zero) still holds its old contents.\<close>
theorem drivers_shutdown_pristine:
  assumes "\<And>x. x \<in> D \<Longrightarrow> driver_keeps k x" and "life_inv D s"
  shows "returns (fl_drivers_shutdown al k s) (\<lambda>s'. \<exists>m. s' = (model_static m)\<lparr>s_drivers := s_drivers s\<rparr>)"
  by (rule drivers_shutdown_ok [OF assms])

theorem drivers_shutdown_pristine_witness:
  "\<exists>m. fl_drivers_shutdown (arena_allocator 0x7000) (block_code None None) (block_registered (\<lambda>_. 0)) =
     Some (Ret ((model_static m)\<lparr>s_drivers := (replicate FL_MODEL_MAX_DRIVERS None)[0 := Some block_model_driver]\<rparr>))"
proof -
  let ?s = "block_registered (\<lambda>_. 0)"
  have l: "life_inv {block_model_driver} ?s" by (rule life_inv_static) simp_all
  have k: "driver_keeps (block_code None None) x" if "x \<in> {block_model_driver}" for x using that block_driver_keeps by simp
  have r: "returns (fl_drivers_shutdown (arena_allocator 0x7000) (block_code None None) ?s) (\<lambda>s'. \<exists>m. s' = (model_static m)\<lparr>s_drivers := s_drivers ?s\<rparr>)"
    by (rule drivers_shutdown_pristine [OF k l])
  have "\<exists>s'. fl_drivers_shutdown (arena_allocator 0x7000) (block_code None None) ?s = Some (Ret s')"
    by (simp add: fl_drivers_shutdown_def fl_dma_release_all.simps model_static_def)
  then show ?thesis using r by auto
qed



text \<open>C37: The device files are a map from paths to nodes. Any sequence of registrations and removals that
  starts with free space for the registrations runs without a panic or undefined behaviour, and opening a
  path afterwards finds exactly the node that a map would hold: the first registration of a valid path
  wins until it is removed, removal of one path never affects another, although the table fills the gap
  with its last entry.\<close>
theorem devfs_refines_map:
  assumes "tables_inv s" and "card (dom (devfs_map s)) + puts ops \<le> FL_MODEL_MAX_DEVFS"
  shows "\<exists>s'. tab_run devfs_put fl_devfs_unregister ops s = Some s' \<and> tables_inv s' \<and>
           (\<forall>path. devfs_get path s' = Some (map_run devfs_valid ops (devfs_map s) path))"
  by (rule devfs_tab.run_lookup [OF assms])

theorem devfs_refines_map_witness:
  "\<exists>s'. tab_run devfs_put fl_devfs_unregister
       [TPut ''/dev/a'' (FL_DRV_CLASS_BLOCK, 0x9000, block_ops), TPut ''/dev/b'' (FL_DRV_CLASS_NET, 0x9100, zero_ops), TDel ''/dev/a'']
       (model_static (\<lambda>_. 0)) = Some s' \<and>
     devfs_get ''/dev/a'' s' = Some None \<and> devfs_get ''/dev/b'' s' = Some (Some (FL_DRV_CLASS_NET, 0x9100, zero_ops))"
proof -
  have e: "devfs_map (model_static (\<lambda>_. 0)) = Map.empty" by (simp add: devfs_map_def model_static_def tab_map_def)
  show ?thesis
    using devfs_refines_map [OF model_static_inv, of "\<lambda>_. 0"
      "[TPut ''/dev/a'' (FL_DRV_CLASS_BLOCK, 0x9000, block_ops), TPut ''/dev/b'' (FL_DRV_CLASS_NET, 0x9100, zero_ops), TDel ''/dev/a'']"]
    unfolding e by (elim meta_impE) auto
qed

text \<open>C38: The DMA buffers are a map from addresses to size and owner. For any sequence of allocations and
  releases in which the blocks that \<open>mem_domain_alloc\<close> returns are not in use at that moment, an
  allocation returns its block and records it exactly when the block and the size are not zero and fewer
  than 32 buffers are recorded, and returns \<open>NULL\<close> and records nothing otherwise; a release takes exactly
  its own address out of the map. No block is given back to the allocator that is not in use: releasing an
  address that was never allocated, or twice, does nothing.\<close>
theorem dma_refines_map:
  assumes "tables_inv s" and "dma_fresh cs (dma_map s)"
  shows "\<exists>s'. dma_run al cs s = Some (fst (dma_spec cs (dma_map s)), s') \<and> tables_inv s' \<and>
           (\<forall>p. dma_get p s' = Some (snd (dma_spec cs (dma_map s)) p)) \<and>
           (\<forall>p. dma_get p s' = Some None \<longrightarrow> fl_dma_free al p s' = Some s')"
proof -
  obtain s' where s': "dma_run al cs s = Some (fst (dma_spec cs (dma_map s)), s')" "tables_inv s'" "dma_map s' = snd (dma_spec cs (dma_map s))"
    using dma_run_ok [OF assms] by blast
  have "fl_dma_free al p s' = Some s'" if "dma_get p s' = Some None" for p
    using dma_free_ok [OF s'(2), of al p] that dma_get_map [OF s'(2)] by auto
  then show ?thesis using s' dma_get_map [OF s'(2)] by auto
qed

theorem dma_refines_map_witness:
  "\<exists>s'. dma_run (arena_allocator 0x7000) [Dma_Alloc 0x5000 64 0x9000, Dma_Free 0x5000, Dma_Free 0x5000, Dma_Alloc 0x6000 16 NULL]
       (model_static (\<lambda>_. 0)) = Some ([0x5000, 0x6000], s') \<and>
     dma_get 0x5000 s' = Some None \<and> dma_get 0x6000 s' = Some (Some (16, NULL))"
proof -
  let ?cs = "[Dma_Alloc 0x5000 64 0x9000, Dma_Free 0x5000, Dma_Free 0x5000, Dma_Alloc 0x6000 16 NULL]"
  have e: "dma_map (model_static (\<lambda>_. 0)) = Map.empty" by (simp add: dma_map_def model_static_def tab_map_def)
  have f: "dma_fresh ?cs Map.empty" and sp: "dma_spec ?cs Map.empty = ([0x5000, 0x6000], [0x6000 \<mapsto> (16, NULL)])"
    by (simp_all add: records_def Let_def)
  show ?thesis
    using dma_refines_map [OF model_static_inv, of ?cs "\<lambda>_. 0" "arena_allocator 0x7000", unfolded e sp, OF f] by auto
qed


text \<open>C39: The overlap test of resource claims is exact for ranges that end within the 64-bit space: two
  resources of one type (other than interrupts) overlap when the sets of addresses they cover meet.
  Beyond it, where the computed end wraps to the start of the space, it misses an overlap.\<close>
theorem resource_overlaps_exact:
  assumes "res_type a = res_type b" and "res_type a \<noteq> FL_RESOURCE_IRQ"
    and "unat (res_start a) + unat (res_size a) \<le> 2 ^ 64" and "unat (res_start b) + unat (res_size b) \<le> 2 ^ 64"
  shows "(resource_overlaps a b \<longleftrightarrow>
       {unat (res_start a)..<unat (res_start a) + unat (res_size a)} \<inter> {unat (res_start b)..<unat (res_start b) + unat (res_size b)} \<noteq> {}) \<and>
     \<not> resource_overlaps \<lparr>res_type = FL_RESOURCE_MMIO, res_start = - 16, res_size = 32, res_name = n\<rparr>
         \<lparr>res_type = FL_RESOURCE_MMIO, res_start = - 8, res_size = 4, res_name = n\<rparr>"
proof (intro conjI)
  have e: "unat (st + sz - 1) = unat st + unat sz - 1" if "unat st + unat sz \<le> 2 ^ 64" "sz \<noteq> 0" for st sz :: u64
  proof -
    have z: "0 < unat sz" using that(2) by (simp add: unat_gt_0)
    have "st + sz - 1 = of_nat (unat st + unat sz - 1)" using z by (simp add: of_nat_diff)
    then have "unat (st + sz - 1) = unat (of_nat (unat st + unat sz - 1) :: u64)" by (simp only:)
    also have "\<dots> = unat st + unat sz - 1" unfolding unat_of_nat by (rule mod_less) (use that(1) z in simp)
    finally show ?thesis .
  qed
  show "resource_overlaps a b \<longleftrightarrow>
       {unat (res_start a)..<unat (res_start a) + unat (res_size a)} \<inter> {unat (res_start b)..<unat (res_start b) + unat (res_size b)} \<noteq> {}"
  proof (cases "res_size a = 0 \<or> res_size b = 0")
    case True
    then show ?thesis using assms(1,2) by (auto simp: resource_overlaps_def)
  next
    case False
    then have z: "0 < unat (res_size a)" "0 < unat (res_size b)" by (simp_all add: unat_gt_0)
    have "resource_overlaps a b \<longleftrightarrow> unat (res_start a) \<le> unat (res_start b) + unat (res_size b) - 1 \<and> unat (res_start b) \<le> unat (res_start a) + unat (res_size a) - 1"
      using assms False e [OF assms(3)] e [OF assms(4)] by (simp add: resource_overlaps_def Let_def word_le_nat_alt)
    then show ?thesis using z by (auto simp: disjoint_iff)
  qed
qed (simp add: resource_overlaps_def)

theorem resource_overlaps_exact_witness:
  "resource_overlaps \<lparr>res_type = FL_RESOURCE_IOPORT, res_start = 0xF100, res_size = 8, res_name = ''a''\<rparr>
     \<lparr>res_type = FL_RESOURCE_IOPORT, res_start = 0xF107, res_size = 1, res_name = ''b''\<rparr>"
  using resource_overlaps_exact [of "\<lparr>res_type = FL_RESOURCE_IOPORT, res_start = 0xF100, res_size = 8, res_name = ''a''\<rparr>"
     "\<lparr>res_type = FL_RESOURCE_IOPORT, res_start = 0xF107, res_size = 1, res_name = ''b''\<rparr>"] by simp

end
