(* ===== verification/Spec2Isabelle.thy ===== *)
theory Spec2Isabelle
  imports Sched_Pool VM_Run MM_PMM Drv_Block
begin

text \<open>
  A verification library for the Flinstone kernel, VM and shell sources.

  \<^bold>\<open>Parts of the program and their theories.\<close>
  \<^item> \<open>FL_Prelude\<close>: C types, array accesses that are \<open>None\<close> out of bounds, linked lists in
    index arrays, ring buffers.
  \<^item> \<open>Sched_PQ\<close>, \<open>Sched_MLQ\<close>, \<open>Sched_Calls\<close>: \<open>kernel/core/sched/priority_queue.c\<close>.
  \<^item> \<open>Sched_Pool\<close>: \<open>kernel/core/sched/threadpool.c\<close> and \<open>task_manager.c\<close>.

  \<^bold>\<open>Conventions.\<close> A definition has the name of the C function it translates. \<open>None\<close> as
  the result of a definition is undefined behaviour of the C code; error codes are ordinary
  results.
\<close>

end
